(* ===== verification/Prelude.thy ===== *)
theory Prelude
  imports Main "HOL-Library.FSet" "HOL-Library.AList" "HOL-Library.Char_ord"
    "HOL-Library.List_Lexorder"
begin

section \<open>Shared vocabulary of the development\<close>

text \<open>
  The types every component uses, the library's named collections of facts, and the generic
  lemmas on association lists, finite sets and lists.

  Conventions:
  \<^item> a Rust \<open>u8\<close> is a \<open>char\<close> (the eight-bit type of HOL), so \<open>Vec<u8>\<close> and the UTF-8
    bytes of a \<open>String\<close> are both lists of \<open>char\<close>, ordered lexicographically as in Rust, and
    \<open>as_bytes\<close> is the identity;
  \<^item> \<open>u64\<close> and \<open>usize\<close> counters are natural numbers; where the code subtracts them the
    wrap-around of the release build is written out with \<open>wsub\<close>;
  \<^item> \<open>BTreeSet\<close> and \<open>HashSet\<close> are finite sets, \<open>HashMap\<close> and \<open>DashMap\<close> are association
    lists with distinct keys (or maps, where the code never iterates);
  \<^item> \<open>Result<T, E>\<close> is the sum \<open>'e + 'a\<close> with \<open>Inl\<close> for \<open>Err\<close>.
\<close>

type_synonym byte = char
type_synonym bytes = "byte list"
type_synonym u64 = nat
type_synonym usize = nat
type_synonym i64 = int

text \<open>
  The collections the component proofs are driven by: \<open>model_defs\<close> unfolds the small
  accessors of a component, \<open>frame\<close> holds what an operation leaves unchanged.
\<close>

named_theorems model_defs \<open>definitions of the small accessors of the components\<close>
named_theorems frame \<open>fields an operation leaves unchanged\<close>

subsection \<open>Machine arithmetic\<close>

text \<open>
  Subtraction on \<open>u64\<close> as the release profile compiles it: it wraps modulo \<open>2 ^ 64\<close>.
\<close>

definition wsub :: "u64 \<Rightarrow> u64 \<Rightarrow> u64" where
  "wsub a b = (if b \<le> a then a - b else 2 ^ 64 + a - b)"

lemma wsub_ge [simp]: "b \<le> a \<Longrightarrow> wsub a b = a - b"
  by (simp add: wsub_def)

text \<open>Decimal rendering of a number, as \<open>format!\<close> prints it.\<close>

fun show_nat :: "nat \<Rightarrow> string" where
  "show_nat n =
     (let d = [char_of (48 + n mod 10)]
      in if n < 10 then d else show_nat (n div 10) @ d)"

declare show_nat.simps [simp del]

subsection \<open>Association lists as hash maps\<close>

text \<open>\<open>contains_key\<close>, \<open>remove\<close> and a functional update of the value at one key.\<close>

definition contains_key :: "('k \<times> 'v) list \<Rightarrow> 'k \<Rightarrow> bool" where
  "contains_key m k = (map_of m k \<noteq> None)"

abbreviation alist_wf :: "('k \<times> 'v) list \<Rightarrow> bool" where
  "alist_wf m \<equiv> distinct (map fst m)"

lemma contains_key_iff [simp]: "contains_key m k \<longleftrightarrow> k \<in> fst ` set m"
  by (auto simp: contains_key_def map_of_eq_None_iff)

lemma alist_wf_update [simp]: "alist_wf m \<Longrightarrow> alist_wf (AList.update k v m)"
  by (rule distinct_update)

lemma map_of_update [simp]: "map_of (AList.update k v m) = (map_of m)(k \<mapsto> v)"
  by (rule ext) (simp add: update_conv)

lemma alist_wf_delete [simp]: "alist_wf m \<Longrightarrow> alist_wf (AList.delete k m)"
  by (rule distinct_delete)

lemma map_of_alist_delete [simp]: "map_of (AList.delete k m) = (map_of m)(k := None)"
  by (rule ext) (simp add: delete_conv)

lemma map_of_SomeD_key: "map_of m k = Some v \<Longrightarrow> k \<in> fst ` set m"
  by (metis contains_key_def contains_key_iff option.distinct(1))

text \<open>\<open>if let Some(x) = m.get_mut(k)\<close>: change the value at a key that is there.\<close>

definition alist_modify :: "'k \<Rightarrow> ('v \<Rightarrow> 'v) \<Rightarrow> ('k \<times> 'v) list \<Rightarrow> ('k \<times> 'v) list" where
  "alist_modify k f m = (case map_of m k of None \<Rightarrow> m | Some v \<Rightarrow> AList.update k (f v) m)"

lemma map_of_alist_modify [simp]:
  "map_of (alist_modify k f m) = (map_of m)(k := map_option f (map_of m k))"
  by (auto simp: alist_modify_def fun_eq_iff split: option.splits)

lemma alist_wf_modify [simp]: "alist_wf m \<Longrightarrow> alist_wf (alist_modify k f m)"
  by (simp add: alist_modify_def split: option.splits)

subsection \<open>Ordered maps\<close>

text \<open>A \<open>BTreeMap\<close>: an association list in increasing order of its keys.\<close>

abbreviation bt_wf :: "('k :: linorder \<times> 'v) list \<Rightarrow> bool" where
  "bt_wf m \<equiv> sorted_wrt (<) (map fst m)"

fun bt_insert :: "'k :: linorder \<Rightarrow> 'v \<Rightarrow> ('k \<times> 'v) list \<Rightarrow> ('k \<times> 'v) list" where
  "bt_insert k v [] = [(k, v)]"
| "bt_insert k v ((k', v') # m) =
     (if k < k' then (k, v) # (k', v') # m
      else if k = k' then (k, v) # m
      else (k', v') # bt_insert k v m)"

lemma bt_insert_keys [simp]: "fst ` set (bt_insert k v m) = insert k (fst ` set m)"
  by (induction m rule: bt_insert.induct) auto

lemma bt_wf_insert [simp]: "bt_wf m \<Longrightarrow> bt_wf (bt_insert k v m)"
proof (induction m)
  case (Cons x m)
  have "fst ` set (bt_insert k v m) = insert k (fst ` set m)" by simp
  with Cons show ?case by (cases x) (auto simp: image_iff)
qed simp

lemma map_of_bt_insert [simp]: "bt_wf m \<Longrightarrow> map_of (bt_insert k v m) = (map_of m)(k \<mapsto> v)"
proof (induction m)
  case (Cons x m)
  have "k \<notin> fst ` set m" if "k < fst x" using Cons.prems that by auto
  with Cons show ?case by (cases x) (auto simp: fun_eq_iff)
qed simp

lemma bt_insert_last:
  "bt_wf m \<Longrightarrow> (\<And>k'. k' \<in> fst ` set m \<Longrightarrow> k' < k) \<Longrightarrow> bt_insert k v m = m @ [(k, v)]"
  by (induction m) fastforce+

lemma bt_wf_filter [simp]: "bt_wf m \<Longrightarrow> bt_wf (filter P m)"
  by (induction m) auto

lemma bt_wf_distinct: "bt_wf m \<Longrightarrow> alist_wf m"
  by (simp add: strict_sorted_iff)

lemma map_of_filter_key: "map_of (filter (\<lambda>(k, v). P k) m) k = (if P k then map_of m k else None)"
  by (induction m) auto

subsection \<open>Sorting by a key\<close>

text \<open>Sorting lists without equal keys depends only on their elements, not on their order.\<close>

lemma sort_key_unique:
  assumes "distinct (map f xs)" and "distinct (map f ys)" and "set xs = set ys"
  shows "sort_key f xs = sort_key f ys"
proof (rule map_sorted_distinct_set_unique)
  show "inj_on f (set (sort_key f xs) \<union> set (sort_key f ys))"
    using assms by (simp add: distinct_map)
  show "distinct (map f (sort_key f xs))" "distinct (map f (sort_key f ys))"
    using assms by (simp_all add: distinct_map)
qed (use assms in simp_all)

subsection \<open>Finite sets\<close>

text \<open>Two subsets of a finite set that are together larger than it overlap.\<close>

lemma fset_overlap:
  assumes "fcard V < fcard P + fcard Q" and "P |\<subseteq>| V" and "Q |\<subseteq>| V"
  shows "P |\<inter>| Q \<noteq> {||}"
proof
  assume "P |\<inter>| Q = {||}"
  then have "fcard (P |\<union>| Q) = fcard P + fcard Q"
    by (rule fcard_funion_disjoint)
  moreover have "fcard (P |\<union>| Q) \<le> fcard V"
    using assms(2,3) by (intro fcard_mono) auto
  ultimately show False using assms(1) by simp
qed

subsection \<open>Slices of a list\<close>

text \<open>\<open>chunks(n)\<close> of a slice: consecutive pieces of \<open>n\<close> elements, the last one may be shorter.\<close>

function slices :: "nat \<Rightarrow> 'a list \<Rightarrow> 'a list list" where
  "slices n xs = (if n = 0 \<or> xs = [] then [] else take n xs # slices n (drop n xs))"
  by pat_completeness auto
termination by (relation "measure (\<lambda>(n, xs). length xs)") auto

declare slices.simps [simp del]

lemma slices_Nil [simp]: "slices n [] = []"
  by (simp add: slices.simps)

lemma concat_slices [simp]: "0 < n \<Longrightarrow> concat (slices n xs) = xs"
  by (induction n xs rule: slices.induct) (simp add: slices.simps [of _ xs for xs])

lemma slices_append:
  "0 < n \<Longrightarrow> n dvd length xs \<Longrightarrow> slices n (xs @ ys) = slices n xs @ slices n ys"
proof (induction n xs rule: slices.induct)
  case (1 n xs)
  show ?case
  proof (cases "xs = []")
    case False
    then have "n \<le> length xs" using 1(3) by (auto dest: dvd_imp_le)
    then show ?thesis
      using 1(1) [OF _] 1(2,3) False
      by (simp add: slices.simps [of n "xs @ ys"] slices.simps [of n xs] dvd_diff_nat)
  qed simp
qed

end
