(* ===== verification/Raft_Types.thy ===== *)
theory Raft_Types
  imports Prelude
begin

section \<open>Raft vocabulary: roles, errors, membership and quorums\<close>

text \<open>
  \<open>cave-ha/src/raft/types.rs\<close>, \<open>cave-ha/src/raft/membership.rs\<close> and
  \<open>cave-ha/src/error.rs\<close>: the data the Raft engine exchanges, the membership configuration
  with its joint-consensus phase, and the quorum rule. The quorum rule is presented to its
  clients as the locale \<open>quorum_system\<close>, interpreted below on \<open>has_quorum\<close>.
\<close>

type_synonym raft_term = u64
type_synonym log_index = u64
type_synonym node_id = u64

datatype role = Follower | PreCandidate | Candidate | Leader

text \<open>The entry type discriminator.\<close>

datatype entry_type = Normal | MembershipChange | Barrier

text \<open>Errors: every constructor of \<open>HaError\<close>; foreign error payloads are their text.\<close>

datatype ha_error =
    NotLeader "node_id option"
  | NoQuorum
  | LogCompacted u64 u64
  | ProposalDropped
  | TransferInProgress
  | IsLearner
  | MembershipChangePending
  | NodeNotFound node_id
  | Raft string
  | Storage string
  | Transport string
  | SnapshotErr string
  | Dr string
  | Timeout
  | Shutdown
  | Io string
  | Serialization string

type_synonym 'a ha_result = "ha_error + 'a"

subsection \<open>Membership configuration\<close>

record membership_config =
  voters :: "node_id fset"
  learners :: "node_id fset"
  voters_outgoing :: "node_id fset option"
  auto_leave :: bool

definition membership_default :: membership_config where
  "membership_default =
     \<lparr>voters = {||}, learners = {||}, voters_outgoing = None, auto_leave = False\<rparr>"

definition single :: "node_id \<Rightarrow> membership_config" where
  "single i = membership_default\<lparr>voters := finsert i {||}\<rparr>"

definition is_joint :: "membership_config \<Rightarrow> bool" where
  "is_joint self = (voters_outgoing self \<noteq> None)"

definition quorum :: "usize \<Rightarrow> usize" where
  "quorum set_size = set_size div 2 + 1"

definition has_quorum :: "membership_config \<Rightarrow> node_id fset \<Rightarrow> bool" where
  "has_quorum self votes =
     (let new_quorum = quorum (fcard (voters self));
          new_votes = fcard (ffilter (\<lambda>i. i |\<in>| votes) (voters self))
      in if new_votes < new_quorum then False
         else case voters_outgoing self of
                Some old \<Rightarrow>
                  (let old_quorum = quorum (fcard old);
                       old_votes = fcard (ffilter (\<lambda>i. i |\<in>| votes) old)
                   in if old_votes < old_quorum then False else True)
              | None \<Rightarrow> True)"

definition all_nodes :: "membership_config \<Rightarrow> node_id fset" where
  "all_nodes self =
     (let allv = voters self |\<union>| learners self
      in case voters_outgoing self of Some old \<Rightarrow> allv |\<union>| old | None \<Rightarrow> allv)"

definition all_voters :: "membership_config \<Rightarrow> node_id fset" where
  "all_voters self =
     (case voters_outgoing self of Some old \<Rightarrow> voters self |\<union>| old | None \<Rightarrow> voters self)"

record snapshot_meta =
  meta_index :: log_index
  meta_term :: raft_term
  meta_membership :: membership_config

definition snapshot_meta_default :: snapshot_meta where
  "snapshot_meta_default =
     \<lparr>meta_index = 0, meta_term = 0, meta_membership = membership_default\<rparr>"

record node_info =
  info_id :: node_id
  info_addr :: string
  info_is_learner :: bool

record node_status =
  status_id :: node_id
  status_role :: string
  status_term :: raft_term
  status_commit_index :: log_index
  status_last_applied :: log_index
  status_leader_id :: "node_id option"
  status_membership :: membership_config
  status_last_log_index :: log_index
  status_last_log_term :: raft_term

text \<open>The \<open>Display\<close> instance of \<open>Role\<close>.\<close>

fun role_to_string :: "role \<Rightarrow> string" where
  "role_to_string Follower = ''Follower''"
| "role_to_string PreCandidate = ''PreCandidate''"
| "role_to_string Candidate = ''Candidate''"
| "role_to_string Leader = ''Leader''"

subsection \<open>Joint-consensus helpers (membership.rs)\<close>

definition joint_for_add :: "membership_config \<Rightarrow> node_id \<Rightarrow> bool \<Rightarrow> membership_config" where
  "joint_for_add current new_id is_learner =
     (let (new_voters, new_learners) =
            (if is_learner then (voters current, finsert new_id (learners current))
             else (finsert new_id (voters current), learners current |-| {|new_id|}))
      in \<lparr>voters = new_voters, learners = new_learners,
          voters_outgoing = Some (voters current), auto_leave = True\<rparr>)"

definition joint_for_remove :: "membership_config \<Rightarrow> node_id \<Rightarrow> membership_config" where
  "joint_for_remove current remove_id =
     \<lparr>voters = voters current |-| {|remove_id|},
      learners = learners current |-| {|remove_id|},
      voters_outgoing = Some (voters current), auto_leave = True\<rparr>"

definition leave_joint :: "membership_config \<Rightarrow> membership_config" where
  "leave_joint joint =
     \<lparr>voters = voters joint, learners = learners joint,
      voters_outgoing = None, auto_leave = False\<rparr>"

text \<open>The rejections of \<open>validate\<close>, in the order of its checks; the overlap is reported.\<close>

datatype membership_error =
    NoVoters
  | Overlap "node_id fset"
  | RemovesTooMany

definition validate :: "membership_config \<Rightarrow> membership_config \<Rightarrow> membership_error + unit" where
  "validate current proposed =
     (if voters proposed = {||} then Inl NoVoters
      else let overlap = voters proposed |\<inter>| learners proposed
           in if overlap \<noteq> {||} then Inl (Overlap overlap)
              else let removed = voters current |-| voters proposed
                   in if fcard removed > 1 then Inl RemovesTooMany else Inr ())"

lemmas membership_defs [model_defs] =
  membership_default_def single_def is_joint_def quorum_def all_nodes_def all_voters_def
  joint_for_add_def joint_for_remove_def leave_joint_def

subsection \<open>Quorums overlap\<close>

text \<open>
  What an election or a commit needs of the quorum rule: two quorums share a member and a
  superset of a quorum is a quorum.
\<close>

locale quorum_system =
  fixes is_quorum :: "'a fset \<Rightarrow> bool"
  assumes quorum_overlap: "is_quorum P \<Longrightarrow> is_quorum Q \<Longrightarrow> P |\<inter>| Q \<noteq> {||}"
    and quorum_mono: "is_quorum P \<Longrightarrow> P |\<subseteq>| Q \<Longrightarrow> is_quorum Q"
begin

lemma quorum_nonempty: "is_quorum P \<Longrightarrow> P \<noteq> {||}"
  using quorum_overlap [of P P] by auto

text \<open>Two choices that were each made by a quorum of single-valued voters agree.\<close>

lemma quorum_choice_unique:
  assumes "is_quorum P" and "is_quorum Q"
    and "\<And>v. v |\<in>| P \<Longrightarrow> choice v a" and "\<And>v. v |\<in>| Q \<Longrightarrow> choice v b"
    and single: "\<And>v x y. choice v x \<Longrightarrow> choice v y \<Longrightarrow> x = y"
  shows "a = b"
proof -
  from quorum_overlap [OF assms(1,2)] obtain v where "v |\<in>| P" "v |\<in>| Q" by auto
  with assms(3,4) single show ?thesis by blast
qed

end

abbreviation votes_in :: "node_id fset \<Rightarrow> node_id fset \<Rightarrow> node_id fset" where
  "votes_in votes V \<equiv> ffilter (\<lambda>i. i |\<in>| votes) V"

definition majority_of :: "node_id fset \<Rightarrow> node_id fset \<Rightarrow> bool" where
  "majority_of V votes \<longleftrightarrow> fcard V < 2 * fcard (votes_in votes V)"

lemma quorum_majority: "k < quorum n \<longleftrightarrow> \<not> n < 2 * k"
  by (auto simp: quorum_def)

text \<open>\<open>has_quorum\<close> is a strict majority of the voters, and of the outgoing voters in a joint phase.\<close>

lemma has_quorum_iff:
  "has_quorum cfg votes \<longleftrightarrow>
     majority_of (voters cfg) votes \<and>
     (\<forall>old. voters_outgoing cfg = Some old \<longrightarrow> majority_of old votes)"
  by (auto simp: has_quorum_def Let_def majority_of_def quorum_majority
      split: option.splits if_splits)

lemma majority_overlap:
  assumes "majority_of V P" and "majority_of V Q"
  shows "P |\<inter>| Q \<noteq> {||}"
proof -
  have "votes_in P V |\<inter>| votes_in Q V \<noteq> {||}"
    using assms by (intro fset_overlap [of V]) (auto simp: majority_of_def)
  then show ?thesis by auto
qed

lemma majority_mono: "majority_of V P \<Longrightarrow> P |\<subseteq>| Q \<Longrightarrow> majority_of V Q"
proof -
  assume "majority_of V P" and "P |\<subseteq>| Q"
  then have "fcard (votes_in P V) \<le> fcard (votes_in Q V)"
    by (intro fcard_mono) auto
  with \<open>majority_of V P\<close> show ?thesis by (simp add: majority_of_def)
qed

interpretation mq: quorum_system "has_quorum cfg" for cfg
  by unfold_locales (auto simp: has_quorum_iff dest: majority_overlap intro: majority_mono)

subsection \<open>Properties\<close>

text \<open>
  C7: while a membership change is under way, a quorum of the joint configuration shares a
  member with every quorum of the configuration being left and with every quorum of the one
  being entered. No decision can be taken by one side without the other.
\<close>

theorem joint_quorum_overlaps_both:
  assumes "joint = joint_for_add cfg n is_learner \<or> joint = joint_for_remove cfg n"
    and "voters_outgoing cfg = None" and "has_quorum joint Q"
  shows "(has_quorum cfg P \<longrightarrow> Q |\<inter>| P \<noteq> {||}) \<and>
         (has_quorum (leave_joint joint) P' \<longrightarrow> Q |\<inter>| P' \<noteq> {||})"
proof -
  have out: "voters_outgoing joint = Some (voters cfg)"
    using assms(1) by (auto simp: joint_for_add_def joint_for_remove_def split: if_splits)
  then have "majority_of (voters cfg) Q" and "majority_of (voters joint) Q"
    using assms(3) by (auto simp: has_quorum_iff)
  then show ?thesis
    using majority_overlap by (auto simp: has_quorum_iff leave_joint_def)
qed

theorem joint_quorum_overlaps_both_witness:
  "let cfg = membership_default\<lparr>voters := {|1, 2, 3|}\<rparr>; joint = joint_for_add cfg 4 False
   in has_quorum joint {|1, 2, 4|} \<and> {|1, 2, 4|} |\<inter>| {|2, 3|} \<noteq> ({||} :: node_id fset)"
proof -
  let ?cfg = "membership_default\<lparr>voters := {|1, 2, 3|}\<rparr>"
  let ?joint = "joint_for_add ?cfg 4 False"
  have q: "has_quorum ?joint {|1, 2, 4|}" and p: "has_quorum ?cfg {|2, 3|}" by code_simp+
  have "{|1, 2, 4|} |\<inter>| {|2, 3|} \<noteq> ({||} :: node_id fset)"
    using joint_quorum_overlaps_both [of ?joint ?cfg 4 False "{|1, 2, 4|}" "{|2, 3|}"] q p
    by (simp add: membership_default_def)
  with q show ?thesis by (simp add: Let_def)
qed

end
