(* ===== verification/Raft_Log.thy ===== *)
theory Raft_Log
  imports Raft_Types
begin

section \<open>The in-memory Raft log\<close>

text \<open>
  \<open>cave-ha/src/raft/log.rs\<close>: a log entry and \<open>MemLog\<close>, the suffix of the log above a snapshot.
  The encoding of a membership configuration is \<open>serde_json\<close>'s and is a parameter
  (\<open>to_vec\<close>, \<open>from_slice\<close>). The invariant \<open>wf_log\<close> says that the entry at offset \<open>i\<close> has index
  \<open>first_index + i\<close>; under it the accessors are characterised by \<open>log_at\<close>, the abstract view
  of a log as a partial function from indices to entries.
\<close>

record log_entry =
  entry_index :: log_index
  entry_term :: raft_term
  entry_kind :: entry_type
  entry_data :: bytes

definition new_normal :: "log_index \<Rightarrow> raft_term \<Rightarrow> bytes \<Rightarrow> log_entry" where
  "new_normal index trm data =
     \<lparr>entry_index = index, entry_term = trm, entry_kind = Normal, entry_data = data\<rparr>"

definition new_barrier :: "log_index \<Rightarrow> raft_term \<Rightarrow> log_entry" where
  "new_barrier index trm =
     \<lparr>entry_index = index, entry_term = trm, entry_kind = Barrier, entry_data = []\<rparr>"

definition new_membership ::
  "(membership_config \<Rightarrow> string + bytes) \<Rightarrow> log_index \<Rightarrow> raft_term \<Rightarrow> membership_config \<Rightarrow>
   log_entry ha_result" where
  "new_membership to_vec index trm cfg =
     (case to_vec cfg of
        Inl e \<Rightarrow> Inl (Serialization e)
      | Inr data \<Rightarrow>
          Inr \<lparr>entry_index = index, entry_term = trm, entry_kind = MembershipChange,
               entry_data = data\<rparr>)"

definition decode_membership ::
  "(bytes \<Rightarrow> string + membership_config) \<Rightarrow> log_entry \<Rightarrow> membership_config ha_result" where
  "decode_membership from_slice self =
     (case from_slice (entry_data self) of Inl e \<Rightarrow> Inl (Serialization e) | Inr c \<Rightarrow> Inr c)"

subsection \<open>MemLog\<close>

record mem_log =
  entries :: "log_entry list"
  snapshot_index :: log_index
  snapshot_term :: raft_term

definition new_log :: mem_log where
  "new_log = \<lparr>entries = [], snapshot_index = 0, snapshot_term = 0\<rparr>"

definition last_index :: "mem_log \<Rightarrow> log_index" where
  "last_index self =
     (if entries self = [] then snapshot_index self else entry_index (last (entries self)))"

definition last_term :: "mem_log \<Rightarrow> raft_term" where
  "last_term self =
     (if entries self = [] then snapshot_term self else entry_term (last (entries self)))"

definition first_index :: "mem_log \<Rightarrow> log_index" where
  "first_index self = snapshot_index self + 1"

definition entry :: "mem_log \<Rightarrow> log_index \<Rightarrow> log_entry ha_result" where
  "entry self index =
     (if index \<le> snapshot_index self then Inl (LogCompacted index (snapshot_index self))
      else let offset = wsub index (first_index self)
           in if offset < length (entries self) then Inr (entries self ! offset)
              else Inl (Raft (''entry '' @ show_nat index @ '' not found (last='' @
                              show_nat (last_index self) @ '')'')))"

definition term_at :: "mem_log \<Rightarrow> log_index \<Rightarrow> raft_term ha_result" where
  "term_at self index =
     (if index = snapshot_index self then Inr (snapshot_term self)
      else case entry self index of Inl e \<Rightarrow> Inl e | Inr x \<Rightarrow> Inr (entry_term x))"

definition slice :: "mem_log \<Rightarrow> log_index \<Rightarrow> log_index \<Rightarrow> log_entry list ha_result" where
  "slice self lo hi =
     (if lo \<le> snapshot_index self then Inl (LogCompacted lo (snapshot_index self))
      else let start = wsub lo (first_index self);
               stop = min (wsub hi (first_index self)) (length (entries self))
           in if start > stop then Inr []
              else Inr (take (stop - start) (drop start (entries self))))"

definition append_one :: "mem_log \<Rightarrow> log_entry \<Rightarrow> mem_log" where
  "append_one self e =
     (let offset = wsub (entry_index e) (first_index self);
          kept = (if offset < length (entries self) then take offset (entries self)
                  else entries self)
      in self\<lparr>entries := kept @ [e]\<rparr>)"

fun log_append :: "mem_log \<Rightarrow> log_entry list \<Rightarrow> mem_log" where
  "log_append self [] = self"
| "log_append self (e # es) = log_append (append_one self e) es"

definition truncate_to :: "mem_log \<Rightarrow> log_index \<Rightarrow> mem_log" where
  "truncate_to self last_idx =
     (if last_idx < first_index self then self\<lparr>entries := []\<rparr>
      else let keep = wsub last_idx (first_index self) + 1
           in self\<lparr>entries := take keep (entries self)\<rparr>)"

definition compact :: "mem_log \<Rightarrow> log_index \<Rightarrow> raft_term \<Rightarrow> mem_log" where
  "compact self index trm =
     (if index \<le> snapshot_index self then self
      else let trim = (if index \<ge> first_index self then wsub index (first_index self) + 1 else 0);
               kept = (if trim \<le> length (entries self) then drop trim (entries self) else [])
           in self\<lparr>entries := kept, snapshot_index := index, snapshot_term := trm\<rparr>)"

definition log_len :: "mem_log \<Rightarrow> usize" where
  "log_len self = length (entries self)"

definition log_is_empty :: "mem_log \<Rightarrow> bool" where
  "log_is_empty self = (entries self = [])"

fun last_membership_rev ::
  "(bytes \<Rightarrow> string + membership_config) \<Rightarrow> log_entry list \<Rightarrow> membership_config option" where
  "last_membership_rev from_slice [] = None"
| "last_membership_rev from_slice (e # es) =
     (if entry_kind e = MembershipChange
      then (case decode_membership from_slice e of Inl _ \<Rightarrow> None | Inr c \<Rightarrow> Some c)
      else last_membership_rev from_slice es)"

definition last_membership ::
  "(bytes \<Rightarrow> string + membership_config) \<Rightarrow> mem_log \<Rightarrow> membership_config option" where
  "last_membership from_slice self = last_membership_rev from_slice (rev (entries self))"

subsection \<open>Well-formed logs\<close>

definition wf_log :: "mem_log \<Rightarrow> bool" where
  "wf_log l \<longleftrightarrow>
     (\<forall>i < length (entries l). entry_index (entries l ! i) = snapshot_index l + 1 + i)"

text \<open>The abstract view: the entries a log stores, by index.\<close>

definition log_at :: "mem_log \<Rightarrow> log_index \<Rightarrow> log_entry option" where
  "log_at l i =
     (if snapshot_index l < i \<and> i \<le> snapshot_index l + length (entries l)
      then Some (entries l ! (i - snapshot_index l - 1)) else None)"

text \<open>A block of entries with consecutive indices from \<open>i\<close> on: what a leader sends.\<close>

fun contiguous :: "log_index \<Rightarrow> log_entry list \<Rightarrow> bool" where
  "contiguous i [] = True"
| "contiguous i (e # es) = (entry_index e = i \<and> contiguous (Suc i) es)"

lemma contiguous_iff:
  "contiguous i es \<longleftrightarrow> (\<forall>k < length es. entry_index (es ! k) = i + k)"
proof (induction es arbitrary: i)
  case Nil
  then show ?case by simp
next
  case (Cons e es)
  show ?case by (auto simp: Cons.IH nth_Cons split: nat.splits)
qed

lemma contiguous_append:
  "contiguous i (xs @ ys) \<longleftrightarrow> contiguous i xs \<and> contiguous (i + length xs) ys"
  by (induction xs arbitrary: i) auto

lemma contiguous_take: "contiguous i xs \<Longrightarrow> contiguous i (take n xs)"
  by (simp add: contiguous_iff)

lemma contiguous_drop: "contiguous i xs \<Longrightarrow> contiguous (i + n) (drop n xs)"
  by (cases "n \<le> length xs") (simp_all add: contiguous_iff add.assoc)

lemma wf_log_contiguous: "wf_log l \<longleftrightarrow> contiguous (first_index l) (entries l)"
  by (simp add: wf_log_def contiguous_iff first_index_def)

lemma wf_new_log [simp]: "wf_log new_log"
  by (simp add: wf_log_def new_log_def)

lemma last_index_wf: "wf_log l \<Longrightarrow> last_index l = snapshot_index l + length (entries l)"
  by (auto simp: last_index_def wf_log_def last_conv_nth)

lemma log_at_index: "wf_log l \<Longrightarrow> log_at l i = Some e \<Longrightarrow> entry_index e = i"
  by (auto simp: log_at_def wf_log_def split: if_splits)

lemma log_at_Some_bounds:
  "log_at l i = Some e \<Longrightarrow> snapshot_index l < i \<and> i \<le> snapshot_index l + length (entries l)"
  by (auto simp: log_at_def split: if_splits)

subsection \<open>The accessors read the abstract view\<close>

lemma entry_Inr_iff: "entry l i = Inr e \<longleftrightarrow> log_at l i = Some e"
  by (auto simp: entry_def log_at_def first_index_def Let_def)

lemma entry_Inl_iff: "(\<exists>x. entry l i = Inl x) \<longleftrightarrow> log_at l i = None"
  by (auto simp: entry_def log_at_def first_index_def Let_def)

lemma term_at_Inr_iff:
  "term_at l i = Inr t \<longleftrightarrow>
     (i = snapshot_index l \<and> t = snapshot_term l) \<or> (\<exists>e. log_at l i = Some e \<and> entry_term e = t)"
proof (cases "i = snapshot_index l")
  case True
  then show ?thesis by (auto simp: term_at_def log_at_def)
next
  case False
  then show ?thesis
    by (cases "entry l i") (auto simp: term_at_def entry_Inr_iff [symmetric])
qed

lemma slice_contents:
  assumes "wf_log l" and "snapshot_index l < lo" and "lo \<le> hi"
  shows "\<exists>es. slice l lo hi = Inr es \<and> contiguous lo es \<and>
              (\<forall>i. lo \<le> i \<and> i < hi \<and> i \<le> last_index l \<longrightarrow> log_at l i = Some (es ! (i - lo))) \<and>
              length es = min hi (last_index l + 1) - lo"
proof -
  let ?start = "lo - first_index l"
  let ?stop = "min (hi - first_index l) (length (entries l))"
  let ?es = "take (?stop - ?start) (drop ?start (entries l))"
  have lo: "first_index l \<le> lo" "first_index l \<le> hi"
    using assms by (auto simp: first_index_def)
  have last: "last_index l = snapshot_index l + length (entries l)"
    using assms(1) by (rule last_index_wf)
  have len: "length ?es = min hi (last_index l + 1) - lo"
    using lo by (auto simp: last first_index_def min_def)
  have con: "contiguous lo ?es"
    using assms(1) lo contiguous_drop [of "first_index l" "entries l" ?start]
    by (intro contiguous_take) (simp add: wf_log_contiguous)
  have at: "log_at l i = Some (?es ! (i - lo))"
    if "lo \<le> i" "i < hi" "i \<le> last_index l" for i
    using that assms(2) by (auto simp: log_at_def last first_index_def)
  show ?thesis
  proof (cases "?start > ?stop")
    case True
    with lo len have "slice l lo hi = Inr []" and "?es = []"
      using assms(2) by (auto simp: slice_def Let_def)
    then show ?thesis using len con at by (intro exI [of _ "[]"]) (auto simp: last)
  next
    case False
    then have "slice l lo hi = Inr ?es"
      using assms(2) lo by (simp add: slice_def Let_def)
    then show ?thesis using len con at by blast
  qed
qed

subsection \<open>The mutators act on the abstract view\<close>

lemma append_one_snapshot [simp]:
  "snapshot_index (append_one l e) = snapshot_index l"
  "snapshot_term (append_one l e) = snapshot_term l"
  by (simp_all add: append_one_def Let_def)

lemma log_append_snapshot [simp]:
  "snapshot_index (log_append l es) = snapshot_index l"
  "snapshot_term (log_append l es) = snapshot_term l"
  by (induction es arbitrary: l) auto

lemma append_one_entries:
  assumes "first_index l \<le> entry_index e" "entry_index e \<le> first_index l + length (entries l)"
  shows "entries (append_one l e) = take (entry_index e - first_index l) (entries l) @ [e]"
  using assms by (auto simp: append_one_def Let_def)

text \<open>
  Appending a consecutive block from index \<open>i\<close> on: everything the log stored from \<open>i\<close> on is
  dropped, whether or not it conflicts with the block.
\<close>

lemma log_append_entries:
  assumes "contiguous i es" and "es \<noteq> []"
    and "first_index l \<le> i" and "i \<le> first_index l + length (entries l)"
  shows "entries (log_append l es) = take (i - first_index l) (entries l) @ es"
  using assms
proof (induction es arbitrary: i l)
  case Nil
  then show ?case by simp
next
  case (Cons e es)
  let ?l = "append_one l e"
  have l': "entries ?l = take (i - first_index l) (entries l) @ [e]"
    using Cons.prems by (simp add: append_one_entries)
  have first: "first_index ?l = first_index l" by (simp add: first_index_def)
  have len: "length (entries ?l) = Suc (i - first_index l)"
    using Cons.prems by (simp add: l')
  show ?case
  proof (cases "es = []")
    case True
    then show ?thesis by (simp add: l')
  next
    case False
    have "entries (log_append ?l es) = take (Suc i - first_index ?l) (entries ?l) @ es"
      using Cons.prems False len by (intro Cons.IH) (auto simp: first)
    also have "take (Suc i - first_index ?l) (entries ?l) = entries ?l"
      using Cons.prems len by (simp add: first Suc_diff_le)
    finally show ?thesis by (simp add: l')
  qed
qed

lemma wf_log_append:
  assumes "wf_log l" and "contiguous i es"
    and "first_index l \<le> i" and "i \<le> last_index l + 1"
  shows "wf_log (log_append l es)"
proof (cases "es = []")
  case True
  with assms(1) show ?thesis by simp
next
  case False
  have le: "i \<le> first_index l + length (entries l)"
    using assms(1,4) by (simp add: last_index_wf first_index_def)
  have "contiguous (first_index l) (take (i - first_index l) (entries l) @ es)"
    using assms le by (simp add: contiguous_append wf_log_contiguous contiguous_take min_absorb2)
  then show ?thesis
    using log_append_entries [OF assms(2) False assms(3) le]
    by (simp add: wf_log_contiguous first_index_def)
qed

lemma log_at_append:
  assumes "wf_log l" and "contiguous i es" and "es \<noteq> []"
    and "first_index l \<le> i" and "i \<le> last_index l + 1"
  shows "log_at (log_append l es) j =
           (if j < i then log_at l j
            else if j < i + length es then Some (es ! (j - i)) else None)"
proof -
  have le: "i \<le> first_index l + length (entries l)"
    using assms(1,5) by (simp add: last_index_wf first_index_def)
  show ?thesis
    using log_append_entries [OF assms(2,3,4) le] assms(4) le
    by (auto simp: log_at_def first_index_def nth_append)
qed

lemma last_index_append:
  assumes "wf_log l" and "contiguous i es" and "es \<noteq> []"
    and "first_index l \<le> i" and "i \<le> last_index l + 1"
  shows "last_index (log_append l es) = i + length es - 1"
proof -
  have "i \<le> first_index l + length (entries l)"
    using assms(1,5) by (simp add: last_index_wf first_index_def)
  with assms show ?thesis
    using wf_log_append [OF assms(1,2,4,5)] log_append_entries [OF assms(2,3,4)]
    by (simp add: last_index_wf first_index_def)
qed

lemma wf_truncate_to: "wf_log l \<Longrightarrow> wf_log (truncate_to l k)"
  by (simp add: wf_log_def truncate_to_def Let_def)

lemma log_at_truncate_to: "log_at (truncate_to l k) j = (if j \<le> k then log_at l j else None)"
  by (auto simp: log_at_def truncate_to_def Let_def first_index_def)

lemma wf_compact: "wf_log l \<Longrightarrow> wf_log (compact l k t)"
  by (auto simp: wf_log_def compact_def Let_def first_index_def)

lemma compact_snapshot_index: "snapshot_index (compact l k t) = max (snapshot_index l) k"
  by (auto simp: compact_def Let_def)

lemma log_at_compact:
  assumes "snapshot_index l < k"
  shows "log_at (compact l k t) j = (if k < j then log_at l j else None)"
proof -
  have "Suc (j - Suc (Suc (snapshot_index l))) = j - Suc (snapshot_index l)" if "k < j"
    using that assms by simp
  then show ?thesis
    using assms by (auto simp: log_at_def compact_def Let_def first_index_def)
qed

lemma log_at_compact_old: "k \<le> snapshot_index l \<Longrightarrow> compact l k t = l"
  by (simp add: compact_def)

subsection \<open>Properties\<close>

lemma wf_two_entries: "wf_log (log_append new_log [new_normal 1 1 ''a'', new_normal 2 1 ''b''])"
proof (rule wf_log_append)
  show "contiguous 1 [new_normal 1 1 ''a'', new_normal 2 1 ''b'']" by (simp add: new_normal_def)
qed (simp, simp_all add: first_index_def new_log_def)

text \<open>
  An entry that neither follows the log nor has its place inside is pushed all the same: below the
  first index the offset wraps around, so nothing is truncated.
\<close>

lemma append_outside:
  assumes "wf_log l" and "length (entries l) + first_index l \<le> 2 ^ 64"
    and "\<not> (first_index l \<le> entry_index e \<and> entry_index e \<le> last_index l + 1)"
  shows "entries (log_append l [e]) = entries l @ [e] \<and> \<not> wf_log (log_append l [e])"
proof -
  have "\<not> wsub (entry_index e) (first_index l) < length (entries l)"
    using assms by (auto simp: wsub_def last_index_wf first_index_def)
  then have pushed: "log_append l [e] = l\<lparr>entries := entries l @ [e]\<rparr>"
    by (simp add: append_one_def Let_def)
  have "entry_index e \<noteq> snapshot_index l + 1 + length (entries l)"
    using assms(1,3) by (auto simp: last_index_wf first_index_def)
  with pushed show ?thesis by (auto simp: wf_log_def)
qed

text \<open>
  C9: \<open>append\<close> of a block of consecutive entries that starts inside the log or right behind it
  keeps the log well-formed and leaves exactly the old entries below the block followed by the
  block; an accessor at any index reads that view. An entry anywhere else, in the compacted part
  or behind a gap, is pushed behind the last one and leaves a log that is not well-formed.
\<close>

theorem append_spec:
  assumes "wf_log l" and "contiguous i es" and "es \<noteq> []"
    and "first_index l \<le> i" and "i \<le> last_index l + 1"
  shows "wf_log (log_append l es) \<and> last_index (log_append l es) = i + length es - 1 \<and>
         last_term (log_append l es) = entry_term (last es) \<and>
         (\<forall>j. entry (log_append l es) j \<in>
                (if j < i \<and> log_at l j \<noteq> None then {Inr (the (log_at l j))}
                 else if i \<le> j \<and> j < i + length es then {Inr (es ! (j - i))}
                 else range Inl)) \<and>
         (\<forall>e. length (entries l) + first_index l \<le> 2 ^ 64 \<and>
              \<not> (first_index l \<le> entry_index e \<and> entry_index e \<le> last_index l + 1) \<longrightarrow>
              entries (log_append l [e]) = entries l @ [e] \<and> \<not> wf_log (log_append l [e]))"
proof -
  have le: "i \<le> first_index l + length (entries l)"
    using assms(1,5) by (simp add: last_index_wf first_index_def)
  have "entry (log_append l es) j \<in>
          (if j < i \<and> log_at l j \<noteq> None then {Inr (the (log_at l j))}
           else if i \<le> j \<and> j < i + length es then {Inr (es ! (j - i))} else range Inl)" for j
  proof (cases "log_at (log_append l es) j")
    case None
    then show ?thesis
      using entry_Inl_iff [of "log_append l es" j] log_at_append [OF assms, of j]
      by (auto split: if_splits)
  next
    case (Some e)
    then show ?thesis
      using entry_Inr_iff [of "log_append l es" j e] log_at_append [OF assms, of j]
      by (auto split: if_splits)
  qed
  then show ?thesis
    using assms wf_log_append [OF assms(1,2,4,5)] last_index_append [OF assms]
      log_append_entries [OF assms(2,3,4) le] append_outside [OF assms(1)]
    by (simp add: last_term_def)
qed

theorem append_spec_witness:
  "let l = log_append new_log [new_normal 1 1 ''a'', new_normal 2 1 ''b'']
   in wf_log l \<and> wf_log (log_append l [new_normal 2 3 ''c'', new_normal 3 3 ''d'']) \<and>
      last_index (log_append l [new_normal 2 3 ''c'', new_normal 3 3 ''d'']) = 3"
proof -
  let ?l = "log_append new_log [new_normal 1 1 ''a'', new_normal 2 1 ''b'']"
  have wf: "wf_log ?l" by (rule wf_two_entries)
  have "last_index ?l = 2" and "first_index ?l = 1" by code_simp+
  then show ?thesis
    using append_spec [OF wf, of 2 "[new_normal 2 3 ''c'', new_normal 3 3 ''d'']"] wf
    by (simp add: new_normal_def)
qed

text \<open>
  \<open>compact\<close> keeps a log well-formed, moves the snapshot boundary to the compacted index
  (never back), records the given term there, and drops exactly the entries up to that index;
  reading a dropped index reports it as compacted.
\<close>

lemma compact_spec:
  assumes "wf_log l" and "snapshot_index l < k"
  shows "wf_log (compact l k t) \<and> first_index (compact l k t) = k + 1 \<and>
         term_at (compact l k t) k = Inr t \<and>
         (\<forall>j > k. entry (compact l k t) j = Inr e \<longleftrightarrow> entry l j = Inr e) \<and>
         (\<forall>j \<le> k. entry (compact l k t) j = Inl (LogCompacted j k))"
  using assms wf_compact [OF assms(1)] compact_snapshot_index [of l k t]
  by (auto simp: first_index_def entry_Inr_iff log_at_compact term_at_Inr_iff max_absorb2)
    (auto simp: entry_def compact_def Let_def term_at_def)

lemma compact_spec_witness:
  "let l = log_append new_log [new_normal 1 1 ''a'', new_normal 2 1 ''b'']
   in entry (compact l 1 1) 1 = Inl (LogCompacted 1 1) \<and>
      entry (compact l 1 1) 2 = Inr (new_normal 2 1 ''b'')"
proof -
  let ?l = "log_append new_log [new_normal 1 1 ''a'', new_normal 2 1 ''b'']"
  have wf: "wf_log ?l" by (rule wf_two_entries)
  have "snapshot_index ?l < 1" and "entry ?l 2 = Inr (new_normal 2 1 ''b'')" by code_simp+
  then show ?thesis
    using compact_spec [OF wf, of 1 1 "new_normal 2 1 ''b''"] by (simp add: Let_def)
qed

text \<open>
  \<open>slice\<close> of a range above the snapshot returns the entries of the range that the log
  stores, in index order and without gaps, cut at the end of the log.
\<close>

lemma slice_spec:
  assumes "wf_log l" and "snapshot_index l < lo" and "lo \<le> hi"
  shows "\<exists>es. slice l lo hi = Inr es \<and> contiguous lo es \<and>
              length es = min hi (last_index l + 1) - lo \<and>
              (\<forall>i. lo \<le> i \<and> i < hi \<and> i \<le> last_index l \<longrightarrow> entry l i = Inr (es ! (i - lo)))"
  using slice_contents [OF assms] by (auto simp: entry_Inr_iff)

lemma slice_spec_witness:
  "let l = log_append new_log [new_normal 1 1 ''a'', new_normal 2 1 ''b'']
   in \<exists>es. slice l 2 9 = Inr es \<and> length es = 1"
proof -
  let ?l = "log_append new_log [new_normal 1 1 ''a'', new_normal 2 1 ''b'']"
  have wf: "wf_log ?l" by (rule wf_two_entries)
  have "snapshot_index ?l < 2" and "last_index ?l = 2" by code_simp+
  then show ?thesis
    using slice_spec [OF wf, of 2 9] by (auto simp: Let_def)
qed

end
