(* ===== verification/Raft_Messages.thy ===== *)
theory Raft_Messages
  imports Raft_Log
begin

section \<open>Raft messages\<close>

text \<open>\<open>cave-ha/src/raft/messages.rs\<close>: the nine messages nodes exchange and their term.\<close>

record request_vote =
  rv_term :: raft_term
  rv_candidate_id :: node_id
  rv_last_log_index :: log_index
  rv_last_log_term :: raft_term
  rv_pre_vote :: bool

record request_vote_reply =
  rvr_term :: raft_term
  rvr_vote_granted :: bool
  rvr_pre_vote :: bool

record append_entries =
  ae_term :: raft_term
  ae_leader_id :: node_id
  ae_prev_log_index :: log_index
  ae_prev_log_term :: raft_term
  ae_entries :: "log_entry list"
  ae_leader_commit :: log_index
  ae_seq :: u64

record append_entries_reply =
  aer_term :: raft_term
  aer_success :: bool
  aer_conflict_index :: log_index
  aer_conflict_term :: "raft_term option"
  aer_last_log_index :: log_index
  aer_seq :: u64

record install_snapshot =
  is_term :: raft_term
  is_leader_id :: node_id
  is_meta :: snapshot_meta
  is_offset :: u64
  is_data :: bytes
  is_done :: bool

record install_snapshot_reply =
  isr_term :: raft_term
  isr_success :: bool
  isr_bytes_stored :: u64

record timeout_now =
  tn_term :: raft_term
  tn_from :: node_id

record read_index_request =
  rir_term :: raft_term
  rir_from :: node_id
  rir_id :: u64

record read_index_reply =
  rip_term :: raft_term
  rip_id :: u64
  rip_read_index :: log_index
  rip_success :: bool

datatype raft_message =
    RequestVote request_vote
  | RequestVoteReply request_vote_reply
  | AppendEntries append_entries
  | AppendEntriesReply append_entries_reply
  | InstallSnapshot install_snapshot
  | InstallSnapshotReply install_snapshot_reply
  | TimeoutNow timeout_now
  | ReadIndexRequest read_index_request
  | ReadIndexReply read_index_reply

fun msg_term :: "raft_message \<Rightarrow> raft_term" where
  "msg_term (RequestVote m) = rv_term m"
| "msg_term (RequestVoteReply m) = rvr_term m"
| "msg_term (AppendEntries m) = ae_term m"
| "msg_term (AppendEntriesReply m) = aer_term m"
| "msg_term (InstallSnapshot m) = is_term m"
| "msg_term (InstallSnapshotReply m) = isr_term m"
| "msg_term (TimeoutNow m) = tn_term m"
| "msg_term (ReadIndexRequest m) = rir_term m"
| "msg_term (ReadIndexReply m) = rip_term m"

text \<open>A message with its sender and its addressee.\<close>

record envelope =
  env_from :: node_id
  env_to :: node_id
  env_msg :: raft_message

end
