(* ===== verification/Raft_Snapshot.thy ===== *)
theory Raft_Snapshot
  imports Raft_Types
begin

section \<open>Snapshot transfer\<close>

text \<open>
  \<open>cave-ha/src/raft/snapshot.rs\<close>: a snapshot is cut into chunks for streaming
  (\<open>Snapshot::chunks\<close>), reassembled by \<open>SnapshotReceiver::feed\<close>, and tracked on the leader side
  by \<open>SnapshotTransfer\<close>. The chunking loop does not advance when the configured chunk size is
  0, so it is a partial function: \<open>None\<close> is a loop that never returns.
\<close>

record snapshot =
  snap_meta :: snapshot_meta
  snap_data :: bytes

definition new_snapshot ::
  "log_index \<Rightarrow> raft_term \<Rightarrow> membership_config \<Rightarrow> bytes \<Rightarrow> snapshot" where
  "new_snapshot index trm membership data =
     \<lparr>snap_meta = \<lparr>meta_index = index, meta_term = trm, meta_membership = membership\<rparr>,
      snap_data = data\<rparr>"

record snapshot_chunk =
  chunk_meta :: snapshot_meta
  chunk_offset :: u64
  chunk_data :: bytes
  chunk_done :: bool

definition mk_chunk :: "snapshot \<Rightarrow> usize \<Rightarrow> usize \<Rightarrow> snapshot_chunk" where
  "mk_chunk self offset stop =
     \<lparr>chunk_meta = snap_meta self, chunk_offset = offset,
      chunk_data = take (stop - offset) (drop offset (snap_data self)),
      chunk_done = (stop = length (snap_data self))\<rparr>"

partial_function (option) chunks_loop ::
  "snapshot \<Rightarrow> usize \<Rightarrow> usize \<Rightarrow> snapshot_chunk list \<Rightarrow> snapshot_chunk list option" where
  "chunks_loop self chunk_size offset acc =
     (if offset < length (snap_data self)
      then let stop = min (offset + chunk_size) (length (snap_data self))
           in chunks_loop self chunk_size stop (acc @ [mk_chunk self offset stop])
      else Some acc)"

declare chunks_loop.simps [code]

definition chunks :: "snapshot \<Rightarrow> usize \<Rightarrow> snapshot_chunk list option" where
  "chunks self chunk_size =
     (if snap_data self = []
      then Some [\<lparr>chunk_meta = snap_meta self, chunk_offset = 0, chunk_data = [],
                  chunk_done = True\<rparr>]
      else chunks_loop self chunk_size 0 [])"

subsection \<open>The receiver\<close>

record snapshot_receiver =
  recv_meta :: "snapshot_meta option"
  recv_buffer :: bytes
  recv_next_offset :: u64

definition new_receiver :: snapshot_receiver where
  "new_receiver = \<lparr>recv_meta = None, recv_buffer = [], recv_next_offset = 0\<rparr>"

definition feed ::
  "snapshot_receiver \<Rightarrow> snapshot_chunk \<Rightarrow> snapshot_receiver \<times> snapshot option" where
  "feed self chunk =
     (let self = (if recv_meta self = None
                  then self\<lparr>recv_meta := Some (chunk_meta chunk)\<rparr> else self);
          self = (if chunk_offset chunk = 0
                  then self\<lparr>recv_buffer := [], recv_next_offset := 0,
                            recv_meta := Some (chunk_meta chunk)\<rparr> else self)
      in if chunk_offset chunk \<noteq> recv_next_offset self
         then (self\<lparr>recv_buffer := [], recv_next_offset := 0\<rparr>, None)
         else let self = self\<lparr>recv_next_offset :=
                                recv_next_offset self + length (chunk_data chunk),
                              recv_buffer := recv_buffer self @ chunk_data chunk\<rparr>
              in if chunk_done chunk
                 then (self\<lparr>recv_meta := None, recv_buffer := [], recv_next_offset := 0\<rparr>,
                       Some \<lparr>snap_meta = (case recv_meta self of
                                            Some m \<Rightarrow> m | None \<Rightarrow> snapshot_meta_default),
                             snap_data = recv_buffer self\<rparr>)
                 else (self, None))"

fun feed_all ::
  "snapshot_receiver \<Rightarrow> snapshot_chunk list \<Rightarrow> snapshot_receiver \<times> snapshot option list" where
  "feed_all r [] = (r, [])"
| "feed_all r (c # cs) =
     (let (r', out) = feed r c; (r'', outs) = feed_all r' cs in (r'', out # outs))"

subsection \<open>The leader-side transfer cursor\<close>

record snapshot_transfer =
  xfer_to :: node_id
  xfer_snapshot :: snapshot
  xfer_next_chunk :: usize
  xfer_chunk_size :: usize

definition new_transfer :: "node_id \<Rightarrow> snapshot \<Rightarrow> usize \<Rightarrow> snapshot_transfer" where
  "new_transfer to snap chunk_size =
     \<lparr>xfer_to = to, xfer_snapshot = snap, xfer_next_chunk = 0, xfer_chunk_size = chunk_size\<rparr>"

definition transfer_next ::
  "snapshot_transfer \<Rightarrow> (snapshot_chunk option \<times> snapshot_transfer) option" where
  "transfer_next self =
     (case chunks (xfer_snapshot self) (xfer_chunk_size self) of
        None \<Rightarrow> None
      | Some cs \<Rightarrow>
          Some (if xfer_next_chunk self \<ge> length cs then (None, self)
                else (Some (cs ! xfer_next_chunk self),
                      self\<lparr>xfer_next_chunk := xfer_next_chunk self + 1\<rparr>)))"

text \<open>\<open>is_done\<close> divides by the chunk size: with chunk size 0 it panics, the value \<open>None\<close>.\<close>

definition transfer_is_done :: "snapshot_transfer \<Rightarrow> bool option" where
  "transfer_is_done self =
     (if snap_data (xfer_snapshot self) = [] then Some (xfer_next_chunk self \<ge> 1)
      else if xfer_chunk_size self = 0 then None
      else Some (xfer_next_chunk self \<ge>
                   (length (snap_data (xfer_snapshot self)) + xfer_chunk_size self - 1)
                     div xfer_chunk_size self))"

subsection \<open>Chunking terminates and covers the data\<close>

text \<open>The chunks from an offset on, as a recursion on what is left to send.\<close>

function chunks_from :: "snapshot \<Rightarrow> usize \<Rightarrow> usize \<Rightarrow> snapshot_chunk list" where
  "chunks_from s cs offset =
     (if cs = 0 \<or> length (snap_data s) \<le> offset then []
      else let stop = min (offset + cs) (length (snap_data s))
           in mk_chunk s offset stop # chunks_from s cs stop)"
  by pat_completeness auto
termination
  by (relation "measure (\<lambda>(s, cs, offset). length (snap_data s) - offset)") auto

declare chunks_from.simps [simp del]

lemma chunks_loop_eq:
  assumes "0 < cs"
  shows "chunks_loop s cs offset acc = Some (acc @ chunks_from s cs offset)"
  using assms
proof (induction s cs offset arbitrary: acc rule: chunks_from.induct)
  case (1 s cs offset)
  show ?case
  proof (cases "offset < length (snap_data s)")
    case True
    then show ?thesis
      using 1 by (simp add: chunks_loop.simps [of s cs offset] chunks_from.simps [of s cs offset]
          Let_def)
  next
    case False
    then show ?thesis
      by (simp add: chunks_loop.simps [of s cs offset] chunks_from.simps [of s cs offset])
  qed
qed

lemma chunks_Some:
  "0 < cs \<Longrightarrow> snap_data s \<noteq> [] \<Longrightarrow> chunks s cs = Some (chunks_from s cs 0)"
  by (simp add: chunks_def chunks_loop_eq)

text \<open>Feeding the chunks from an offset on to a receiver that holds the data before it.\<close>

definition receiver_at :: "snapshot \<Rightarrow> usize \<Rightarrow> snapshot_receiver" where
  "receiver_at s offset =
     \<lparr>recv_meta = Some (snap_meta s), recv_buffer = take offset (snap_data s),
      recv_next_offset = offset\<rparr>"

lemma feed_mk_chunk:
  assumes "offset \<le> stop" "stop \<le> length (snap_data s)"
  shows "feed (receiver_at s offset) (mk_chunk s offset stop) =
           (if stop = length (snap_data s) then (new_receiver, Some s)
            else (receiver_at s stop, None))"
proof -
  have "take offset (snap_data s) @ take (stop - offset) (drop offset (snap_data s)) =
          take stop (snap_data s)"
    using assms by (metis le_add_diff_inverse take_add)
  with assms show ?thesis
    by (auto simp: feed_def receiver_at_def mk_chunk_def new_receiver_def Let_def)
qed

text \<open>The first chunk puts any receiver, whatever it holds, where a fresh one would be.\<close>

lemma feed_first: "feed r (mk_chunk s 0 stop) = feed (receiver_at s 0) (mk_chunk s 0 stop)"
  by (simp add: feed_def receiver_at_def mk_chunk_def Let_def)

lemma feed_all_from:
  assumes "0 < cs" and "offset < length (snap_data s)"
  shows "feed_all (receiver_at s offset) (chunks_from s cs offset) =
           (new_receiver, replicate (length (chunks_from s cs offset) - 1) None @ [Some s])"
  using assms
proof (induction s cs offset rule: chunks_from.induct)
  case (1 s cs offset)
  define stop where "stop = min (offset + cs) (length (snap_data s))"
  have unfold: "chunks_from s cs offset = mk_chunk s offset stop # chunks_from s cs stop"
    using 1(2,3) by (simp add: chunks_from.simps [of s cs offset] Let_def stop_def)
  have step: "feed (receiver_at s offset) (mk_chunk s offset stop) =
          (if stop = length (snap_data s) then (new_receiver, Some s)
           else (receiver_at s stop, None))"
    using 1(3) by (intro feed_mk_chunk) (auto simp: stop_def)
  show ?case
  proof (cases "stop = length (snap_data s)")
    case True
    then have "chunks_from s cs stop = []"
      by (subst chunks_from.simps) simp
    with True unfold step show ?thesis by simp
  next
    case False
    then have lt: "stop < length (snap_data s)" by (simp add: stop_def)
    have IH: "feed_all (receiver_at s stop) (chunks_from s cs stop) =
            (new_receiver, replicate (length (chunks_from s cs stop) - 1) None @ [Some s])"
      using 1(1) [of stop] 1(2,3) lt by (simp add: stop_def)
    obtain n where "length (chunks_from s cs stop) = Suc n"
      using 1(2) lt by (cases "chunks_from s cs stop")
        (simp_all add: chunks_from.simps [of s cs stop] Let_def)
    with False unfold step IH show ?thesis by simp
  qed
qed

lemma length_chunks_from:
  assumes "0 < cs"
  shows "length (chunks_from s cs offset) = (length (snap_data s) - offset + cs - 1) div cs"
  using assms
proof (induction s cs offset rule: chunks_from.induct)
  case (1 s cs offset)
  show ?case
  proof (cases "offset < length (snap_data s)")
    case True
    let ?n = "length (snap_data s)"
    let ?stop = "min (offset + cs) ?n"
    have "length (chunks_from s cs offset) = Suc ((?n - ?stop + cs - 1) div cs)"
      using 1 True by (simp add: chunks_from.simps [of s cs offset] Let_def)
    also have "\<dots> = (?n - offset + cs - 1) div cs"
    proof (cases "offset + cs \<le> ?n")
      case le: True
      then have "?n - offset + cs - 1 = (?n - ?stop + cs - 1) + cs" using 1(2) by simp
      then have "(?n - offset + cs - 1) div cs = (?n - ?stop + cs - 1 + cs) div cs" by (rule arg_cong)
      also have "\<dots> = Suc ((?n - ?stop + cs - 1) div cs)" using 1(2) by (subst div_add_self2) auto
      finally show ?thesis by simp
    next
      case gt: False
      then have "(?n - offset + cs - 1) div cs = Suc 0"
        using True 1(2) by (intro div_nat_eqI) auto
      then show ?thesis using gt 1(2) by simp
    qed
    finally show ?thesis .
  next
    case False
    then show ?thesis using 1(2) by (simp add: chunks_from.simps [of s cs offset])
  qed
qed

lemma chunks_loop_stuck:
  assumes "offset < length (snap_data s)"
  shows "chunks_loop s 0 offset acc = None"
proof -
  have "offset < length (snap_data s) \<longrightarrow> cs = 0 \<longrightarrow> False"
    if "chunks_loop s cs offset acc = Some r" for cs acc r
    by (rule chunks_loop.raw_induct [OF _ that]) (fastforce simp: Let_def split: if_splits)
  with assms show ?thesis by (cases "chunks_loop s 0 offset acc") auto
qed

subsection \<open>Properties\<close>

text \<open>
  C29: streaming a snapshot is lossless. For every positive chunk size \<open>chunks\<close> returns, the
  receiver fed the chunks in order yields nothing before the last one and then exactly the
  original snapshot, and is left empty. This holds whatever an aborted earlier transfer left
  in the receiver.
\<close>

theorem chunks_feed_roundtrip:
  assumes "0 < chunk_size"
  shows "\<exists>cs. chunks s chunk_size = Some cs \<and>
              feed_all r cs = (new_receiver, replicate (length cs - 1) None @ [Some s])"
proof (cases "snap_data s = []")
  case True
  let ?c = "\<lparr>chunk_meta = snap_meta s, chunk_offset = 0, chunk_data = [], chunk_done = True\<rparr>"
  have "chunks s chunk_size = Some [?c]" using True by (simp add: chunks_def)
  moreover have "feed r ?c = (new_receiver, Some s)"
    using True by (simp add: feed_def new_receiver_def Let_def)
  ultimately show ?thesis by simp
next
  case False
  define stop where "stop = min chunk_size (length (snap_data s))"
  have un: "chunks_from s chunk_size 0 = mk_chunk s 0 stop # chunks_from s chunk_size stop"
    using assms False by (simp add: chunks_from.simps [of s chunk_size 0] Let_def stop_def)
  have "feed_all r (chunks_from s chunk_size 0) =
          feed_all (receiver_at s 0) (chunks_from s chunk_size 0)"
    unfolding un by (simp add: feed_first [of r])
  then show ?thesis
    using feed_all_from [OF assms, of 0 s] chunks_Some [OF assms False] False by simp
qed

theorem chunks_feed_roundtrip_witness:
  "let s = new_snapshot 7 2 membership_default ''hello'';
       r = new_receiver\<lparr>recv_buffer := ''stale'', recv_next_offset := 5\<rparr>
   in 0 < (2 :: usize) \<and>
      (\<exists>cs. chunks s 2 = Some cs \<and> snd (feed_all r cs) = replicate (length cs - 1) None @ [Some s])"
  using chunks_feed_roundtrip [of 2 "new_snapshot 7 2 membership_default ''hello''"
      "new_receiver\<lparr>recv_buffer := ''stale'', recv_next_offset := 5\<rparr>"]
  by (auto simp: Let_def)

text \<open>
  C40: \<open>chunks\<close> returns if and only if the chunk size is positive or there is nothing to send.
  A configured chunk size of 0 makes the sending loop run forever on a non-empty snapshot.
\<close>

theorem chunks_returns_iff: "(\<exists>cs. chunks s chunk_size = Some cs) = (0 < chunk_size \<or> snap_data s = [])"
  by (cases "snap_data s = []"; cases "chunk_size = 0")
    (auto simp: chunks_Some, auto simp: chunks_def chunks_loop_stuck)

text \<open>
  On the sending side \<open>is_done\<close> and \<open>next\<close> agree: for a positive chunk size, \<open>is_done\<close> says
  true exactly when \<open>next\<close> has no chunk left to hand out.
\<close>

lemma transfer_done_iff_no_next:
  assumes "0 < xfer_chunk_size t"
  shows "\<exists>c t'. transfer_next t = Some (c, t') \<and> transfer_is_done t = Some (c = None)"
proof (cases "snap_data (xfer_snapshot t) = []")
  case True
  then show ?thesis by (auto simp: transfer_next_def transfer_is_done_def chunks_def)
next
  case False
  then show ?thesis
    using assms chunks_Some [OF assms False] length_chunks_from [OF assms, of "xfer_snapshot t" 0]
    by (auto simp: transfer_next_def transfer_is_done_def)
qed

lemma transfer_done_iff_no_next_witness:
  "let t = (new_transfer 2 (new_snapshot 7 2 membership_default ''hello'') 2)
             \<lparr>xfer_next_chunk := 3\<rparr>
   in 0 < xfer_chunk_size t \<and> transfer_is_done t = Some True \<and>
      (\<exists>t'. transfer_next t = Some (None, t'))"
proof -
  let ?t = "(new_transfer 2 (new_snapshot 7 2 membership_default ''hello'') 2)
             \<lparr>xfer_next_chunk := 3\<rparr>"
  have "0 < xfer_chunk_size ?t" and "transfer_is_done ?t = Some True" by code_simp+
  then show ?thesis using transfer_done_iff_no_next [of ?t] by (auto simp: Let_def)
qed

end
