(* ===== verification/Raft_Read_Only.thy ===== *)
theory Raft_Read_Only
  imports Raft_Types
begin

section \<open>Read-only requests and the leader lease\<close>

text \<open>
  \<open>cave-ha/src/raft/read_only.rs\<close>. A client's response channel is named by a request number
  (\<open>rid\<close>); an \<open>Instant\<close> is a number of milliseconds, and \<open>elapsed\<close> saturates at zero as
  \<open>Instant::elapsed\<close> does.
\<close>

type_synonym rid = nat
type_synonym instant = nat

datatype read_mode = ReadIndex | LeaseRead

record read_request =
  rr_id :: u64
  rr_index :: log_index
  rr_acks :: "node_id fset"
  rr_resp :: rid

record read_only_queue =
  pending :: "read_request list"
  next_id :: u64
  mode :: read_mode

definition new_queue :: "read_mode \<Rightarrow> read_only_queue" where
  "new_queue m = \<lparr>pending = [], next_id = 1, mode = m\<rparr>"

definition add_read :: "read_only_queue \<Rightarrow> log_index \<Rightarrow> rid \<Rightarrow> read_only_queue \<times> u64" where
  "add_read self index resp =
     (let i = next_id self
      in (self\<lparr>next_id := next_id self + 1,
               pending := pending self @
                 [\<lparr>rr_id = i, rr_index = index, rr_acks = {||}, rr_resp = resp\<rparr>]\<rparr>, i))"

text \<open>The scan of \<open>drain_ready\<close>: \<open>Vec::remove\<close> at the cursor, or step the cursor.\<close>

function drain_loop ::
  "usize \<Rightarrow> nat \<Rightarrow> read_request list \<Rightarrow> read_request list \<Rightarrow>
   read_request list \<times> read_request list" where
  "drain_loop quor i pend ready =
     (if i < length pend
      then if fcard (rr_acks (pend ! i)) \<ge> quor
           then drain_loop quor i (take i pend @ drop (Suc i) pend) (ready @ [pend ! i])
           else drain_loop quor (Suc i) pend ready
      else (pend, ready))"
  by pat_completeness auto
termination
  by (relation "measure (\<lambda>(q, i, pend, ready). length pend - i)") auto

declare drain_loop.simps [simp del]

definition drain_ready ::
  "read_only_queue \<Rightarrow> usize \<Rightarrow> read_only_queue \<times> read_request list" where
  "drain_ready self quor =
     (let (pend, ready) = drain_loop quor 0 (pending self) []
      in (self\<lparr>pending := pend\<rparr>, ready))"

definition ack :: "read_only_queue \<Rightarrow> node_id \<Rightarrow> usize \<Rightarrow> read_only_queue \<times> read_request list" where
  "ack self peer quor =
     drain_ready
       (self\<lparr>pending := map (\<lambda>req. req\<lparr>rr_acks := finsert peer (rr_acks req)\<rparr>) (pending self)\<rparr>)
       quor"

definition queue_lease_valid :: "read_only_queue \<Rightarrow> instant \<Rightarrow> instant \<Rightarrow> nat \<Rightarrow> bool" where
  "queue_lease_valid self now last_heartbeat timeout =
     (mode self = LeaseRead \<and> now - last_heartbeat < timeout)"

definition drain_all :: "read_only_queue \<Rightarrow> read_only_queue \<times> read_request list" where
  "drain_all self = (self\<lparr>pending := []\<rparr>, pending self)"

definition queue_is_empty :: "read_only_queue \<Rightarrow> bool" where
  "queue_is_empty self = (pending self = [])"

subsection \<open>The leader lease\<close>

record leader_lease =
  granted_at :: "instant option"
  duration :: nat

definition new_lease :: "nat \<Rightarrow> leader_lease" where
  "new_lease d = \<lparr>granted_at = None, duration = d\<rparr>"

definition renew :: "instant \<Rightarrow> leader_lease \<Rightarrow> leader_lease" where
  "renew now self = self\<lparr>granted_at := Some now\<rparr>"

definition lease_is_valid :: "instant \<Rightarrow> leader_lease \<Rightarrow> bool" where
  "lease_is_valid now self =
     (case granted_at self of Some t \<Rightarrow> now - t < duration self | None \<Rightarrow> False)"

definition invalidate :: "leader_lease \<Rightarrow> leader_lease" where
  "invalidate self = self\<lparr>granted_at := None\<rparr>"

subsection \<open>Draining is a stable partition\<close>

lemma drain_loop_eq:
  "drain_loop q i pend ready =
     (take i pend @ filter (\<lambda>r. fcard (rr_acks r) < q) (drop i pend),
      ready @ filter (\<lambda>r. q \<le> fcard (rr_acks r)) (drop i pend))"
proof (induction q i pend ready rule: drain_loop.induct)
  case (1 q i pend ready)
  show ?case
  proof (cases "i < length pend")
    case True
    then have drop: "drop i pend = pend ! i # drop (Suc i) pend"
      by (simp add: Cons_nth_drop_Suc)
    show ?thesis
      using 1 True drop
      by (auto simp: drain_loop.simps [of q i pend ready] take_Suc_conv_app_nth)
  next
    case False
    then show ?thesis by (simp add: drain_loop.simps [of q i pend ready])
  qed
qed

lemma drain_ready_eq:
  "drain_ready s q =
     (s\<lparr>pending := filter (\<lambda>r. fcard (rr_acks r) < q) (pending s)\<rparr>,
      filter (\<lambda>r. q \<le> fcard (rr_acks r)) (pending s))"
  by (simp add: drain_ready_def drain_loop_eq)

lemma ack_eq:
  "ack s p q =
     (let rs = map (\<lambda>req. req\<lparr>rr_acks := finsert p (rr_acks req)\<rparr>) (pending s)
      in (s\<lparr>pending := filter (\<lambda>r. fcard (rr_acks r) < q) rs\<rparr>,
          filter (\<lambda>r. q \<le> fcard (rr_acks r)) rs))"
  by (simp add: ack_def drain_ready_eq Let_def)

subsection \<open>Properties\<close>

text \<open>
  An acknowledgement reaches every waiting read; the reads that now have a quorum of
  distinct acknowledgers are returned in arrival order, the others stay queued in arrival
  order with the acknowledgement counted, and no request is lost or answered twice.
\<close>

lemma ack_spec:
  "\<exists>rs. map (\<lambda>r. (rr_id r, rr_index r, rr_resp r)) rs =
          map (\<lambda>r. (rr_id r, rr_index r, rr_resp r)) (pending q) \<and>
        map rr_acks rs = map (\<lambda>r. finsert peer (rr_acks r)) (pending q) \<and>
        pending (fst (ack q peer quor)) = filter (\<lambda>r. fcard (rr_acks r) < quor) rs \<and>
        snd (ack q peer quor) = filter (\<lambda>r. \<not> fcard (rr_acks r) < quor) rs \<and>
        next_id (fst (ack q peer quor)) = next_id q \<and> mode (fst (ack q peer quor)) = mode q"
  by (rule exI [of _ "map (\<lambda>req. req\<lparr>rr_acks := finsert peer (rr_acks req)\<rparr>) (pending q)"])
    (simp add: ack_eq Let_def comp_def not_less)

end
