(* ===== verification/Kernel_Bridge.thy ===== *)
theory Kernel_Bridge
  imports Raft_Log
begin

section \<open>The kernel contract: log store and state machine\<close>

text \<open>
  \<open>cave-kernel/src/consensus.rs\<close> states the contracts \<open>LogStore\<close> and \<open>StateMachine\<close> the other
  crates program against; \<open>cave-ha/src/raft/kernel_bridge.rs\<close> implements the first on \<open>MemLog\<close>
  and \<open>cave-ha/src/raft/state_machine.rs\<close> the second. The contracts are the locales
  \<open>log_store\<close> and \<open>state_machine\<close>; the implementations are interpreted in them. JSON
  encoders and decoders (\<open>serde_json\<close>) are parameters.
\<close>

datatype kernel_role = KFollower | KCandidate | KLeader

record kernel_entry =
  k_index :: log_index
  k_term :: raft_term
  k_data :: bytes

record leader_info =
  li_leader :: "string option"
  li_term :: raft_term
  li_role :: kernel_role

datatype consensus_error =
    CNotLeader "string option"
  | CLogNotFound log_index
  | CTransport string
  | CStorage string
  | CAborted string

type_synonym 'a consensus_result = "consensus_error + 'a"

subsection \<open>Projections\<close>

definition to_kernel_entry :: "log_entry \<Rightarrow> kernel_entry" where
  "to_kernel_entry e =
     \<lparr>k_index = entry_index e, k_term = entry_term e, k_data = entry_data e\<rparr>"

definition from_kernel_entry :: "kernel_entry \<Rightarrow> log_entry" where
  "from_kernel_entry e =
     \<lparr>entry_index = k_index e, entry_term = k_term e, entry_kind = Normal,
      entry_data = k_data e\<rparr>"

fun map_ha_error :: "ha_error \<Rightarrow> consensus_error" where
  "map_ha_error (NotLeader l) = CNotLeader (map_option show_nat l)"
| "map_ha_error (LogCompacted requested _) = CLogNotFound requested"
| "map_ha_error (Storage s) = CStorage s"
| "map_ha_error (Transport s) = CTransport s"
| "map_ha_error (SnapshotErr s) = CStorage (''snapshot: '' @ s)"
| "map_ha_error (Serialization s) = CStorage (''serde: '' @ s)"
| "map_ha_error (Io s) = CStorage (''io: '' @ s)"
| "map_ha_error (Raft s) = CAborted s"
| "map_ha_error Shutdown = CAborted ''shutdown''"
| "map_ha_error Timeout = CAborted ''timeout''"
| "map_ha_error ProposalDropped = CAborted ''proposal dropped''"
| "map_ha_error TransferInProgress = CAborted ''transfer in progress''"
| "map_ha_error IsLearner = CAborted ''node is learner''"
| "map_ha_error MembershipChangePending = CAborted ''membership change pending''"
| "map_ha_error (NodeNotFound i) = CAborted (''node '' @ show_nat i @ '' not found'')"
| "map_ha_error NoQuorum = CAborted ''no quorum''"
| "map_ha_error (Dr s) = CAborted (''dr: '' @ s)"

fun to_kernel_role :: "role \<Rightarrow> kernel_role" where
  "to_kernel_role Follower = KFollower"
| "to_kernel_role PreCandidate = KCandidate"
| "to_kernel_role Candidate = KCandidate"
| "to_kernel_role Leader = KLeader"

definition to_kernel_node_id :: "node_id \<Rightarrow> string" where
  "to_kernel_node_id i = show_nat i"

text \<open>\<open>KernelRaftHandle::leader\<close>, from the answer to the status command.\<close>

definition kernel_leader :: "node_status ha_result \<Rightarrow> leader_info consensus_result" where
  "kernel_leader status =
     (case status of
        Inl e \<Rightarrow> Inl (map_ha_error e)
      | Inr st \<Rightarrow>
          (let r = (if status_role st = ''Leader'' then KLeader
                    else if status_role st = ''Candidate'' \<or> status_role st = ''PreCandidate''
                    then KCandidate else KFollower)
           in Inr \<lparr>li_leader = map_option to_kernel_node_id (status_leader_id st),
                   li_term = status_term st, li_role = r\<rparr>))"

text \<open>The text in a status and the typed role project to the same kernel role.\<close>

lemma kernel_leader_role:
  assumes "status_role st = role_to_string r"
  shows "\<exists>li. kernel_leader (Inr st) = Inr li \<and> li_role li = to_kernel_role r"
  using assms by (cases r) (auto simp: kernel_leader_def Let_def)

subsection \<open>The LogStore contract\<close>

fun k_contiguous :: "log_index \<Rightarrow> kernel_entry list \<Rightarrow> bool" where
  "k_contiguous i [] = True"
| "k_contiguous i (e # es) = (k_index e = i \<and> k_contiguous (Suc i) es)"

locale log_store =
  fixes ls_append :: "'s \<Rightarrow> kernel_entry list \<Rightarrow> 's"
    and ls_get :: "'s \<Rightarrow> log_index \<Rightarrow> kernel_entry option consensus_result"
    and ls_last :: "'s \<Rightarrow> log_index"
    and ls_truncate_after :: "'s \<Rightarrow> log_index \<Rightarrow> 's"
    and ls_invar :: "'s \<Rightarrow> bool"
  assumes ls_last_append:
      "ls_invar s \<Longrightarrow> k_contiguous (Suc (ls_last s)) es \<Longrightarrow>
       ls_last (ls_append s es) = ls_last s + length es"
    and ls_get_append:
      "ls_invar s \<Longrightarrow> k_contiguous (Suc (ls_last s)) es \<Longrightarrow>
       ls_get (ls_append s es) i =
         (if ls_last s < i \<and> i \<le> ls_last s + length es then Inr (Some (es ! (i - Suc (ls_last s))))
          else ls_get s i)"
    and ls_get_truncate:
      "ls_invar s \<Longrightarrow>
       ls_get (ls_truncate_after s k) i = (if i \<le> k then ls_get s i else Inr None)"
    and ls_beyond: "ls_invar s \<Longrightarrow> ls_last s < i \<Longrightarrow> ls_get s i = Inr None"
    and ls_invar_append:
      "ls_invar s \<Longrightarrow> k_contiguous (Suc (ls_last s)) es \<Longrightarrow> ls_invar (ls_append s es)"
    and ls_invar_truncate: "ls_invar s \<Longrightarrow> ls_invar (ls_truncate_after s k)"
begin

text \<open>Rolling back a block of appended entries restores every read.\<close>

lemma rollback_append:
  assumes "ls_invar s" and "k_contiguous (Suc (ls_last s)) es"
  shows "ls_get (ls_truncate_after (ls_append s es) (ls_last s)) i = ls_get s i"
proof -
  have "ls_get (ls_truncate_after (ls_append s es) (ls_last s)) i =
          (if i \<le> ls_last s then ls_get (ls_append s es) i else Inr None)"
    using assms by (intro ls_get_truncate ls_invar_append)
  then show ?thesis
    using assms by (auto simp: ls_get_append ls_beyond)
qed

text \<open>A staged batch reads back entry by entry.\<close>

lemma read_back_append:
  assumes "ls_invar s" and "k_contiguous (Suc (ls_last s)) es" and "k < length es"
  shows "ls_get (ls_append s es) (Suc (ls_last s + k)) = Inr (Some (es ! k))"
  using assms by (simp add: ls_get_append)

end

text \<open>\<open>impl LogStore for KernelLogStore\<close>: the adapter over \<open>MemLog\<close>.\<close>

definition kls_append :: "mem_log \<Rightarrow> kernel_entry list \<Rightarrow> mem_log" where
  "kls_append log es = log_append log (map from_kernel_entry es)"

definition kls_get :: "mem_log \<Rightarrow> log_index \<Rightarrow> kernel_entry option consensus_result" where
  "kls_get log index =
     (case entry log index of
        Inr e \<Rightarrow> Inr (Some (to_kernel_entry e))
      | Inl (LogCompacted _ _) \<Rightarrow> Inr None
      | Inl (Raft _) \<Rightarrow> Inr None
      | Inl e \<Rightarrow> Inl (map_ha_error e))"

definition kls_last_index :: "mem_log \<Rightarrow> log_index" where
  "kls_last_index log = last_index log"

definition kls_truncate_after :: "mem_log \<Rightarrow> log_index \<Rightarrow> mem_log" where
  "kls_truncate_after log index = truncate_to log index"

lemma kernel_entry_inverse [simp]: "to_kernel_entry (from_kernel_entry e) = e"
  by (simp add: to_kernel_entry_def from_kernel_entry_def)

lemma from_kernel_entry_index [simp]: "entry_index (from_kernel_entry e) = k_index e"
  by (simp add: from_kernel_entry_def)

lemma k_contiguous_from: "k_contiguous i es \<Longrightarrow> contiguous i (map from_kernel_entry es)"
  by (induction es arbitrary: i) auto

text \<open>The adapter never reports an error: what is compacted or absent reads as nothing.\<close>

lemma kls_get_eq: "kls_get log i = Inr (map_option to_kernel_entry (log_at log i))"
  by (auto simp: kls_get_def entry_def log_at_def first_index_def Let_def)

lemma kls_append_at:
  assumes "wf_log s" and "k_contiguous (Suc (last_index s)) es" and "es \<noteq> []"
  shows "log_at (kls_append s es) j =
           (if j < Suc (last_index s) then log_at s j
            else if j < Suc (last_index s) + length es
                 then Some (from_kernel_entry (es ! (j - Suc (last_index s)))) else None)"
proof -
  have "first_index s \<le> Suc (last_index s)"
    using assms(1) by (simp add: last_index_wf first_index_def)
  then show ?thesis
    using assms log_at_append [OF assms(1) k_contiguous_from [OF assms(2)]]
    by (auto simp: kls_append_def)
qed

lemma wf_kls_append:
  assumes "wf_log s" and "k_contiguous (Suc (last_index s)) es"
  shows "wf_log (kls_append s es)"
  using wf_log_append [OF assms(1) k_contiguous_from [OF assms(2)]] assms(1)
  by (simp add: kls_append_def last_index_wf first_index_def)

lemma log_at_beyond: "wf_log s \<Longrightarrow> last_index s < i \<Longrightarrow> log_at s i = None"
  by (auto simp: log_at_def last_index_wf)

interpretation kls: log_store kls_append kls_get kls_last_index kls_truncate_after wf_log
proof (unfold_locales, goal_cases)
  case (1 s es)
  then show ?case
    using last_index_append [OF 1(1) k_contiguous_from, of "Suc (last_index s)" es]
    by (cases "es = []")
      (auto simp: kls_append_def kls_last_index_def last_index_wf first_index_def)
next
  case (2 s es i)
  then show ?case
    using kls_append_at [of s es i] log_at_beyond [of s i]
    by (cases "es = []") (auto simp: kls_get_eq kls_append_def kls_last_index_def)
next
  case (3 s k i)
  then show ?case by (simp add: kls_get_eq kls_truncate_after_def log_at_truncate_to)
next
  case (4 s i)
  then show ?case by (simp add: kls_get_eq kls_last_index_def log_at_beyond)
next
  case (5 s es)
  then show ?case by (simp add: kls_last_index_def wf_kls_append)
next
  case (6 s k)
  then show ?case by (simp add: kls_truncate_after_def wf_truncate_to)
qed

subsection \<open>The StateMachine contract\<close>

record 'sm state_machine_ops =
  sm_apply :: "kernel_entry \<Rightarrow> 'sm \<Rightarrow> bytes consensus_result \<times> 'sm"
  sm_snapshot :: "'sm \<Rightarrow> bytes consensus_result"
  sm_restore :: "bytes \<Rightarrow> 'sm \<Rightarrow> unit consensus_result \<times> 'sm"

text \<open>Applying a run of entries, results dropped as the node loop drops them.\<close>

fun sm_apply_all :: "'sm state_machine_ops \<Rightarrow> kernel_entry list \<Rightarrow> 'sm \<Rightarrow> 'sm" where
  "sm_apply_all ops [] s = s"
| "sm_apply_all ops (e # es) s = sm_apply_all ops es (snd (sm_apply ops e s))"

lemma sm_apply_all_append:
  "sm_apply_all ops (xs @ ys) s = sm_apply_all ops ys (sm_apply_all ops xs s)"
  by (induction xs arbitrary: s) auto

locale state_machine =
  fixes ops :: "'sm state_machine_ops"
  assumes restore_snapshot:
    "sm_snapshot ops s = Inr d \<Longrightarrow> sm_restore ops d s' = (Inr (), s)"
begin

text \<open>A replica that restores a snapshot and applies the rest of the log catches up.\<close>

lemma snapshot_catches_up:
  assumes "sm_snapshot ops (sm_apply_all ops xs s) = Inr d"
  shows "sm_apply_all ops ys (snd (sm_restore ops d s')) = sm_apply_all ops (xs @ ys) s"
  using restore_snapshot [OF assms] by (simp add: sm_apply_all_append)

end

text \<open>\<open>NoopStateMachine\<close>.\<close>

definition noop_ops :: "unit state_machine_ops" where
  "noop_ops = \<lparr>sm_apply = (\<lambda>_ s. (Inr [], s)), sm_snapshot = (\<lambda>_. Inr []),
               sm_restore = (\<lambda>_ s. (Inr (), s))\<rparr>"

interpretation noop: state_machine noop_ops
  by unfold_locales (simp add: noop_ops_def)

text \<open>\<open>KvStateMachine\<close>: the map of strings and its two commands.\<close>

datatype kv_command = KvSet string string | KvDelete string

definition kv_apply ::
  "(bytes \<Rightarrow> string + kv_command) \<Rightarrow> kernel_entry \<Rightarrow> (string \<rightharpoonup> string) \<Rightarrow>
   bytes consensus_result \<times> (string \<rightharpoonup> string)" where
  "kv_apply from_slice e store =
     (if k_data e = [] then (Inr [], store)
      else case from_slice (k_data e) of
             Inl msg \<Rightarrow> (Inl (CStorage (''kv decode: '' @ msg)), store)
           | Inr (KvSet key val) \<Rightarrow> (Inr [], store(key \<mapsto> val))
           | Inr (KvDelete key) \<Rightarrow> (Inr [], store(key := None)))"

definition kv_snapshot ::
  "((string \<rightharpoonup> string) \<Rightarrow> string + bytes) \<Rightarrow> (string \<rightharpoonup> string) \<Rightarrow> bytes consensus_result" where
  "kv_snapshot to_vec store =
     (case to_vec store of Inl msg \<Rightarrow> Inl (CStorage (''kv encode: '' @ msg)) | Inr d \<Rightarrow> Inr d)"

definition kv_restore ::
  "(bytes \<Rightarrow> string + (string \<rightharpoonup> string)) \<Rightarrow> bytes \<Rightarrow> (string \<rightharpoonup> string) \<Rightarrow>
   unit consensus_result \<times> (string \<rightharpoonup> string)" where
  "kv_restore from_slice d store =
     (case from_slice d of
        Inl msg \<Rightarrow> (Inl (CStorage (''kv restore: '' @ msg)), store)
      | Inr m \<Rightarrow> (Inr (), m))"

definition kv_ops ::
  "(bytes \<Rightarrow> string + kv_command) \<Rightarrow> ((string \<rightharpoonup> string) \<Rightarrow> string + bytes) \<Rightarrow>
   (bytes \<Rightarrow> string + (string \<rightharpoonup> string)) \<Rightarrow> (string \<rightharpoonup> string) state_machine_ops" where
  "kv_ops cmd_from_slice map_to_vec map_from_slice =
     \<lparr>sm_apply = kv_apply cmd_from_slice, sm_snapshot = kv_snapshot map_to_vec,
      sm_restore = kv_restore map_from_slice\<rparr>"

text \<open>
  The key-value machine keeps the contract for every pair of JSON functions in which decoding
  inverts encoding.
\<close>

lemma kv_state_machine:
  assumes "\<And>m d. map_to_vec m = Inr d \<Longrightarrow> map_from_slice d = Inr m"
  shows "state_machine (kv_ops cmd_from_slice map_to_vec map_from_slice)"
  by unfold_locales
    (auto simp: kv_ops_def kv_snapshot_def kv_restore_def dest: assms split: sum.splits)

subsection \<open>Properties\<close>

text \<open>
  On the kernel's log store, rolling back a batch appended at the end of the log
  (\<open>truncate_after\<close> to the previous last index) restores every read.
\<close>

lemma log_store_rollback:
  assumes "wf_log log" and "k_contiguous (Suc (kls_last_index log)) es"
  shows "kls_get (kls_truncate_after (kls_append log es) (kls_last_index log)) i = kls_get log i"
  using assms by (rule kls.rollback_append)

lemma log_store_rollback_witness:
  "let e = \<lparr>k_index = 1, k_term = 1, k_data = ''x''\<rparr>
   in kls_get (kls_truncate_after (kls_append new_log [e]) 0) 1 = kls_get new_log 1"
  using log_store_rollback [of new_log "[\<lparr>k_index = 1, k_term = 1, k_data = ''x''\<rparr>]" 1]
  by (simp add: kls_last_index_def new_log_def last_index_def wf_log_def Let_def)

text \<open>
  Entries appended at the end of the log store read back unchanged, at their index.
\<close>

lemma log_store_read_back:
  assumes "wf_log log" and "k_contiguous (Suc (kls_last_index log)) es" and "k < length es"
  shows "kls_get (kls_append log es) (Suc (kls_last_index log + k)) = Inr (Some (es ! k)) \<and>
         kls_last_index (kls_append log es) = kls_last_index log + length es"
  using kls.read_back_append [OF assms] kls.ls_last_append [OF assms(1,2)] by blast

lemma log_store_read_back_witness:
  "let e = \<lparr>k_index = 1, k_term = 1, k_data = ''x''\<rparr>
   in kls_get (kls_append new_log [e]) 1 = Inr (Some e)"
  using log_store_read_back [of new_log "[\<lparr>k_index = 1, k_term = 1, k_data = ''x''\<rparr>]" 0]
  by (simp add: kls_last_index_def new_log_def last_index_def wf_log_def Let_def)

text \<open>
  A replica of the key-value machine that restores a snapshot, whatever it held before,
  and then applies the rest of the log reaches the state of a replica that applied the whole
  log. The JSON decoder is assumed to invert the encoder.
\<close>

lemma kv_snapshot_catches_up:
  assumes "\<And>m d. map_to_vec m = Inr d \<Longrightarrow> map_from_slice d = Inr m"
    and "kv_snapshot map_to_vec
           (sm_apply_all (kv_ops cmd_from_slice map_to_vec map_from_slice) xs s) = Inr d"
  shows "sm_apply_all (kv_ops cmd_from_slice map_to_vec map_from_slice) ys
           (snd (kv_restore map_from_slice d s')) =
         sm_apply_all (kv_ops cmd_from_slice map_to_vec map_from_slice) (xs @ ys) s"
proof -
  let ?ops = "kv_ops cmd_from_slice map_to_vec map_from_slice"
  have ops: "sm_snapshot ?ops = kv_snapshot map_to_vec" "sm_restore ?ops = kv_restore map_from_slice"
    by (simp_all add: kv_ops_def)
  have "state_machine ?ops" by (rule kv_state_machine) (rule assms(1))
  from state_machine.snapshot_catches_up [OF this] assms(2) show ?thesis
    unfolding ops by blast
qed

lemma kv_snapshot_catches_up_witness:
  "let enc = (\<lambda>m :: string \<rightharpoonup> string. if m = Map.empty then Inr ''{}'' else Inl ''unsupported'');
       dec = (\<lambda>d :: bytes. if d = ''{}'' then Inr Map.empty else Inl ''bad'');
       cmd = (\<lambda>d :: bytes. Inr (KvSet ''k'' d));
       e = \<lparr>k_index = 1, k_term = 1, k_data = ''v''\<rparr>
   in sm_apply_all (kv_ops cmd enc dec) [e] (snd (kv_restore dec ''{}'' [''old'' \<mapsto> ''x''])) =
      [''k'' \<mapsto> ''v'']"
proof -
  let ?enc = "\<lambda>m :: string \<rightharpoonup> string. if m = Map.empty then Inr ''{}'' else Inl ''unsupported''"
  let ?dec = "\<lambda>d :: bytes. if d = ''{}'' then Inr Map.empty else Inl ''bad''"
  let ?cmd = "\<lambda>d :: bytes. Inr (KvSet ''k'' d)"
  let ?e = "\<lparr>k_index = 1, k_term = 1, k_data = ''v''\<rparr>"
  have "sm_apply_all (kv_ops ?cmd ?enc ?dec) [?e] (snd (kv_restore ?dec ''{}'' [''old'' \<mapsto> ''x''])) =
        sm_apply_all (kv_ops ?cmd ?enc ?dec) ([] @ [?e]) Map.empty"
    by (rule kv_snapshot_catches_up) (auto simp: kv_snapshot_def split: if_splits)
  then show ?thesis by (simp add: kv_ops_def kv_apply_def)
qed

end
