(* ===== verification/Raft_Node.thy ===== *)
theory Raft_Node
  imports Raft_Messages Raft_Snapshot Raft_Read_Only Kernel_Bridge
begin

section \<open>The Raft node\<close>

text \<open>
  \<open>cave-ha/src/raft/node.rs\<close>: the node actor. Its state is the record \<open>raft_node\<close>, with the
  fields of \<open>RaftNode\<close> in their order; every method is a function from state to state, in the
  order of the file (helpers before their callers).

  What the actor does to its surroundings is part of the state: \<open>outbox\<close> collects the messages
  handed to the transport, \<open>replies\<close> the answers sent to clients (a oneshot channel is named by a
  request number). \<open>clock\<close> is what \<open>Instant::now\<close> returns, set by the environment. \<open>halted\<close>
  says that the task is gone: it was shut down, it panicked (\<open>gen_range\<close> on an empty range)
  or a loop of it never returns (snapshot chunk size 0); a halted node sends nothing more.
  Metrics counters and log lines are not modelled: nothing reads them.

  Code outside the repository enters through the record \<open>env\<close>: the random number generator,
  the JSON encoding of a membership configuration and the user's state machine.
\<close>

record 'sm env =
  gen_range :: "nat \<Rightarrow> u64 \<Rightarrow> u64 \<Rightarrow> u64"
  to_vec :: "membership_config \<Rightarrow> string + bytes"
  from_slice :: "bytes \<Rightarrow> string + membership_config"
  machine :: "'sm state_machine_ops"

record node_config =
  cfg_id :: node_id
  election_timeout_min :: u64
  election_timeout_max :: u64
  heartbeat_interval :: u64
  max_append_entries :: usize
  pipeline_depth :: usize
  check_quorum :: bool
  check_quorum_interval :: u64
  pre_vote :: bool
  log_compaction_threshold :: u64
  snapshot_chunk_size :: usize
  tick_duration :: nat
  api_addr :: string
  grpc_addr :: string
  grpc_advertise_addr :: string
  max_pending_proposals :: usize
  leadership_transfer_timeout :: u64

text \<open>
  \<open>NodeConfig::default\<close>. Durations are in milliseconds; the fraction \<open>lease_fraction\<close>, a float
  used only to compute the lease duration, is left out (see \<open>spawn\<close>).
\<close>

definition node_config_default :: node_config where
  "node_config_default =
     \<lparr>cfg_id = 1, election_timeout_min = 10, election_timeout_max = 20, heartbeat_interval = 2,
      max_append_entries = 64, pipeline_depth = 4, check_quorum = True,
      check_quorum_interval = 10, pre_vote = True, log_compaction_threshold = 10000,
      snapshot_chunk_size = 1024 * 1024, tick_duration = 100, api_addr = ''0.0.0.0:8080'',
      grpc_addr = ''0.0.0.0:9090'', grpc_advertise_addr = ''127.0.0.1:9090'',
      max_pending_proposals = 1000, leadership_transfer_timeout = 10\<rparr>"

record peer_state =
  next_index :: log_index
  match_index :: log_index
  inflight :: u64
  next_seq :: u64
  last_response :: instant
  snapshot_in_progress :: bool
  recent_active :: bool

definition new_peer :: "instant \<Rightarrow> log_index \<Rightarrow> peer_state" where
  "new_peer now nxt =
     \<lparr>next_index = nxt, match_index = 0, inflight = 0, next_seq = 1, last_response = now,
      snapshot_in_progress = False, recent_active = False\<rparr>"

datatype node_cmd =
    Propose bytes rid
  | ReadIndexCmd rid
  | AddNode node_info rid
  | RemoveNode node_id rid
  | TransferLeadership node_id rid
  | TriggerSnapshot rid
  | Status rid
  | ShutdownCmd

datatype reply =
    IndexReply "log_index ha_result"
  | UnitReply "unit ha_result"
  | MetaReply "snapshot_meta ha_result"
  | StatusReply node_status

record 'sm raft_node =
  self_id :: node_id
  config :: node_config
  current_term :: raft_term
  voted_for :: "node_id option"
  role :: role
  leader_id :: "node_id option"
  node_log :: mem_log
  commit_index :: log_index
  last_applied :: log_index
  membership :: membership_config
  peers :: "(node_id \<times> peer_state) list"
  pending_proposals :: "(log_index \<times> rid) list"
  election_elapsed :: u64
  election_timeout :: u64
  heartbeat_elapsed :: u64
  votes_received :: "node_id fset"
  votes_rejected :: "node_id fset"
  pre_votes_received :: "node_id fset"
  check_quorum_elapsed :: u64
  read_only :: read_only_queue
  lease :: leader_lease
  snap_receiver :: "snapshot_receiver option"
  pending_snapshot_resp :: "rid option"
  transfer_to :: "node_id option"
  transfer_elapsed :: u64
  state_machine :: 'sm
  clock :: instant
  draw_no :: nat
  outbox :: "(node_id \<times> raft_message) list"
  replies :: "(rid \<times> reply) list"
  halted :: bool

subsection \<open>Transport and client channels\<close>

definition send :: "node_id \<Rightarrow> raft_message \<Rightarrow> 'sm raft_node \<Rightarrow> 'sm raft_node" where
  "send to msg s = (if halted s then s else s\<lparr>outbox := outbox s @ [(to, msg)]\<rparr>)"

definition respond :: "rid \<Rightarrow> reply \<Rightarrow> 'sm raft_node \<Rightarrow> 'sm raft_node" where
  "respond r a s = (if halted s then s else s\<lparr>replies := replies s @ [(r, a)]\<rparr>)"

definition set_peer :: "node_id \<Rightarrow> peer_state \<Rightarrow> 'sm raft_node \<Rightarrow> 'sm raft_node" where
  "set_peer p ps s = s\<lparr>peers := AList.update p ps (peers s)\<rparr>"

text \<open>\<open>self.election_timeout = randomized_timeout(min, max)\<close>.\<close>

definition randomize_timeout :: "'sm env \<Rightarrow> 'sm raft_node \<Rightarrow> 'sm raft_node" where
  "randomize_timeout e s =
     (let lo = election_timeout_min (config s); hi = election_timeout_max (config s)
      in if lo > hi then s\<lparr>halted := True\<rparr>
         else s\<lparr>election_timeout := gen_range e (draw_no s) lo hi, draw_no := draw_no s + 1\<rparr>)"

subsection \<open>Start-up\<close>

definition membership_of :: "node_info list \<Rightarrow> membership_config" where
  "membership_of infos =
     fold (\<lambda>n m. if info_is_learner n then m\<lparr>learners := finsert (info_id n) (learners m)\<rparr>
                 else m\<lparr>voters := finsert (info_id n) (voters m)\<rparr>)
          infos membership_default"

text \<open>
  \<open>RaftNode::spawn\<close>. The lease duration is computed in floating point from the configuration
  and is an argument; so is the initial state of the user's state machine.
\<close>

definition spawn ::
  "'sm env \<Rightarrow> node_config \<Rightarrow> node_info list \<Rightarrow> nat \<Rightarrow> 'sm \<Rightarrow> 'sm raft_node" where
  "spawn e cfg initial_members lease_duration sm =
     randomize_timeout e
       \<lparr>self_id = cfg_id cfg, config = cfg, current_term = 0, voted_for = None,
        role = Follower, leader_id = None, node_log = new_log, commit_index = 0,
        last_applied = 0, membership = membership_of initial_members, peers = [],
        pending_proposals = [], election_elapsed = 0, election_timeout = 0,
        heartbeat_elapsed = 0, votes_received = {||}, votes_rejected = {||},
        pre_votes_received = {||}, check_quorum_elapsed = 0,
        read_only = new_queue ReadIndex, lease = new_lease lease_duration,
        snap_receiver = None, pending_snapshot_resp = None, transfer_to = None,
        transfer_elapsed = 0, state_machine = sm, clock = 0, draw_no = 0, outbox = [],
        replies = [], halted = False\<rparr>"

subsection \<open>Replication helpers\<close>

definition send_snapshot_to :: "'sm env \<Rightarrow> node_id \<Rightarrow> 'sm raft_node \<Rightarrow> 'sm raft_node" where
  "send_snapshot_to e peer_id s =
     (case sm_snapshot (machine e) (state_machine s) of
        Inl _ \<Rightarrow>
          (case map_of (peers s) peer_id of
             Some p \<Rightarrow> set_peer peer_id (p\<lparr>snapshot_in_progress := False\<rparr>) s
           | None \<Rightarrow> s)
      | Inr data \<Rightarrow>
          (let snap = new_snapshot (snapshot_index (node_log s)) (snapshot_term (node_log s))
                        (membership s) data
           in case chunks snap (snapshot_chunk_size (config s)) of
                None \<Rightarrow> s\<lparr>halted := True\<rparr>
              | Some cs \<Rightarrow>
                  fold (\<lambda>c. send peer_id
                          (InstallSnapshot
                             \<lparr>is_term = current_term s, is_leader_id = self_id s,
                              is_meta = chunk_meta c, is_offset = chunk_offset c,
                              is_data = chunk_data c, is_done = chunk_done c\<rparr>)) cs s))"

definition replicate_to :: "'sm env \<Rightarrow> node_id \<Rightarrow> 'sm raft_node \<Rightarrow> 'sm raft_node" where
  "replicate_to e peer_id s =
     (case map_of (peers s) peer_id of
        None \<Rightarrow> s
      | Some peer \<Rightarrow>
          if snapshot_in_progress peer then s
          else if inflight peer \<ge> pipeline_depth (config s) then s
          else
            let nxt = next_index peer
            in if nxt \<le> snapshot_index (node_log s)
               then send_snapshot_to e peer_id
                      (set_peer peer_id (peer\<lparr>snapshot_in_progress := True\<rparr>) s)
               else
                 let prev_index = wsub nxt 1;
                     prev_term = (case term_at (node_log s) prev_index of
                                    Inr t \<Rightarrow> t | Inl _ \<Rightarrow> 0);
                     last_idx = last_index (node_log s);
                     hi = min (nxt + max_append_entries (config s)) (last_idx + 1);
                     es = (if nxt \<le> last_idx
                           then (case slice (node_log s) nxt hi of Inr es \<Rightarrow> es | Inl _ \<Rightarrow> [])
                           else []);
                     sq = next_seq peer;
                     peer' = peer\<lparr>next_seq := next_seq peer + 1,
                                  inflight := (if es \<noteq> [] then inflight peer + 1
                                               else inflight peer)\<rparr>
                 in send peer_id
                      (AppendEntries
                         \<lparr>ae_term = current_term s, ae_leader_id = self_id s,
                          ae_prev_log_index = prev_index, ae_prev_log_term = prev_term,
                          ae_entries = es, ae_leader_commit = commit_index s, ae_seq = sq\<rparr>)
                      (set_peer peer_id peer' s))"

definition broadcast_append_entries :: "'sm env \<Rightarrow> 'sm raft_node \<Rightarrow> 'sm raft_node" where
  "broadcast_append_entries e s = fold (replicate_to e) (map fst (peers s)) s"

definition broadcast_heartbeat :: "'sm env \<Rightarrow> 'sm raft_node \<Rightarrow> 'sm raft_node" where
  "broadcast_heartbeat e s =
     (let s = s\<lparr>lease := renew (clock s) (lease s)\<rparr>
      in fold (replicate_to e) (map fst (peers s)) s)"

subsection \<open>Role changes and elections\<close>

definition become_candidate :: "'sm env \<Rightarrow> raft_term \<Rightarrow> 'sm raft_node \<Rightarrow> 'sm raft_node" where
  "become_candidate e trm s =
     randomize_timeout e
       (s\<lparr>current_term := trm, voted_for := Some (self_id s), role := Candidate,
          leader_id := None, votes_received := finsert (self_id s) {||},
          votes_rejected := {||}, election_elapsed := 0\<rparr>)"

definition become_leader :: "'sm env \<Rightarrow> 'sm raft_node \<Rightarrow> 'sm raft_node" where
  "become_leader e s =
     (let s = s\<lparr>role := Leader, leader_id := Some (self_id s), heartbeat_elapsed := 0,
                check_quorum_elapsed := 0, transfer_to := None, transfer_elapsed := 0,
                lease := renew (clock s) (lease s)\<rparr>;
          nxt = last_index (node_log s) + 1;
          s = s\<lparr>peers := map (\<lambda>p. (p, new_peer (clock s) nxt))
                         (filter (\<lambda>p. p \<noteq> self_id s)
                            (sorted_list_of_fset (all_nodes (membership s))))\<rparr>;
          barrier_index = last_index (node_log s) + 1;
          s = s\<lparr>node_log := log_append (node_log s)
                              [new_barrier barrier_index (current_term s)]\<rparr>
      in broadcast_append_entries e s)"

text \<open>The part of \<open>become_follower\<close> for a node that was the leader: every waiting client is answered.\<close>

definition fail_pending :: "node_id option \<Rightarrow> 'sm raft_node \<Rightarrow> 'sm raft_node" where
  "fail_pending ldr s =
     (let s = s\<lparr>lease := invalidate (lease s)\<rparr>;
          s = fold (\<lambda>(_, r). respond r (IndexReply (Inl (NotLeader ldr))))
                (pending_proposals s) s\<lparr>pending_proposals := []\<rparr>;
          (ro, reqs) = drain_all (read_only s)
      in fold (\<lambda>req. respond (rr_resp req) (IndexReply (Inl (NotLeader ldr)))) reqs
           (s\<lparr>read_only := ro\<rparr>))"

definition become_follower ::
  "'sm env \<Rightarrow> raft_term \<Rightarrow> node_id option \<Rightarrow> 'sm raft_node \<Rightarrow> 'sm raft_node" where
  "become_follower e trm ldr s =
     (let s = (if role s = Leader then fail_pending ldr s else s);
          s = (if trm > current_term s then s\<lparr>current_term := trm, voted_for := None\<rparr> else s);
          s = s\<lparr>role := Follower, leader_id := ldr, election_elapsed := 0\<rparr>;
          s = randomize_timeout e s
      in s\<lparr>votes_received := {||}, pre_votes_received := {||}\<rparr>)"

definition send_to_voters :: "raft_message \<Rightarrow> 'sm raft_node \<Rightarrow> 'sm raft_node" where
  "send_to_voters msg s =
     fold (\<lambda>p s. if p \<noteq> self_id s then send p msg s else s)
       (sorted_list_of_fset (all_voters (membership s))) s"

definition campaign_real :: "'sm env \<Rightarrow> 'sm raft_node \<Rightarrow> 'sm raft_node" where
  "campaign_real e s =
     (if self_id s |\<in>| learners (membership s) then s
      else
        let candidate_term = current_term s + 1;
            s = become_candidate e candidate_term s;
            msg = RequestVote \<lparr>rv_term = candidate_term, rv_candidate_id = self_id s,
                               rv_last_log_index = last_index (node_log s),
                               rv_last_log_term = last_term (node_log s),
                               rv_pre_vote = False\<rparr>;
            s = send_to_voters msg s
        in if fcard (voters (membership s)) = 1 then become_leader e s else s)"

definition campaign_pre_vote :: "'sm env \<Rightarrow> 'sm raft_node \<Rightarrow> 'sm raft_node" where
  "campaign_pre_vote e s =
     (if self_id s |\<in>| learners (membership s) then s
      else
        let s = s\<lparr>role := PreCandidate, pre_votes_received := finsert (self_id s) {||}\<rparr>;
            candidate_term = current_term s + 1;
            msg = RequestVote \<lparr>rv_term = candidate_term, rv_candidate_id = self_id s,
                               rv_last_log_index = last_index (node_log s),
                               rv_last_log_term = last_term (node_log s),
                               rv_pre_vote = True\<rparr>;
            s = send_to_voters msg s
        in if fcard (voters (membership s)) = 1 then campaign_real e s else s)"

definition campaign :: "'sm env \<Rightarrow> bool \<Rightarrow> 'sm raft_node \<Rightarrow> 'sm raft_node" where
  "campaign e pv s = (if pv then campaign_pre_vote e s else campaign_real e s)"

subsection \<open>Sending leaves everything but the peer table alone\<close>

text \<open>
  The replication helpers change only the peer table, the outbox and the halt flag. The fact is
  needed here already: it makes the apply loop below terminate.
\<close>

definition only_sends :: "'sm raft_node \<Rightarrow> 'sm raft_node \<Rightarrow> bool" where
  "only_sends s s' \<longleftrightarrow> (\<exists>ps ob h. s' = s\<lparr>peers := ps, outbox := ob, halted := h\<rparr>)"

lemma only_sendsD:
  assumes "only_sends s s'"
  shows
    "self_id s' = self_id s"
    and "config s' = config s"
    and "current_term s' = current_term s"
    and "voted_for s' = voted_for s"
    and "role s' = role s"
    and "leader_id s' = leader_id s"
    and "node_log s' = node_log s"
    and "commit_index s' = commit_index s"
    and "last_applied s' = last_applied s"
    and "membership s' = membership s"
    and "pending_proposals s' = pending_proposals s"
    and "election_elapsed s' = election_elapsed s"
    and "election_timeout s' = election_timeout s"
    and "heartbeat_elapsed s' = heartbeat_elapsed s"
    and "votes_received s' = votes_received s"
    and "votes_rejected s' = votes_rejected s"
    and "pre_votes_received s' = pre_votes_received s"
    and "check_quorum_elapsed s' = check_quorum_elapsed s"
    and "read_only s' = read_only s"
    and "lease s' = lease s"
    and "snap_receiver s' = snap_receiver s"
    and "pending_snapshot_resp s' = pending_snapshot_resp s"
    and "transfer_to s' = transfer_to s"
    and "transfer_elapsed s' = transfer_elapsed s"
    and "state_machine s' = state_machine s"
    and "clock s' = clock s"
    and "draw_no s' = draw_no s"
    and "replies s' = replies s"
  using assms by (auto simp: only_sends_def)

lemma only_sends_refl [simp]: "only_sends s s"
  unfolding only_sends_def by (rule exI [of _ "peers s"], rule exI [of _ "outbox s"],
      rule exI [of _ "halted s"]) simp

lemma only_sends_trans:
  assumes "only_sends s t" and "only_sends t u"
  shows "only_sends s u"
proof -
  from assms obtain ps ob h where "u = s\<lparr>peers := ps, outbox := ob, halted := h\<rparr>"
    by (auto simp: only_sends_def)
  then show ?thesis unfolding only_sends_def by blast
qed

lemma only_sends_fold:
  assumes "\<And>x s. only_sends s (f x s)"
  shows "only_sends s (fold f xs s)"
proof (induction xs arbitrary: s)
  case Nil
  then show ?case by simp
next
  case (Cons x xs)
  from only_sends_trans [OF assms Cons.IH] show ?case by simp
qed

lemma only_sends_peers [simp]: "only_sends s (s\<lparr>peers := ps\<rparr>)"
  unfolding only_sends_def by (rule exI [of _ ps], rule exI [of _ "outbox s"],
      rule exI [of _ "halted s"]) simp

lemma only_sends_halted [simp]: "only_sends s (s\<lparr>halted := h\<rparr>)"
  unfolding only_sends_def by (rule exI [of _ "peers s"], rule exI [of _ "outbox s"],
      rule exI [of _ h]) simp

lemma only_sends_outbox [simp]: "only_sends s (s\<lparr>outbox := ob\<rparr>)"
  unfolding only_sends_def by (rule exI [of _ "peers s"], rule exI [of _ ob],
      rule exI [of _ "halted s"]) simp

lemma only_sends_send [simp]: "only_sends s (send to msg s)"
  by (simp add: send_def)

lemma only_sends_set_peer [simp]: "only_sends s (set_peer p ps s)"
  by (simp add: set_peer_def)

lemma only_sends_send_snapshot_to [simp]: "only_sends s (send_snapshot_to e p s)"
  by (auto simp: send_snapshot_to_def Let_def intro: only_sends_fold
      split: sum.splits option.splits)

lemma only_sends_replicate_to [simp]: "only_sends s (replicate_to e p s)"
  by (auto simp: replicate_to_def Let_def simp del: One_nat_def split: option.splits
      intro!: only_sends_trans [OF only_sends_set_peer only_sends_send]
        only_sends_trans [OF only_sends_set_peer only_sends_send_snapshot_to])

lemma only_sends_broadcast [simp]: "only_sends s (broadcast_append_entries e s)"
  by (simp add: broadcast_append_entries_def only_sends_fold)

lemma only_sends_send_to_voters [simp]: "only_sends s (send_to_voters msg s)"
  by (simp add: send_to_voters_def only_sends_fold)

lemmas sends_frame [frame, simp] =
  only_sendsD [OF only_sends_send] only_sendsD [OF only_sends_set_peer]
  only_sendsD [OF only_sends_send_snapshot_to] only_sendsD [OF only_sends_replicate_to]
  only_sendsD [OF only_sends_broadcast] only_sendsD [OF only_sends_send_to_voters]

subsection \<open>Membership entries, compaction, applying the committed log\<close>

definition append_membership_change ::
  "'sm env \<Rightarrow> membership_config \<Rightarrow> 'sm raft_node \<Rightarrow> 'sm raft_node" where
  "append_membership_change e cfg s =
     (let index = last_index (node_log s) + 1
      in case new_membership (to_vec e) index (current_term s) cfg of
           Inl _ \<Rightarrow> s
         | Inr ent \<Rightarrow>
             broadcast_append_entries e (s\<lparr>node_log := log_append (node_log s) [ent]\<rparr>))"

definition compact_log :: "'sm raft_node \<Rightarrow> 'sm raft_node" where
  "compact_log s =
     (let compact_to = last_applied s
      in if compact_to \<le> snapshot_index (node_log s) then s
         else
           let trm = (case term_at (node_log s) compact_to of
                        Inr t \<Rightarrow> t | Inl _ \<Rightarrow> current_term s);
               s = s\<lparr>node_log := compact (node_log s) compact_to trm\<rparr>
           in case pending_snapshot_resp s of
                None \<Rightarrow> s
              | Some r \<Rightarrow>
                  respond r (MetaReply (Inr \<lparr>meta_index = compact_to, meta_term = trm,
                                             meta_membership = membership s\<rparr>))
                    (s\<lparr>pending_snapshot_resp := None\<rparr>))"

text \<open>The body of the apply loop for one entry.\<close>

definition apply_entry :: "'sm env \<Rightarrow> log_entry \<Rightarrow> 'sm raft_node \<Rightarrow> 'sm raft_node" where
  "apply_entry e ent s =
     (if entry_kind ent = MembershipChange
      then (case decode_membership (from_slice e) ent of
              Inl _ \<Rightarrow> s
            | Inr new_cfg \<Rightarrow>
                (let s = s\<lparr>membership := new_cfg\<rparr>
                 in if auto_leave (membership s) \<and> is_joint (membership s) \<and> role s = Leader
                    then append_membership_change e
                           \<lparr>voters = voters (membership s), learners = learners (membership s),
                            voters_outgoing = None, auto_leave = False\<rparr> s
                    else s))
      else s\<lparr>state_machine :=
               snd (sm_apply (machine e) (to_kernel_entry ent) (state_machine s))\<rparr>)"

lemma append_membership_change_indices [frame, simp]:
  "commit_index (append_membership_change e cfg s) = commit_index s"
  "last_applied (append_membership_change e cfg s) = last_applied s"
  by (auto simp: append_membership_change_def Let_def split: sum.splits)

lemma apply_entry_indices [frame, simp]:
  "commit_index (apply_entry e ent s) = commit_index s"
  "last_applied (apply_entry e ent s) = last_applied s"
  by (auto simp: apply_entry_def Let_def split: sum.splits)

function apply_loop :: "'sm env \<Rightarrow> 'sm raft_node \<Rightarrow> 'sm raft_node" where
  "apply_loop e s =
     (if last_applied s < commit_index s
      then let s = s\<lparr>last_applied := last_applied s + 1\<rparr>
           in case entry (node_log s) (last_applied s) of
                Inl _ \<Rightarrow> s
              | Inr ent \<Rightarrow> apply_loop e (apply_entry e ent s)
      else s)"
  by pat_completeness auto
termination
  by (relation "measure (\<lambda>(e, s). commit_index s - last_applied s)") auto

declare apply_loop.simps [simp del]

definition apply_entries :: "'sm env \<Rightarrow> 'sm raft_node \<Rightarrow> 'sm raft_node" where
  "apply_entries e s =
     (let s = apply_loop e s
      in if log_len (node_log s) > log_compaction_threshold (config s) then compact_log s else s)"

definition advance_commit :: "'sm env \<Rightarrow> log_index \<Rightarrow> 'sm raft_node \<Rightarrow> 'sm raft_node" where
  "advance_commit e new_commit s =
     (let s = s\<lparr>commit_index := new_commit\<rparr>;
          s = apply_entries e s;
          resolved = filter (\<lambda>idx. idx \<le> new_commit) (map fst (pending_proposals s))
      in fold (\<lambda>idx s. case map_of (pending_proposals s) idx of
                         Some r \<Rightarrow>
                           respond r (IndexReply (Inr idx))
                             (s\<lparr>pending_proposals := AList.delete idx (pending_proposals s)\<rparr>)
                       | None \<Rightarrow> s) resolved s)"

definition replicated_on :: "'sm raft_node \<Rightarrow> log_index \<Rightarrow> node_id fset" where
  "replicated_on s idx =
     fold (\<lambda>(pid, p) votes. if match_index p \<ge> idx then finsert pid votes else votes)
       (peers s) (finsert (self_id s) {||})"

definition maybe_advance_commit :: "'sm env \<Rightarrow> 'sm raft_node \<Rightarrow> 'sm raft_node" where
  "maybe_advance_commit e s =
     (if role s \<noteq> Leader then s
      else
        let last_idx = last_index (node_log s);
            new_commit =
              fold (\<lambda>idx nc.
                      case term_at (node_log s) idx of
                        Inl _ \<Rightarrow> nc
                      | Inr t \<Rightarrow>
                          if t \<noteq> current_term s then nc
                          else if has_quorum (membership s) (replicated_on s idx) then idx
                          else nc)
                [commit_index s + 1 ..< last_idx + 1] (commit_index s)
        in if new_commit > commit_index s then advance_commit e new_commit s else s)"

definition active_count :: "'sm raft_node \<Rightarrow> usize" where
  "active_count s = length (filter (\<lambda>(_, p). recent_active p) (peers s)) + 1"

definition maybe_flush_reads :: "'sm raft_node \<Rightarrow> 'sm raft_node" where
  "maybe_flush_reads s =
     (if queue_is_empty (read_only s) then s
      else
        let quor = quorum (fcard (voters (membership s)));
            active = active_count s
        in if active \<ge> quor
           then let (ro, ready) = ack (read_only s) (self_id s) quor
                in fold (\<lambda>req s. if last_applied s \<ge> rr_index req
                                then respond (rr_resp req) (IndexReply (Inr (rr_index req))) s
                                else respond (rr_resp req) (IndexReply (Inr (rr_index req))) s)
                     ready (s\<lparr>read_only := ro\<rparr>)
           else s)"

definition do_check_quorum :: "'sm env \<Rightarrow> 'sm raft_node \<Rightarrow> 'sm raft_node" where
  "do_check_quorum e s =
     (if role s \<noteq> Leader then s
      else
        let quor = quorum (fcard (voters (membership s)));
            active = active_count s;
            s = s\<lparr>peers := map (\<lambda>(i, p). (i, p\<lparr>recent_active := False\<rparr>)) (peers s)\<rparr>
        in if active < quor then become_follower e (current_term s) None s else s)"

subsection \<open>Message handlers\<close>

definition log_ok :: "'sm raft_node \<Rightarrow> request_vote \<Rightarrow> bool" where
  "log_ok s msg =
     (rv_last_log_term msg > last_term (node_log s) \<or>
      (rv_last_log_term msg = last_term (node_log s) \<and>
       rv_last_log_index msg \<ge> last_index (node_log s)))"

definition handle_request_vote ::
  "'sm env \<Rightarrow> node_id \<Rightarrow> request_vote \<Rightarrow> 'sm raft_node \<Rightarrow> 'sm raft_node" where
  "handle_request_vote e from msg s =
     (let grant =
            (if rv_pre_vote msg
             then log_ok s msg \<and> election_elapsed s \<ge> election_timeout s div 2
             else let can_vote = (voted_for s = None \<or> voted_for s = Some (rv_candidate_id msg))
                  in log_ok s msg \<and> can_vote);
          s = (if grant \<and> \<not> rv_pre_vote msg
               then s\<lparr>voted_for := Some (rv_candidate_id msg), election_elapsed := 0\<rparr> else s)
      in send from
           (RequestVoteReply \<lparr>rvr_term = current_term s, rvr_vote_granted = grant,
                              rvr_pre_vote = rv_pre_vote msg\<rparr>) s)"

text \<open>
  \<open>voters - quorum(voters) + 1\<close> on \<open>usize\<close>: with no voters the subtraction wraps and adding
  one brings it back to 0, which is what integer arithmetic gives.
\<close>

definition rejections_needed :: "membership_config \<Rightarrow> usize" where
  "rejections_needed m =
     (let n = fcard (voters m) in nat (int n - int (quorum n) + 1))"

definition handle_request_vote_reply ::
  "'sm env \<Rightarrow> node_id \<Rightarrow> request_vote_reply \<Rightarrow> 'sm raft_node \<Rightarrow> 'sm raft_node" where
  "handle_request_vote_reply e from msg s =
     (if rvr_pre_vote msg
      then if role s \<noteq> PreCandidate then s
           else if rvr_vote_granted msg
           then let s = s\<lparr>pre_votes_received := finsert from (pre_votes_received s)\<rparr>
                in if has_quorum (membership s) (pre_votes_received s)
                   then campaign_real e s else s
           else s
      else if role s \<noteq> Candidate then s
      else if rvr_vote_granted msg
      then let s = s\<lparr>votes_received := finsert from (votes_received s)\<rparr>
           in if has_quorum (membership s) (votes_received s) then become_leader e s else s
      else let s = s\<lparr>votes_rejected := finsert from (votes_rejected s)\<rparr>
           in if fcard (votes_rejected s) \<ge> rejections_needed (membership s)
              then become_follower e (current_term s) None s else s)"

fun first_index_in :: "mem_log \<Rightarrow> raft_term \<Rightarrow> log_index list \<Rightarrow> log_index option" where
  "first_index_in l trm [] = None"
| "first_index_in l trm (i # is) =
     (case term_at l i of
        Inr t \<Rightarrow> if t = trm then Some i else first_index_in l trm is
      | Inl _ \<Rightarrow> first_index_in l trm is)"

definition first_index_of_term :: "'sm raft_node \<Rightarrow> raft_term \<Rightarrow> log_index option" where
  "first_index_of_term s trm =
     first_index_in (node_log s) trm
       [first_index (node_log s) ..< last_index (node_log s) + 1]"

definition check_log_consistency ::
  "'sm raft_node \<Rightarrow> append_entries \<Rightarrow> bool \<times> log_index \<times> raft_term option" where
  "check_log_consistency s msg =
     (let prev = ae_prev_log_index msg
      in if prev = 0 then (True, 0, None)
         else case term_at (node_log s) prev of
                Inr t \<Rightarrow>
                  if t = ae_prev_log_term msg then (True, 0, None)
                  else (False,
                        (case first_index_of_term s t of Some i \<Rightarrow> i | None \<Rightarrow> prev), Some t)
              | Inl _ \<Rightarrow> (False, last_index (node_log s) + 1, None))"

definition handle_append_entries ::
  "'sm env \<Rightarrow> node_id \<Rightarrow> append_entries \<Rightarrow> 'sm raft_node \<Rightarrow> 'sm raft_node" where
  "handle_append_entries e from msg s =
     (let s = s\<lparr>election_elapsed := 0, leader_id := Some from\<rparr>;
          s = (if role s \<noteq> Follower then become_follower e (ae_term msg) (Some from) s else s);
          s = (case map_of (peers s) from of
                 Some peer \<Rightarrow>
                   set_peer from (peer\<lparr>recent_active := True, last_response := clock s\<rparr>) s
               | None \<Rightarrow> s);
          (success, conflict_index, conflict_term) = check_log_consistency s msg
      in if \<not> success
         then send from
                (AppendEntriesReply
                   \<lparr>aer_term = current_term s, aer_success = False,
                    aer_conflict_index = conflict_index, aer_conflict_term = conflict_term,
                    aer_last_log_index = last_index (node_log s), aer_seq = ae_seq msg\<rparr>) s
         else
           let s = (if ae_entries msg \<noteq> []
                    then s\<lparr>node_log := log_append (node_log s) (ae_entries msg)\<rparr> else s);
               s = (if ae_leader_commit msg > commit_index s
                    then advance_commit e
                           (min (ae_leader_commit msg) (last_index (node_log s))) s
                    else s)
           in send from
                (AppendEntriesReply
                   \<lparr>aer_term = current_term s, aer_success = True, aer_conflict_index = 0,
                    aer_conflict_term = None, aer_last_log_index = last_index (node_log s),
                    aer_seq = ae_seq msg\<rparr>) s)"

text \<open>The backward scan of fast log backtracking, over the indices from last to first.\<close>

fun last_match :: "mem_log \<Rightarrow> raft_term \<Rightarrow> log_index list \<Rightarrow> log_index option" where
  "last_match l ct [] = None"
| "last_match l ct (i # is) =
     (case term_at l i of
        Inr t \<Rightarrow> if t = ct then Some i else if t < ct then None else last_match l ct is
      | Inl _ \<Rightarrow> last_match l ct is)"

definition on_append_reply ::
  "mem_log \<Rightarrow> instant \<Rightarrow> append_entries_reply \<Rightarrow> peer_state \<Rightarrow> peer_state" where
  "on_append_reply l now msg peer =
     (let peer = peer\<lparr>inflight := inflight peer - 1, last_response := now,
                      recent_active := True\<rparr>
      in if aer_success msg
         then let peer = peer\<lparr>match_index := max (match_index peer) (aer_last_log_index msg)\<rparr>
              in peer\<lparr>next_index := match_index peer + 1\<rparr>
         else
           let nxt = (case aer_conflict_term msg of
                        Some ct \<Rightarrow>
                          (case last_match l ct (rev [first_index l ..< last_index l + 1]) of
                             Some i \<Rightarrow> i + 1 | None \<Rightarrow> aer_conflict_index msg)
                      | None \<Rightarrow> max (aer_conflict_index msg) 1)
           in peer\<lparr>next_index := max nxt 1\<rparr>)"

definition handle_append_entries_reply ::
  "'sm env \<Rightarrow> node_id \<Rightarrow> append_entries_reply \<Rightarrow> 'sm raft_node \<Rightarrow> 'sm raft_node" where
  "handle_append_entries_reply e from msg s =
     (if role s \<noteq> Leader then s
      else case map_of (peers s) from of
             None \<Rightarrow> s
           | Some peer \<Rightarrow>
               (let s = set_peer from (on_append_reply (node_log s) (clock s) msg peer) s
                in if aer_success msg
                   then maybe_flush_reads (replicate_to e from (maybe_advance_commit e s))
                   else replicate_to e from s))"

definition apply_snapshot :: "'sm env \<Rightarrow> snapshot \<Rightarrow> 'sm raft_node \<Rightarrow> 'sm raft_node" where
  "apply_snapshot e snap s =
     (let meta = snap_meta snap
      in if meta_index meta \<le> commit_index s then s
         else case sm_restore (machine e) (snap_data snap) (state_machine s) of
                (Inl _, sm) \<Rightarrow> s\<lparr>state_machine := sm\<rparr>
              | (Inr _, sm) \<Rightarrow>
                  s\<lparr>state_machine := sm,
                    node_log := compact (node_log s) (meta_index meta) (meta_term meta),
                    commit_index := meta_index meta, last_applied := meta_index meta,
                    membership := meta_membership meta\<rparr>)"

definition handle_install_snapshot ::
  "'sm env \<Rightarrow> node_id \<Rightarrow> install_snapshot \<Rightarrow> 'sm raft_node \<Rightarrow> 'sm raft_node" where
  "handle_install_snapshot e from msg s =
     (let s = s\<lparr>election_elapsed := 0, leader_id := Some from\<rparr>;
          recv = (case snap_receiver s of Some r \<Rightarrow> r | None \<Rightarrow> new_receiver);
          chunk = \<lparr>chunk_meta = is_meta msg, chunk_offset = is_offset msg,
                   chunk_data = is_data msg, chunk_done = is_done msg\<rparr>;
          bytes_stored = chunk_offset chunk + length (chunk_data chunk);
          (recv, out) = feed recv chunk;
          s = (case out of
                 Some snap \<Rightarrow> apply_snapshot e snap (s\<lparr>snap_receiver := None\<rparr>)
               | None \<Rightarrow> s\<lparr>snap_receiver := Some recv\<rparr>)
      in send from
           (InstallSnapshotReply \<lparr>isr_term = current_term s, isr_success = True,
                                  isr_bytes_stored = bytes_stored\<rparr>) s)"

definition handle_install_snapshot_reply ::
  "'sm env \<Rightarrow> node_id \<Rightarrow> install_snapshot_reply \<Rightarrow> 'sm raft_node \<Rightarrow> 'sm raft_node" where
  "handle_install_snapshot_reply e from msg s =
     (if role s \<noteq> Leader then s
      else
        let s = (case map_of (peers s) from of
                   None \<Rightarrow> s
                 | Some peer \<Rightarrow>
                     (let peer = peer\<lparr>snapshot_in_progress := False\<rparr>;
                          snap_idx = snapshot_index (node_log s);
                          peer = (if isr_success msg
                                  then peer\<lparr>match_index := snap_idx, next_index := snap_idx + 1\<rparr>
                                  else peer)
                      in set_peer from peer s))
        in maybe_advance_commit e s)"

definition handle_timeout_now ::
  "'sm env \<Rightarrow> node_id \<Rightarrow> timeout_now \<Rightarrow> 'sm raft_node \<Rightarrow> 'sm raft_node" where
  "handle_timeout_now e from msg s =
     (if self_id s |\<in>| learners (membership s) then s
      else let s = s\<lparr>election_elapsed := election_timeout s\<rparr>
           in campaign e (pre_vote (config s)) s)"

definition handle_read_index_request ::
  "'sm env \<Rightarrow> node_id \<Rightarrow> read_index_request \<Rightarrow> 'sm raft_node \<Rightarrow> 'sm raft_node" where
  "handle_read_index_request e from msg s =
     (if role s \<noteq> Leader
      then send from
             (ReadIndexReply \<lparr>rip_term = current_term s, rip_id = rir_id msg,
                              rip_read_index = 0, rip_success = False\<rparr>) s
      else if mode (read_only s) = LeaseRead \<and> lease_is_valid (clock s) (lease s)
      then send from
             (ReadIndexReply \<lparr>rip_term = current_term s, rip_id = rir_id msg,
                              rip_read_index = commit_index s, rip_success = True\<rparr>) s
      else send from
             (ReadIndexReply \<lparr>rip_term = current_term s, rip_id = rir_id msg,
                              rip_read_index = commit_index s, rip_success = True\<rparr>) s)"

definition handle_read_index_reply ::
  "'sm env \<Rightarrow> node_id \<Rightarrow> read_index_reply \<Rightarrow> 'sm raft_node \<Rightarrow> 'sm raft_node" where
  "handle_read_index_reply e from msg s = s"

subsection \<open>Step: dispatch of an incoming message\<close>

fun is_pre_vote_request :: "raft_message \<Rightarrow> bool" where
  "is_pre_vote_request (RequestVote rv) = rv_pre_vote rv"
| "is_pre_vote_request _ = False"

fun is_pre_vote_reply :: "raft_message \<Rightarrow> bool" where
  "is_pre_vote_reply (RequestVoteReply rv) = rvr_pre_vote rv"
| "is_pre_vote_reply _ = False"

fun msg_leader :: "raft_message \<Rightarrow> node_id option" where
  "msg_leader (AppendEntries m) = Some (ae_leader_id m)"
| "msg_leader (InstallSnapshot m) = Some (is_leader_id m)"
| "msg_leader _ = None"

definition dispatch ::
  "'sm env \<Rightarrow> node_id \<Rightarrow> raft_message \<Rightarrow> 'sm raft_node \<Rightarrow> 'sm raft_node" where
  "dispatch e from msg s =
     (case msg of
        RequestVote m \<Rightarrow> handle_request_vote e from m s
      | RequestVoteReply m \<Rightarrow> handle_request_vote_reply e from m s
      | AppendEntries m \<Rightarrow> handle_append_entries e from m s
      | AppendEntriesReply m \<Rightarrow> handle_append_entries_reply e from m s
      | InstallSnapshot m \<Rightarrow> handle_install_snapshot e from m s
      | InstallSnapshotReply m \<Rightarrow> handle_install_snapshot_reply e from m s
      | TimeoutNow m \<Rightarrow> handle_timeout_now e from m s
      | ReadIndexRequest m \<Rightarrow> handle_read_index_request e from m s
      | ReadIndexReply m \<Rightarrow> handle_read_index_reply e from m s)"

definition step ::
  "'sm env \<Rightarrow> node_id \<Rightarrow> raft_message \<Rightarrow> 'sm raft_node \<Rightarrow> 'sm raft_node" where
  "step e from msg s =
     (let s = (if msg_term msg > current_term s \<and> \<not> is_pre_vote_request msg
               then become_follower e (msg_term msg) (msg_leader msg) s else s)
      in if msg_term msg < current_term s \<and> \<not> is_pre_vote_reply msg then s
         else dispatch e from msg s)"

subsection \<open>Commands\<close>

definition initiate_transfer ::
  "'sm env \<Rightarrow> node_id \<Rightarrow> 'sm raft_node \<Rightarrow> unit ha_result \<times> 'sm raft_node" where
  "initiate_transfer e to s =
     (if role s \<noteq> Leader then (Inl (NotLeader (leader_id s)), s)
      else if to |\<notin>| voters (membership s) then (Inl (NodeNotFound to), s)
      else
        let s = s\<lparr>transfer_to := Some to, transfer_elapsed := 0\<rparr>;
            s = replicate_to e to s;
            target_match = (case map_of (peers s) to of
                              Some p \<Rightarrow> match_index p | None \<Rightarrow> 0)
        in (Inr (),
            if target_match \<ge> last_index (node_log s)
            then send to (TimeoutNow \<lparr>tn_term = current_term s, tn_from = self_id s\<rparr>) s
            else s))"

definition cmd_propose :: "'sm env \<Rightarrow> bytes \<Rightarrow> rid \<Rightarrow> 'sm raft_node \<Rightarrow> 'sm raft_node" where
  "cmd_propose e data resp s =
     (if role s \<noteq> Leader then respond resp (IndexReply (Inl (NotLeader (leader_id s)))) s
      else if transfer_to s \<noteq> None then respond resp (IndexReply (Inl TransferInProgress)) s
      else
        let index = last_index (node_log s) + 1;
            s = s\<lparr>node_log := log_append (node_log s) [new_normal index (current_term s) data],
                  pending_proposals := AList.update index resp (pending_proposals s)\<rparr>;
            s = broadcast_append_entries e s
        in if fcard (voters (membership s)) = 1 then advance_commit e index s else s)"

definition cmd_read_index :: "'sm env \<Rightarrow> rid \<Rightarrow> 'sm raft_node \<Rightarrow> 'sm raft_node" where
  "cmd_read_index e resp s =
     (if role s \<noteq> Leader then respond resp (IndexReply (Inl (NotLeader (leader_id s)))) s
      else if mode (read_only s) = LeaseRead \<and> lease_is_valid (clock s) (lease s)
      then respond resp (IndexReply (Inr (commit_index s))) s
      else broadcast_heartbeat e
             (s\<lparr>read_only := fst (add_read (read_only s) (commit_index s) resp)\<rparr>))"

definition cmd_add_node :: "'sm env \<Rightarrow> node_info \<Rightarrow> rid \<Rightarrow> 'sm raft_node \<Rightarrow> 'sm raft_node" where
  "cmd_add_node e node resp s =
     (if role s \<noteq> Leader then respond resp (UnitReply (Inl (NotLeader (leader_id s)))) s
      else
        let (new_voters, new_learners) =
              (if info_is_learner node
               then (voters (membership s), finsert (info_id node) (learners (membership s)))
               else (finsert (info_id node) (voters (membership s)),
                     learners (membership s) |-| {|info_id node|}));
            joint_cfg = \<lparr>voters = new_voters, learners = new_learners,
                         voters_outgoing = Some (voters (membership s)), auto_leave = True\<rparr>;
            s = append_membership_change e joint_cfg s;
            nxt = last_index (node_log s) + 1;
            s = (if contains_key (peers s) (info_id node) then s
                 else set_peer (info_id node) (new_peer (clock s) nxt) s)
        in respond resp (UnitReply (Inr ())) s)"

definition cmd_remove_node :: "'sm env \<Rightarrow> node_id \<Rightarrow> rid \<Rightarrow> 'sm raft_node \<Rightarrow> 'sm raft_node" where
  "cmd_remove_node e i resp s =
     (if role s \<noteq> Leader then respond resp (UnitReply (Inl (NotLeader (leader_id s)))) s
      else
        let joint_cfg = \<lparr>voters = voters (membership s) |-| {|i|},
                         learners = learners (membership s),
                         voters_outgoing = Some (voters (membership s)), auto_leave = True\<rparr>;
            s = append_membership_change e joint_cfg s;
            s = respond resp (UnitReply (Inr ())) s
        in if i = self_id s then become_follower e (current_term s) None s else s)"

definition node_status_of :: "'sm raft_node \<Rightarrow> node_status" where
  "node_status_of s =
     \<lparr>status_id = self_id s, status_role = role_to_string (role s),
      status_term = current_term s, status_commit_index = commit_index s,
      status_last_applied = last_applied s, status_leader_id = leader_id s,
      status_membership = membership s, status_last_log_index = last_index (node_log s),
      status_last_log_term = last_term (node_log s)\<rparr>"

text \<open>\<open>handle_cmd\<close>: the answer \<open>true\<close> (shut down) ends the actor.\<close>

definition handle_cmd :: "'sm env \<Rightarrow> node_cmd \<Rightarrow> 'sm raft_node \<Rightarrow> bool \<times> 'sm raft_node" where
  "handle_cmd e cmd s =
     (case cmd of
        Propose data resp \<Rightarrow> (False, cmd_propose e data resp s)
      | ReadIndexCmd resp \<Rightarrow> (False, cmd_read_index e resp s)
      | AddNode node resp \<Rightarrow> (False, cmd_add_node e node resp s)
      | RemoveNode i resp \<Rightarrow> (False, cmd_remove_node e i resp s)
      | TransferLeadership to resp \<Rightarrow>
          (let (result, s) = initiate_transfer e to s
           in (False, respond resp (UnitReply result) s))
      | TriggerSnapshot resp \<Rightarrow>
          (False, compact_log (s\<lparr>pending_snapshot_resp := Some resp\<rparr>))
      | Status resp \<Rightarrow> (False, respond resp (StatusReply (node_status_of s)) s)
      | ShutdownCmd \<Rightarrow> (True, s))"

subsection \<open>Tick and the actor loop\<close>

definition tick :: "'sm env \<Rightarrow> 'sm raft_node \<Rightarrow> 'sm raft_node" where
  "tick e s =
     (let s = s\<lparr>election_elapsed := election_elapsed s + 1,
                heartbeat_elapsed := heartbeat_elapsed s + 1\<rparr>
      in if role s \<noteq> Leader
         then if election_elapsed s \<ge> election_timeout s
              then campaign e (pre_vote (config s)) (s\<lparr>election_elapsed := 0\<rparr>)
              else s
         else
           let s = (if heartbeat_elapsed s \<ge> heartbeat_interval (config s)
                    then broadcast_heartbeat e (s\<lparr>heartbeat_elapsed := 0\<rparr>) else s);
               s = (if check_quorum (config s)
                    then let s = s\<lparr>check_quorum_elapsed := check_quorum_elapsed s + 1\<rparr>
                         in if check_quorum_elapsed s \<ge> check_quorum_interval (config s)
                            then do_check_quorum e (s\<lparr>check_quorum_elapsed := 0\<rparr>) else s
                    else s)
           in if transfer_to s \<noteq> None
              then let s = s\<lparr>transfer_elapsed := transfer_elapsed s + 1\<rparr>
                   in if transfer_elapsed s \<ge> leadership_transfer_timeout (config s)
                      then s\<lparr>transfer_to := None, transfer_elapsed := 0\<rparr> else s
              else s)"

definition run_start :: "'sm env \<Rightarrow> 'sm raft_node \<Rightarrow> 'sm raft_node" where
  "run_start e s =
     (if fcard (voters (membership s)) = 1 \<and> self_id s |\<in>| voters (membership s)
      then campaign e False s else s)"

datatype node_event = Tick | Message node_id raft_message | Command node_cmd

text \<open>One turn of the \<open>select!\<close> loop in \<open>run\<close>.\<close>

definition node_step :: "'sm env \<Rightarrow> node_event \<Rightarrow> 'sm raft_node \<Rightarrow> 'sm raft_node" where
  "node_step e ev s =
     (if halted s then s
      else case ev of
             Tick \<Rightarrow> tick e s
           | Message from msg \<Rightarrow> step e from msg s
           | Command cmd \<Rightarrow>
               (let (stop, s) = handle_cmd e cmd s
                in if stop then s\<lparr>halted := True\<rparr> else s))"

end
