(* ===== verification/Raft_Election.thy ===== *)
theory Raft_Election
  imports Raft_Types
begin

section \<open>Abstract specification of elections\<close>

text \<open>
  What an election promises, without logs, timers or messages: each node has a term, a vote, a
  role and the votes it counted; the votes given so far are a set of triples (voter, candidate,
  term). \<open>nstep\<close> lists what one node may do, \<open>vote_step\<close> lifts it to the cluster. The
  invariant \<open>election_inv\<close> gives that two leaders of one term are the same node. The detailed
  node is shown to refine this specification in theory \<open>Raft_Cluster\<close>.
\<close>

record vote_view =
  vv_id :: node_id
  vv_term :: raft_term
  vv_voted :: "node_id option"
  vv_role :: role
  vv_votes :: "node_id fset"

text \<open>
  One node's moves. \<open>R\<close> is the set of votes it has received, as (voter, term); the second
  component of a state is the set of votes it has given, as (candidate, term).
\<close>

inductive nstep ::
  "membership_config \<Rightarrow> (node_id \<times> raft_term) set \<Rightarrow>
   vote_view \<times> (node_id \<times> raft_term) set \<Rightarrow> vote_view \<times> (node_id \<times> raft_term) set \<Rightarrow> bool"
  for M R where
  bump: "vv_term v < t \<Longrightarrow>
     nstep M R (v, G)
       (v\<lparr>vv_term := t, vv_voted := None, vv_role := Follower, vv_votes := w\<rparr>, G)"
| demote: "r \<notin> {Candidate, Leader} \<Longrightarrow>
     nstep M R (v, G) (v\<lparr>vv_role := r, vv_votes := w\<rparr>, G)"
| stand: "nstep M R (v, G)
       (v\<lparr>vv_term := Suc (vv_term v), vv_voted := Some (vv_id v), vv_role := Candidate,
          vv_votes := {|vv_id v|}\<rparr>, G)"
| vote: "vv_voted v = None \<or> vv_voted v = Some c \<Longrightarrow> G \<subseteq> G' \<Longrightarrow>
     G' \<subseteq> insert (c, vv_term v) G \<Longrightarrow>
     nstep M R (v, G) (v\<lparr>vv_voted := Some c\<rparr>, G')"
| collect: "vv_role v = Candidate \<Longrightarrow> (p, vv_term v) \<in> R \<Longrightarrow>
     nstep M R (v, G) (v\<lparr>vv_votes := finsert p (vv_votes v)\<rparr>, G)"
| win: "vv_role v = Candidate \<Longrightarrow> has_quorum M (vv_votes v) \<Longrightarrow>
     nstep M R (v, G) (v\<lparr>vv_role := Leader\<rparr>, G)"

abbreviation nsteps where "nsteps M R \<equiv> (nstep M R)\<^sup>*\<^sup>*"

type_synonym vote_state =
  "(node_id \<Rightarrow> vote_view) \<times> (node_id \<times> node_id \<times> raft_term) set"

definition given_by ::
  "node_id \<Rightarrow> (node_id \<times> node_id \<times> raft_term) set \<Rightarrow> (node_id \<times> raft_term) set" where
  "given_by i G = {(c, t). (i, c, t) \<in> G}"

definition received_by ::
  "node_id \<Rightarrow> (node_id \<times> node_id \<times> raft_term) set \<Rightarrow> (node_id \<times> raft_term) set" where
  "received_by i G = {(v, t). (v, i, t) \<in> G}"

inductive vote_step :: "membership_config \<Rightarrow> vote_state \<Rightarrow> vote_state \<Rightarrow> bool" for M where
  "nstep M (received_by i G) (V i, given_by i G) (v', Gi') \<Longrightarrow>
   vote_step M (V, G) (V(i := v'), G \<union> {i} \<times> Gi')"

definition election_inv :: "membership_config \<Rightarrow> vote_state \<Rightarrow> bool" where
  "election_inv M = (\<lambda>(V, G).
     (\<forall>i. vv_id (V i) = i) \<and>
     (\<forall>v c t. (v, c, t) \<in> G \<longrightarrow>
        t \<le> vv_term (V v) \<and> (t = vv_term (V v) \<longrightarrow> vv_voted (V v) = Some c)) \<and>
     (\<forall>v c c' t. (v, c, t) \<in> G \<longrightarrow> (v, c', t) \<in> G \<longrightarrow> c = c') \<and>
     (\<forall>i. vv_role (V i) \<in> {Candidate, Leader} \<longrightarrow>
        vv_voted (V i) = Some i \<and>
        (\<forall>v. v |\<in>| vv_votes (V i) \<longrightarrow> v = i \<or> (v, i, vv_term (V i)) \<in> G)) \<and>
     (\<forall>i. vv_role (V i) = Leader \<longrightarrow> has_quorum M (vv_votes (V i))))"

lemma election_invD:
  assumes "election_inv M (V, G)"
  shows "vv_id (V i) = i"
    and "(v, c, t) \<in> G \<Longrightarrow> t \<le> vv_term (V v)"
    and "(v, c, vv_term (V v)) \<in> G \<Longrightarrow> vv_voted (V v) = Some c"
    and "(v, c, t) \<in> G \<Longrightarrow> (v, c', t) \<in> G \<Longrightarrow> c = c'"
    and "vv_role (V i) = Candidate \<or> vv_role (V i) = Leader \<Longrightarrow> vv_voted (V i) = Some i"
    and "vv_role (V i) = Candidate \<or> vv_role (V i) = Leader \<Longrightarrow> v |\<in>| vv_votes (V i) \<Longrightarrow>
           v = i \<or> (v, i, vv_term (V i)) \<in> G"
    and "vv_role (V i) = Leader \<Longrightarrow> has_quorum M (vv_votes (V i))"
  using assms by (auto simp: election_inv_def)

lemma election_inv_update:
  assumes "election_inv M (V, G)" and "G \<subseteq> G'"
    and "vv_id v = i" and "vv_term (V i) \<le> vv_term v"
    and "\<And>a c t. (a, c, t) \<in> G' \<Longrightarrow> (a, c, t) \<notin> G \<Longrightarrow>
           a = i \<and> t = vv_term v \<and> vv_voted v = Some c"
    and "\<And>c. (i, c, vv_term v) \<in> G \<Longrightarrow> vv_voted v = Some c"
    and "vv_role v \<in> {Candidate, Leader} \<Longrightarrow> vv_voted v = Some i"
    and "\<And>a. vv_role v \<in> {Candidate, Leader} \<Longrightarrow> a |\<in>| vv_votes v \<Longrightarrow>
           a = i \<or> (a, i, vv_term v) \<in> G'"
    and "vv_role v = Leader \<Longrightarrow> has_quorum M (vv_votes v)"
  shows "election_inv M (V(i := v), G')"
proof -
  note inv = election_invD [OF assms(1)]
  have 2: "t \<le> vv_term ((V(i := v)) a) \<and>
      (t = vv_term ((V(i := v)) a) \<longrightarrow> vv_voted ((V(i := v)) a) = Some c)"
    if "(a, c, t) \<in> G'" for a c t
  proof (cases "(a, c, t) \<in> G")
    case True
    have "t \<le> vv_term (V a)" using inv(2) [OF True] .
    moreover have "t = vv_term (V a) \<Longrightarrow> vv_voted (V a) = Some c" using inv(3) True by blast
    moreover have "a = i \<Longrightarrow> t = vv_term v \<Longrightarrow> vv_voted v = Some c" using assms(6) True by blast
    ultimately show ?thesis using assms(4) by auto
  next
    case False
    then show ?thesis using assms(5) [OF that] by simp
  qed
  have 3: "c = c'" if "(a, c, t) \<in> G'" "(a, c', t) \<in> G'" for a c c' t
  proof (cases "(a, c, t) \<in> G \<and> (a, c', t) \<in> G")
    case True
    then show ?thesis using inv(4) by blast
  next
    case False
    then have "a = i \<and> t = vv_term v" using assms(5) that by blast
    then show ?thesis using 2 that by (metis fun_upd_same option.inject)
  qed
  have 6: "a = j \<or> (a, j, vv_term ((V(i := v)) j)) \<in> G'"
    if "vv_role ((V(i := v)) j) \<in> {Candidate, Leader}" "a |\<in>| vv_votes ((V(i := v)) j)" for a j
    using that assms(2,8) inv(6) [of j a] by (auto split: if_splits)
  show ?thesis
    unfolding election_inv_def using 2 3 6 assms(3,7,9) inv(1,5,7) by auto
qed

text \<open>Every move keeps the invariant.\<close>

lemma vote_step_inv:
  assumes "vote_step M S S'" and "election_inv M S"
  shows "election_inv M S'"
  using assms
proof (cases rule: vote_step.cases)
  case (1 i G V v' Gi')
  note inv = election_invD [OF assms(2) [unfolded 1(1)]]
  have v: "vv_id v' = i \<and> vv_term (V i) \<le> vv_term v' \<and> given_by i G \<subseteq> Gi'"
    using 1(3) inv(1) [of i] by (cases rule: nstep.cases) auto
  have g: "c = d" if "vv_voted (V i) = None \<or> vv_voted (V i) = Some c"
    "(i, d, vv_term (V i)) \<in> G" for c d
    using inv(3) [OF that(2)] that(1) by simp
  show ?thesis
    unfolding 1(2)
  proof (rule election_inv_update [OF assms(2) [unfolded 1(1)]])
    show "vv_voted v' = Some c" if "(i, c, vv_term v') \<in> G" for c
      using 1(3)
    proof (cases rule: nstep.cases)
      case (vote d)
      then show ?thesis using g that by auto
    qed (use that inv(2) [OF that] inv(3) [of i c] in auto)
    show "a = i \<and> t = vv_term v' \<and> vv_voted v' = Some c"
      if "(a, c, t) \<in> G \<union> {i} \<times> Gi'" "(a, c, t) \<notin> G" for a c t
      using 1(3) that by (cases rule: nstep.cases) (auto simp: given_by_def)
    show "vv_voted v' = Some i" if "vv_role v' \<in> {Candidate, Leader}"
      using 1(3) that inv(1,5) [of i] by (cases rule: nstep.cases) auto
    show "a = i \<or> (a, i, vv_term v') \<in> G \<union> {i} \<times> Gi'"
      if "vv_role v' \<in> {Candidate, Leader}" "a |\<in>| vv_votes v'" for a
      using 1(3) that inv(1) [of i] inv(6) [of i a]
      by (cases rule: nstep.cases) (auto simp: received_by_def)
    show "has_quorum M (vv_votes v')" if "vv_role v' = Leader"
      using 1(3) that inv(7) [of i] by (cases rule: nstep.cases) auto
  qed (use v in auto)
qed

lemma vote_steps_inv: "(vote_step M)\<^sup>*\<^sup>* S S' \<Longrightarrow> election_inv M S \<Longrightarrow> election_inv M S'"
  by (induction rule: rtranclp_induct) (auto intro: vote_step_inv)

text \<open>The promise: one leader per term.\<close>

lemma election_inv_safety:
  assumes inv: "election_inv M (V, G)"
    and "vv_role (V i) = Leader" and "vv_role (V j) = Leader"
    and t: "vv_term (V i) = vv_term (V j)"
  shows "i = j"
proof -
  define choice where "choice v c \<longleftrightarrow>
    (v, c, vv_term (V i)) \<in> G \<or> (v = c \<and> vv_term (V v) = vv_term (V i) \<and> vv_voted (V v) = Some v)"
    for v c
  note I = election_invD [OF inv]
  have ci: "choice v i" if "v |\<in>| vv_votes (V i)" for v
    using I(5,6) [of i] assms(2) that by (auto simp: choice_def)
  have cj: "choice v j" if "v |\<in>| vv_votes (V j)" for v
    using I(5,6) [of j] assms(3) that by (auto simp: choice_def t)
  have "x = y" if "choice v x" "choice v y" for v x y
    using that I(4) [of v x _ y] I(3) [of v x] I(3) [of v y] by (auto simp: choice_def)
  from mq.quorum_choice_unique [OF I(7) [OF assms(2)] I(7) [OF assms(3)], of choice i j]
    this ci cj show ?thesis by blast
qed

text \<open>Moves of one node in a row are moves of the cluster.\<close>

lemma nstep_mono: "nstep M R x y \<Longrightarrow> R \<subseteq> R' \<Longrightarrow> nstep M R' x y"
  by (induction rule: nstep.induct) (auto intro: nstep.intros)

lemma nstep_grows: "nstep M R (v, G) (v', G') \<Longrightarrow> G \<subseteq> G'"
  by (cases rule: nstep.cases) auto

lemma nsteps_vote_steps:
  assumes "nsteps M (received_by i G) (V i, given_by i G) (v', Gi')"
  shows "(vote_step M)\<^sup>*\<^sup>* (V, G) (V(i := v'), G \<union> {i} \<times> Gi') \<and> given_by i G \<subseteq> Gi'"
  using assms
proof (induction rule: rtranclp_induct2)
  case refl
  have "G \<union> {i} \<times> given_by i G = G" by (auto simp: given_by_def)
  then show ?case by simp
next
  case (step v1 G1 v2 G2)
  let ?G = "G \<union> {i} \<times> G1"
  have "received_by i G \<subseteq> received_by i ?G" and g: "given_by i ?G = G1"
    using step.IH by (auto simp: received_by_def given_by_def)
  with step(2) have "nstep M (received_by i ?G) ((V(i := v1)) i, given_by i ?G) (v2, G2)"
    by (auto intro: nstep_mono)
  then have "vote_step M (V(i := v1), ?G) ((V(i := v1))(i := v2), ?G \<union> {i} \<times> G2)"
    by (rule vote_step.intros)
  moreover have "?G \<union> {i} \<times> G2 = G \<union> {i} \<times> G2"
    using nstep_grows [OF step(2)] by auto
  ultimately show ?case
    using step.IH nstep_grows [OF step(2)]
    by (metis fun_upd_upd order_trans rtranclp.rtrancl_into_rtrancl)
qed

text \<open>Votes given earlier do not restrict what a node may do next.\<close>

lemma nstep_frame: "nstep M R (v, G1) (v', G1') \<Longrightarrow> nstep M R (v, G \<union> G1) (v', G \<union> G1')"
  by (cases rule: nstep.cases) (auto intro: nstep.intros)

lemma nsteps_frame: "nsteps M R (v, G1) (v', G1') \<Longrightarrow> nsteps M R (v, G \<union> G1) (v', G \<union> G1')"
proof (induction rule: rtranclp_induct2)
  case (step v1 H1 v2 H2)
  then show ?case by (blast intro: nstep_frame rtranclp.rtrancl_into_rtrancl)
qed simp

end
