(* ===== verification/Raft_Cluster.thy ===== *)
theory Raft_Cluster
  imports Raft_Node Raft_Election
begin

section \<open>A cluster of nodes: election safety\<close>

text \<open>
  The nodes of theory \<open>Raft_Node\<close> connected by a network that may lose, duplicate, delay and
  reorder messages: a message once handed to the transport stays in a set from which it may be
  delivered at any time, any number of times or never. Every function of the node is shown to
  make only moves that the abstract specification of theory \<open>Raft_Election\<close> allows; the
  cluster therefore refines it, and election safety carries over.

  A node is not restarted: \<open>RaftNode::spawn\<close> always starts at term 0 with no vote, so a node
  that is restarted under the same id may vote twice in one term.
\<close>

definition view :: "'sm raft_node \<Rightarrow> vote_view" where
  "view s = \<lparr>vv_id = self_id s, vv_term = current_term s, vv_voted = voted_for s,
             vv_role = role s, vv_votes = votes_received s\<rparr>"

fun grants_vote :: "raft_message \<Rightarrow> bool" where
  "grants_vote (RequestVoteReply m) = (rvr_vote_granted m \<and> \<not> rvr_pre_vote m)"
| "grants_vote _ = False"

fun asks_for :: "raft_message \<Rightarrow> node_id option" where
  "asks_for (RequestVote m) = Some (rv_candidate_id m)"
| "asks_for _ = None"

definition granted :: "'sm raft_node \<Rightarrow> (node_id \<times> raft_term) set" where
  "granted s = {(to, msg_term m) | to m. (to, m) \<in> set (outbox s) \<and> grants_vote m}"

definition asks_for_self :: "'sm raft_node \<Rightarrow> bool" where
  "asks_for_self s \<longleftrightarrow> (\<forall>(to, m) \<in> set (outbox s). asks_for m \<in> {None, Some (self_id s)})"

definition moves ::
  "membership_config \<Rightarrow> (node_id \<times> raft_term) set \<Rightarrow> 'sm raft_node \<Rightarrow> 'sm raft_node \<Rightarrow> bool" where
  "moves M R s s' \<longleftrightarrow>
     nsteps M R (view s, granted s) (view s', granted s') \<and> (asks_for_self s \<longrightarrow> asks_for_self s')"

definition quiet :: "'sm raft_node \<Rightarrow> 'sm raft_node \<Rightarrow> bool" where
  "quiet s s' \<longleftrightarrow> view s' = view s \<and> granted s' = granted s \<and>
     (asks_for_self s \<longrightarrow> asks_for_self s')"

lemma moves_refl [simp, intro]: "moves M R s s"
  by (simp add: moves_def)

lemma moves_trans [trans]: "moves M R s t \<Longrightarrow> moves M R t u \<Longrightarrow> moves M R s u"
  by (auto simp: moves_def)

lemma quiet_moves: "quiet s s' \<Longrightarrow> moves M R s s'"
  by (auto simp: moves_def quiet_def)

lemma quiet_refl [simp, intro]: "quiet s s"
  by (simp add: quiet_def)

lemma quiet_trans [trans]: "quiet s t \<Longrightarrow> quiet t u \<Longrightarrow> quiet s u"
  by (auto simp: quiet_def)

lemma quiet_moves_trans: "quiet s t \<Longrightarrow> moves M R t u \<Longrightarrow> moves M R s u"
  by (blast intro: quiet_moves moves_trans)

lemma moves_quiet_trans: "moves M R s t \<Longrightarrow> quiet t u \<Longrightarrow> moves M R s u"
  by (blast intro: quiet_moves moves_trans)

lemma quiet_fold: "(\<And>x s. x \<in> set xs \<Longrightarrow> quiet s (f x s)) \<Longrightarrow> quiet s (fold f xs s)"
proof (induction xs arbitrary: s)
  case Nil
  then show ?case by simp
next
  case (Cons x xs)
  have "quiet s (f x s)" and "quiet (f x s) (fold f xs (f x s))"
    using Cons by simp_all
  then show ?case by (simp add: quiet_trans [of s "f x s"])
qed

text \<open>A change of fields that an election does not look at is quiet.\<close>

lemma quietI:
  assumes "self_id s' = self_id s" "current_term s' = current_term s" "voted_for s' = voted_for s"
    "role s' = role s" "votes_received s' = votes_received s" "outbox s' = outbox s"
  shows "quiet s s'"
  using assms by (simp add: quiet_def view_def granted_def asks_for_self_def)

subsection \<open>Quiet functions\<close>

lemma quiet_send:
  "\<not> grants_vote m \<Longrightarrow> asks_for m \<in> {None, Some (self_id s)} \<Longrightarrow> quiet s (send to m s)"
  by (auto simp: quiet_def send_def view_def granted_def asks_for_self_def)

lemma quiet_respond [simp]: "quiet s (respond r a s)"
  by (simp add: respond_def quietI)

lemma quiet_set_peer [simp]: "quiet s (set_peer p ps s)"
  by (simp add: set_peer_def quietI)

lemma quiet_randomize_timeout [simp]: "quiet s (randomize_timeout e s)"
  by (simp add: randomize_timeout_def quietI Let_def)

lemma quiet_send_snapshot_to [simp]: "quiet s (send_snapshot_to e p s)"
  by (auto simp: send_snapshot_to_def Let_def split: sum.splits option.splits
      intro!: quiet_fold quiet_send quietI)

lemma quiet_replicate_to [simp]: "quiet s (replicate_to e p s)"
  by (auto simp: replicate_to_def Let_def simp del: One_nat_def split: option.splits
      intro!: quiet_trans [OF quiet_set_peer quiet_send]
        quiet_trans [OF quiet_set_peer quiet_send_snapshot_to])

lemma quiet_broadcast_append_entries [simp]: "quiet s (broadcast_append_entries e s)"
  by (simp add: broadcast_append_entries_def quiet_fold)

lemma quiet_broadcast_heartbeat [simp]: "quiet s (broadcast_heartbeat e s)"
  unfolding broadcast_heartbeat_def Let_def
  by (rule quiet_trans [OF quietI quiet_fold]) simp_all

lemma quiet_send_to_voters:
  assumes "\<not> grants_vote m" "asks_for m \<in> {None, Some (self_id s)}"
  shows "quiet s (send_to_voters m s)"
proof -
  let ?f = "\<lambda>p s. if p \<noteq> self_id s then send p m s else s"
  have "quiet s' (fold ?f ps s')" if "self_id s' = self_id s" for ps s'
    using that
  proof (induction ps arbitrary: s')
    case (Cons p ps)
    have "quiet s' (?f p s')" and "self_id (?f p s') = self_id s"
      using assms Cons.prems by (auto intro: quiet_send)
    with Cons.IH [of "?f p s'"] show ?case by (auto intro: quiet_trans)
  qed simp
  then show ?thesis unfolding send_to_voters_def by blast
qed

lemma quiet_append_membership_change [simp]: "quiet s (append_membership_change e cfg s)"
  by (auto simp: append_membership_change_def Let_def split: sum.splits
      intro!: quiet_trans [OF quietI quiet_broadcast_append_entries])

lemma quiet_compact_log [simp]: "quiet s (compact_log s)"
  by (auto simp: compact_log_def Let_def respond_def split: option.splits intro!: quietI)

lemma quiet_apply_entry [simp]: "quiet s (apply_entry e ent s)"
  by (auto simp: apply_entry_def Let_def split: sum.splits
      intro!: quietI quiet_trans [OF quietI quiet_append_membership_change])

lemma quiet_apply_loop [simp]: "quiet s (apply_loop e s)"
proof (induction e s rule: apply_loop.induct)
  case (1 e s)
  let ?s = "s\<lparr>last_applied := last_applied s + 1\<rparr>"
  have s: "quiet s ?s" by (simp add: quietI)
  have "quiet s (apply_loop e (apply_entry e ent ?s))"
    if "last_applied s < commit_index s" "entry (node_log ?s) (last_applied ?s) = Inr ent" for ent
    using 1 [OF that(1) refl that(2)] quiet_apply_entry [of ?s e ent] s by (blast intro: quiet_trans)
  with s show ?case
    by (subst apply_loop.simps) (auto simp: Let_def split: sum.splits)
qed

lemma quiet_apply_entries [simp]: "quiet s (apply_entries e s)"
  by (simp add: apply_entries_def Let_def quiet_trans [OF quiet_apply_loop quiet_compact_log])

lemma quiet_advance_commit [simp]: "quiet s (advance_commit e k s)"
proof -
  have "quiet s (apply_entries e (s\<lparr>commit_index := k\<rparr>))"
    by (rule quiet_trans [OF _ quiet_apply_entries]) (simp add: quietI)
  then show ?thesis
    unfolding advance_commit_def Let_def
    by (rule quiet_trans)
      (auto intro!: quiet_fold quiet_trans [OF quietI quiet_respond] split: option.splits)
qed

lemma quiet_maybe_advance_commit [simp]: "quiet s (maybe_advance_commit e s)"
  by (simp add: maybe_advance_commit_def Let_def)

lemma quiet_maybe_flush_reads [simp]: "quiet s (maybe_flush_reads s)"
  by (auto simp: maybe_flush_reads_def Let_def split: prod.splits
      intro!: quiet_trans [OF quietI quiet_fold])

lemma quiet_apply_snapshot [simp]: "quiet s (apply_snapshot e snap s)"
  by (auto simp: apply_snapshot_def Let_def split: prod.splits sum.splits intro!: quietI)

subsection \<open>Moves of an election\<close>

lemma moves_demote:
  assumes "r \<notin> {Candidate, Leader}"
  shows "moves M R s (s\<lparr>role := r, votes_received := w\<rparr>)"
proof -
  have "nstep M R (view s, granted s) ((view s)\<lparr>vv_role := r, vv_votes := w\<rparr>, granted s)"
    using assms by (rule nstep.demote)
  then show ?thesis
    by (auto simp: moves_def view_def granted_def asks_for_self_def)
qed

lemma moves_bump:
  assumes "current_term s < t"
  shows "moves M R s
    (s\<lparr>current_term := t, voted_for := None, role := Follower, votes_received := w\<rparr>)"
proof -
  have "nstep M R (view s, granted s)
     ((view s)\<lparr>vv_term := t, vv_voted := None, vv_role := Follower, vv_votes := w\<rparr>, granted s)"
    by (rule nstep.bump) (simp add: view_def assms)
  then show ?thesis
    by (auto simp: moves_def view_def granted_def asks_for_self_def)
qed

lemma moves_stand:
  "moves M R s (s\<lparr>current_term := Suc (current_term s), voted_for := Some (self_id s),
                  role := Candidate, votes_received := {|self_id s|}\<rparr>)"
  using nstep.stand [of M R "view s" "granted s"]
  by (auto simp: moves_def view_def granted_def asks_for_self_def)

lemma moves_win:
  assumes "role s = Candidate" and "has_quorum M (votes_received s)"
  shows "moves M R s (s\<lparr>role := Leader\<rparr>)"
  using nstep.win [of "view s" M R "granted s"] assms
  by (auto simp: moves_def view_def granted_def asks_for_self_def)

lemma moves_collect:
  assumes "role s = Candidate" and "(p, current_term s) \<in> R"
  shows "moves M R s (s\<lparr>votes_received := finsert p (votes_received s)\<rparr>)"
  using nstep.collect [of "view s" p R M "granted s"] assms
  by (auto simp: moves_def view_def granted_def asks_for_self_def)

lemma quiet_fail_pending [simp]: "quiet s (fail_pending ldr s)"
  unfolding fail_pending_def Let_def drain_all_def prod.case
  by (rule quiet_trans [OF quiet_trans [OF quiet_trans [OF quietI quiet_fold] quietI] quiet_fold])
    (auto split: prod.splits)

lemma moves_become_follower: "moves M R s (become_follower e t ldr s)"
proof -
  define s1 where "s1 = (if role s = Leader then fail_pending ldr s else s)"
  define s2 where "s2 = (if t > current_term s1 then s1\<lparr>current_term := t, voted_for := None\<rparr> else s1)"
  have "quiet s s1" by (simp add: s1_def)
  moreover have "moves M R s1 (s2\<lparr>role := Follower, votes_received := {||}\<rparr>)"
    using moves_demote [of Follower M R s1] moves_bump [of s1 t M R] by (simp add: s2_def)
  moreover have "quiet (s2\<lparr>role := Follower, votes_received := {||}\<rparr>) (become_follower e t ldr s)"
    unfolding become_follower_def s1_def [symmetric] s2_def [symmetric] Let_def
      randomize_timeout_def by (simp add: quietI)
  ultimately show ?thesis by (blast intro: quiet_moves_trans moves_quiet_trans)
qed

lemma moves_become_candidate:
  "moves M R s (become_candidate e (current_term s + 1) s)"
  unfolding become_candidate_def
  by (rule moves_quiet_trans [OF moves_quiet_trans [OF moves_stand quietI] quiet_randomize_timeout])
    simp_all

lemma moves_become_leader:
  assumes "role s = Candidate" and "has_quorum M (votes_received s)"
  shows "moves M R s (become_leader e s)"
  unfolding become_leader_def Let_def
  by (rule moves_quiet_trans [OF moves_quiet_trans [OF moves_win [OF assms] quietI]
        quiet_broadcast_append_entries]) simp_all

text \<open>
  A node of the fixed configuration \<open>M\<close>: what campaigning relies on. A single voter that is
  no learner is its own quorum.
\<close>

definition member_of :: "membership_config \<Rightarrow> 'sm raft_node \<Rightarrow> bool" where
  "member_of M s \<longleftrightarrow> membership s = M \<and> voters_outgoing M = None \<and> self_id s |\<in>| all_nodes M"

lemma single_voter_quorum:
  assumes "member_of M s" "self_id s |\<notin>| learners M" "fcard (voters M) = 1"
    and "self_id s |\<in>| votes"
  shows "has_quorum M votes"
proof -
  have "self_id s |\<in>| voters M"
    using assms(1,2) by (auto simp: member_of_def all_nodes_def)
  with assms(3) have v: "voters M = {|self_id s|}"
    using fcard_seteq [of "{|self_id s|}" "voters M"] by (simp add: fcard_finsert)
  have "votes_in votes (voters M) = {|self_id s|}"
    unfolding v using assms(4) by (intro fset_eqI) auto
  then show ?thesis
    using assms(1) v by (simp add: has_quorum_iff majority_of_def member_of_def fcard_finsert)
qed

lemma become_candidate_frame [frame, simp]:
  "membership (become_candidate e t s) = membership s"
  "self_id (become_candidate e t s) = self_id s"
  "node_log (become_candidate e t s) = node_log s"
  "role (become_candidate e t s) = Candidate"
  "votes_received (become_candidate e t s) = {|self_id s|}"
  by (simp_all add: become_candidate_def randomize_timeout_def Let_def)

lemma moves_campaign_real:
  assumes "member_of M s"
  shows "moves M R s (campaign_real e s)"
proof (cases "self_id s |\<in>| learners M")
  case True
  with assms show ?thesis by (simp add: campaign_real_def member_of_def)
next
  case False
  let ?c = "become_candidate e (current_term s + 1) s"
  define m where "m = RequestVote \<lparr>rv_term = current_term s + 1, rv_candidate_id = self_id ?c,
      rv_last_log_index = last_index (node_log ?c), rv_last_log_term = last_term (node_log ?c),
      rv_pre_vote = False\<rparr>"
  have 1: "moves M R s (send_to_voters m ?c)"
    by (rule moves_quiet_trans [OF moves_become_candidate quiet_send_to_voters])
      (simp_all add: m_def)
  have M: "membership s = M" using assms by (simp add: member_of_def)
  have eq: "campaign_real e s = (if fcard (voters M) = 1
      then become_leader e (send_to_voters m ?c) else send_to_voters m ?c)"
    unfolding campaign_real_def Let_def m_def using False M by simp
  show ?thesis
  proof (cases "fcard (voters M) = 1")
    case True
    have "moves M R (send_to_voters m ?c) (become_leader e (send_to_voters m ?c))"
      using single_voter_quorum [OF assms False True, of "{|self_id s|}"]
      by (intro moves_become_leader) simp_all
    with 1 True show ?thesis unfolding eq by (auto intro: moves_trans)
  next
    case no: False
    then show ?thesis using 1 unfolding eq by simp
  qed
qed

lemma moves_campaign_pre_vote:
  assumes "member_of M s"
  shows "moves M R s (campaign_pre_vote e s)"
proof (cases "self_id s |\<in>| learners M")
  case True
  with assms show ?thesis by (simp add: campaign_pre_vote_def member_of_def)
next
  case False
  let ?c = "s\<lparr>role := PreCandidate, pre_votes_received := finsert (self_id s) {||}\<rparr>"
  define m where "m = RequestVote \<lparr>rv_term = current_term s + 1, rv_candidate_id = self_id s,
      rv_last_log_index = last_index (node_log s), rv_last_log_term = last_term (node_log s),
      rv_pre_vote = True\<rparr>"
  have "moves M R s ?c"
    by (rule moves_quiet_trans [OF moves_demote [of PreCandidate _ _ s "votes_received s"] quietI])
      simp_all
  then have 1: "moves M R s (send_to_voters m ?c)"
    by (rule moves_quiet_trans [OF _ quiet_send_to_voters]) (simp_all add: m_def)
  have M: "membership s = M" using assms by (simp add: member_of_def)
  have eq: "campaign_pre_vote e s = (if fcard (voters M) = 1
      then campaign_real e (send_to_voters m ?c) else send_to_voters m ?c)"
    unfolding campaign_pre_vote_def Let_def m_def using False M by simp
  have "moves M R (send_to_voters m ?c) (campaign_real e (send_to_voters m ?c))"
    using assms by (intro moves_campaign_real) (simp add: member_of_def)
  with 1 show ?thesis unfolding eq by (auto intro: moves_trans)
qed

lemma moves_campaign: "member_of M s \<Longrightarrow> moves M R s (campaign e pv s)"
  by (simp add: campaign_def moves_campaign_real moves_campaign_pre_vote)

subsection \<open>Moves of the message handlers\<close>

lemma moves_handle_request_vote:
  assumes "rv_pre_vote m \<or> rv_candidate_id m = from"
  shows "moves M R s (handle_request_vote e from m s)"
proof (cases "rv_pre_vote m")
  case True
  then show ?thesis
    by (auto simp: handle_request_vote_def Let_def intro!: quiet_moves quiet_send)
next
  case False
  show ?thesis
  proof (cases "log_ok s m \<and> (voted_for s = None \<or> voted_for s = Some (rv_candidate_id m))")
    case True
    let ?s = "send from (RequestVoteReply \<lparr>rvr_term = current_term s, rvr_vote_granted = True,
         rvr_pre_vote = False\<rparr>) (s\<lparr>voted_for := Some (rv_candidate_id m), election_elapsed := 0\<rparr>)"
    have "granted s \<subseteq> granted ?s" "granted ?s \<subseteq> insert (from, current_term s) (granted s)"
      by (auto simp: granted_def send_def)
    moreover have "view ?s = (view s)\<lparr>vv_voted := Some from\<rparr>" "vv_term (view s) = current_term s"
      "vv_voted (view s) = None \<or> vv_voted (view s) = Some from"
      using True False assms by (auto simp: view_def)
    ultimately have "nstep M R (view s, granted s) (view ?s, granted ?s)"
      using nstep.vote [of "view s" "from" "granted s" "granted ?s" M R] by simp
    moreover have "asks_for_self s \<longrightarrow> asks_for_self ?s"
      by (auto simp: asks_for_self_def send_def)
    ultimately show ?thesis
      using True False by (auto simp: handle_request_vote_def Let_def moves_def)
  next
    case no: False
    then show ?thesis
      using False by (auto simp: handle_request_vote_def Let_def intro!: quiet_moves quiet_send)
  qed
qed

lemma moves_handle_request_vote_reply:
  assumes "member_of M s"
    and "rvr_vote_granted m \<Longrightarrow> \<not> rvr_pre_vote m \<Longrightarrow> role s = Candidate \<Longrightarrow> (from, current_term s) \<in> R"
  shows "moves M R s (handle_request_vote_reply e from m s)"
proof (cases "rvr_pre_vote m")
  case True
  let ?s = "s\<lparr>pre_votes_received := finsert from (pre_votes_received s)\<rparr>"
  have "quiet s ?s" and "moves M R ?s (campaign_real e ?s)"
    using assms(1) by (auto intro!: quietI moves_campaign_real simp: member_of_def)
  with True show ?thesis
    by (auto simp: handle_request_vote_reply_def Let_def intro: quiet_moves quiet_moves_trans)
next
  case False
  let ?g = "s\<lparr>votes_received := finsert from (votes_received s)\<rparr>"
  let ?r = "s\<lparr>votes_rejected := finsert from (votes_rejected s)\<rparr>"
  have "moves M R s ?g" if "role s = Candidate" "rvr_vote_granted m"
    using assms(2) that False by (intro moves_collect) auto
  moreover have "moves M R ?g (become_leader e ?g)"
    if "role s = Candidate" "has_quorum (membership ?g) (votes_received ?g)"
    using that assms(1) by (intro moves_become_leader) (auto simp: member_of_def)
  moreover have "moves M R s ?r" by (simp add: quiet_moves quietI)
  moreover have "moves M R s (become_follower e (current_term ?r) None ?r)"
    using calculation(3) moves_become_follower by (rule moves_trans)
  ultimately show ?thesis
    using False by (auto simp: handle_request_vote_reply_def Let_def intro: moves_trans)
qed

lemma moves_handle_append_entries: "moves M R s (handle_append_entries e from m s)"
proof -
  let ?s1 = "s\<lparr>election_elapsed := 0, leader_id := Some from\<rparr>"
  define s2 where "s2 = (if role ?s1 \<noteq> Follower then become_follower e (ae_term m) (Some from) ?s1 else ?s1)"
  define s3 where "s3 = (case map_of (peers s2) from of
      Some peer \<Rightarrow> set_peer from (peer\<lparr>recent_active := True, last_response := clock s2\<rparr>) s2
    | None \<Rightarrow> s2)"
  define s4 where "s4 = (if ae_entries m \<noteq> []
      then s3\<lparr>node_log := log_append (node_log s3) (ae_entries m)\<rparr> else s3)"
  define s5 where "s5 = (if ae_leader_commit m > commit_index s4
      then advance_commit e (min (ae_leader_commit m) (last_index (node_log s4))) s4 else s4)"
  have "quiet s ?s1" by (simp add: quietI)
  then have 2: "moves M R s s2"
    unfolding s2_def by (auto intro: quiet_moves quiet_moves_trans moves_become_follower)
  have 3: "quiet s2 s3" by (auto simp: s3_def split: option.splits)
  have 4: "quiet s3 s4" by (auto simp: s4_def intro: quietI)
  have 5: "quiet s4 s5" by (auto simp: s5_def)
  have reply: "quiet t (send from (AppendEntriesReply r) t)" for r and t :: "'a raft_node"
    by (simp add: quiet_send)
  have "moves M R s s3" "moves M R s s5"
    using 2 3 4 5 by (blast intro: moves_quiet_trans quiet_trans)+
  then show ?thesis
    unfolding handle_append_entries_def Let_def s2_def [symmetric] s3_def [symmetric]
      s4_def [symmetric] s5_def [symmetric]
    by (auto split: prod.splits intro: moves_quiet_trans [OF _ reply])
qed

lemma quiet_handle_append_entries_reply: "quiet s (handle_append_entries_reply e from m s)"
proof -
  have "quiet t (maybe_flush_reads (replicate_to e from (maybe_advance_commit e t)))"
    for t :: "'a raft_node"
    by (meson quiet_maybe_advance_commit quiet_maybe_flush_reads quiet_replicate_to quiet_trans)
  then show ?thesis
    by (auto simp: handle_append_entries_reply_def Let_def split: option.splits
        intro: quiet_trans [OF quiet_set_peer] quiet_trans [OF quiet_set_peer quiet_replicate_to])
qed

lemma quiet_handle_install_snapshot: "quiet s (handle_install_snapshot e from m s)"
proof -
  have reply: "quiet t (send from (InstallSnapshotReply r) t)" for r and t :: "'a raft_node"
    by (simp add: quiet_send)
  have "quiet s (case out of
      Some snap \<Rightarrow> apply_snapshot e snap (s\<lparr>election_elapsed := 0, leader_id := l, snap_receiver := None\<rparr>)
    | None \<Rightarrow> s\<lparr>election_elapsed := 0, leader_id := l, snap_receiver := r\<rparr>)" for out l r
    by (cases out) (simp_all add: quiet_trans [OF quietI quiet_apply_snapshot] quietI)
  then show ?thesis
    unfolding handle_install_snapshot_def Let_def
    by (auto split: prod.splits intro!: quiet_trans [OF _ reply])
qed

lemma quiet_handle_install_snapshot_reply:
  "quiet s (handle_install_snapshot_reply e from m s)"
  by (auto simp: handle_install_snapshot_reply_def Let_def split: option.splits
      intro: quiet_trans [OF quiet_set_peer quiet_maybe_advance_commit])

lemma moves_handle_timeout_now:
  assumes "member_of M s"
  shows "moves M R s (handle_timeout_now e from m s)"
proof -
  let ?s = "s\<lparr>election_elapsed := election_timeout s\<rparr>"
  have "quiet s ?s" and "moves M R ?s (campaign e (pre_vote (config s)) ?s)"
    using assms by (auto intro!: quietI moves_campaign simp: member_of_def)
  then show ?thesis
    by (auto simp: handle_timeout_now_def Let_def intro: quiet_moves_trans)
qed

lemma quiet_handle_read_index_request: "quiet s (handle_read_index_request e from m s)"
  by (simp add: handle_read_index_request_def quiet_send)

lemma become_follower_frame [frame, simp]:
  "membership (become_follower e t l s) = membership s"
  "self_id (become_follower e t l s) = self_id s"
  "role (become_follower e t l s) = Follower"
proof -
  have r: "membership (respond r a s) = membership s" "self_id (respond r a s) = self_id s"
    for r a and s :: "'a raft_node" by (simp_all add: respond_def)
  have f: "membership (fold (\<lambda>x. respond (g x) (h x)) xs s) = membership s"
    "self_id (fold (\<lambda>x. respond (g x) (h x)) xs s) = self_id s"
    for g :: "'b \<Rightarrow> rid" and h xs and s :: "'a raft_node"
    by (induction xs arbitrary: s) (simp_all add: r)
  show "membership (become_follower e t l s) = membership s"
    "self_id (become_follower e t l s) = self_id s"
    by (simp_all add: become_follower_def fail_pending_def drain_all_def randomize_timeout_def
        Let_def f case_prod_unfold)
qed (simp add: become_follower_def randomize_timeout_def Let_def)

text \<open>The messages a step relies on: a candidate asks for itself, a granted vote was given.\<close>

definition legit :: "(node_id \<times> raft_term) set \<Rightarrow> node_id \<Rightarrow> raft_message \<Rightarrow> bool" where
  "legit R from m \<longleftrightarrow> asks_for m \<in> {None, Some from} \<and> (grants_vote m \<longrightarrow> (from, msg_term m) \<in> R)"

lemma moves_dispatch:
  assumes "member_of M s" and "legit R from m" and "role s = Candidate \<Longrightarrow> grants_vote m \<Longrightarrow> msg_term m = current_term s"
  shows "moves M R s (dispatch e from m s)"
proof (cases m)
  case (RequestVote rv)
  with assms show ?thesis
    by (simp add: dispatch_def moves_handle_request_vote legit_def)
next
  case (RequestVoteReply rv)
  with assms show ?thesis
    by (auto simp: dispatch_def legit_def intro!: moves_handle_request_vote_reply)
next
  case (TimeoutNow tn)
  with assms(1) show ?thesis by (simp add: dispatch_def moves_handle_timeout_now)
qed (simp_all add: dispatch_def moves_handle_append_entries quiet_moves handle_read_index_reply_def
    quiet_handle_append_entries_reply quiet_handle_install_snapshot
    quiet_handle_install_snapshot_reply quiet_handle_read_index_request)

lemma moves_step:
  assumes "member_of M s" and "legit R from m"
  shows "moves M R s (step e from m s)"
proof -
  define s1 where "s1 = (if msg_term m > current_term s \<and> \<not> is_pre_vote_request m
      then become_follower e (msg_term m) (msg_leader m) s else s)"
  have 1: "moves M R s s1" by (simp add: s1_def moves_become_follower)
  have mem: "member_of M s1" using assms(1) by (simp add: s1_def member_of_def)
  have "moves M R s1 (dispatch e from m s1)"
    if "\<not> (msg_term m < current_term s1 \<and> \<not> is_pre_vote_reply m)"
  proof (rule moves_dispatch [OF mem assms(2)])
    assume "role s1 = Candidate" and "grants_vote m"
    moreover from \<open>grants_vote m\<close> obtain rv where "m = RequestVoteReply rv" "\<not> rvr_pre_vote rv"
      by (cases m) auto
    ultimately show "msg_term m = current_term s1"
      using that by (auto simp: s1_def split: if_splits)
  qed
  with 1 show ?thesis
    unfolding step_def s1_def [symmetric] Let_def by (auto intro: moves_trans)
qed

subsection \<open>Moves of commands, ticks and start-up\<close>

lemma quiet_initiate_transfer: "quiet s (snd (initiate_transfer e to s))"
proof -
  let ?s = "replicate_to e to (s\<lparr>transfer_to := Some to, transfer_elapsed := 0\<rparr>)"
  have "quiet s ?s" by (rule quiet_trans [OF quietI quiet_replicate_to]) simp_all
  moreover have "quiet ?s (send to (TimeoutNow m) ?s)" for m by (simp add: quiet_send)
  ultimately show ?thesis
    by (auto simp: initiate_transfer_def Let_def intro: quiet_trans)
qed

lemma quiet_cmd_propose: "quiet s (cmd_propose e d r s)"
proof -
  have "quiet s (broadcast_append_entries e (s\<lparr>node_log := l, pending_proposals := p\<rparr>))" for l p
    by (rule quiet_trans [OF quietI quiet_broadcast_append_entries]) simp_all
  then show ?thesis
    by (auto simp: cmd_propose_def Let_def intro: quiet_trans [OF _ quiet_advance_commit])
qed

lemma quiet_cmd_read_index: "quiet s (cmd_read_index e r s)"
  by (auto simp: cmd_read_index_def intro!: quiet_trans [OF quietI quiet_broadcast_heartbeat])

lemma quiet_cmd_add_node: "quiet s (cmd_add_node e n r s)"
  by (auto simp: cmd_add_node_def Let_def split: prod.splits
      intro!: quiet_trans [OF quiet_trans [OF quiet_append_membership_change quiet_set_peer]
          quiet_respond] quiet_trans [OF quiet_append_membership_change quiet_respond])

lemma moves_cmd_remove_node: "moves M R s (cmd_remove_node e i r s)"
proof -
  have "quiet s (respond r a (append_membership_change e cfg s))" for a cfg
    by (rule quiet_trans [OF quiet_append_membership_change quiet_respond])
  then show ?thesis
    by (auto simp: cmd_remove_node_def Let_def
        intro: quiet_moves quiet_moves_trans [OF _ moves_become_follower])
qed

lemma moves_handle_cmd: "moves M R s (snd (handle_cmd e cmd s))"
proof (cases cmd)
  case (TransferLeadership to r)
  have "quiet s (respond r a (snd (initiate_transfer e to s)))" for a
    by (rule quiet_trans [OF quiet_initiate_transfer quiet_respond])
  with TransferLeadership show ?thesis
    by (auto simp: handle_cmd_def split: prod.splits intro!: quiet_moves)
next
  case (TriggerSnapshot r)
  then show ?thesis
    by (auto simp: handle_cmd_def intro!: quiet_moves quiet_trans [OF quietI quiet_compact_log])
qed (simp_all add: handle_cmd_def quiet_moves quiet_cmd_propose quiet_cmd_read_index
    quiet_cmd_add_node moves_cmd_remove_node)

lemma moves_do_check_quorum: "moves M R s (do_check_quorum e s)"
proof -
  have q: "quiet s (s\<lparr>peers := p\<rparr>)" for p by (simp add: quietI)
  show ?thesis
    using quiet_moves [OF q] quiet_moves_trans [OF q moves_become_follower]
    by (auto simp: do_check_quorum_def Let_def)
qed

lemma moves_tick:
  assumes "member_of M s"
  shows "moves M R s (tick e s)"
proof -
  define s1 where "s1 = s\<lparr>election_elapsed := election_elapsed s + 1,
                heartbeat_elapsed := heartbeat_elapsed s + 1\<rparr>"
  define s2 where "s2 = (if heartbeat_elapsed s1 \<ge> heartbeat_interval (config s1)
      then broadcast_heartbeat e (s1\<lparr>heartbeat_elapsed := 0\<rparr>) else s1)"
  define s3 where "s3 = (if check_quorum (config s2)
      then let s = s2\<lparr>check_quorum_elapsed := check_quorum_elapsed s2 + 1\<rparr>
           in if check_quorum_elapsed s \<ge> check_quorum_interval (config s)
              then do_check_quorum e (s\<lparr>check_quorum_elapsed := 0\<rparr>) else s
      else s2)"
  have 1: "quiet s s1" by (simp add: s1_def quietI)
  have "quiet s1 (s1\<lparr>heartbeat_elapsed := 0\<rparr>)" by (simp add: quietI)
  then have 2: "quiet s1 s2"
    unfolding s2_def by (auto intro: quiet_trans [OF _ quiet_broadcast_heartbeat])
  have "moves M R s2 (do_check_quorum e (s2\<lparr>check_quorum_elapsed := 0\<rparr>))"
    by (rule quiet_moves_trans [OF quietI moves_do_check_quorum]) simp_all
  then have 3: "moves M R s2 s3"
    unfolding s3_def Let_def by (simp add: quiet_moves quietI)
  have "member_of M (s1\<lparr>election_elapsed := 0\<rparr>)" using assms by (simp add: s1_def member_of_def)
  then have c: "moves M R s1 (campaign e pv (s1\<lparr>election_elapsed := 0\<rparr>))" for pv
    by (intro quiet_moves_trans [OF quietI moves_campaign]) simp_all
  have s3: "moves M R s s3" using 1 2 3 by (blast intro: quiet_moves_trans quiet_trans)
  show ?thesis
    unfolding tick_def s1_def [symmetric] Let_def s2_def [symmetric] s3_def [symmetric, unfolded Let_def]
    using c s3 1 by (auto intro!: quietI intro: quiet_moves_trans quiet_moves moves_quiet_trans [OF s3])
qed

lemma moves_run_start: "member_of M s \<Longrightarrow> moves M R s (run_start e s)"
  by (simp add: run_start_def moves_campaign)

lemma moves_node_step:
  assumes "member_of M s" and "\<And>from m. ev = Message from m \<Longrightarrow> legit R from m"
  shows "moves M R s (node_step e ev s)"
proof (cases ev)
  case (Command cmd)
  have "quiet t (t\<lparr>halted := True\<rparr>)" for t :: "'a raft_node" by (simp add: quietI)
  with Command show ?thesis
    using moves_handle_cmd [of M R s e cmd]
    by (auto simp: node_step_def split: prod.splits intro: moves_quiet_trans)
qed (use assms in \<open>auto simp: node_step_def intro: moves_tick moves_step\<close>)

subsection \<open>The cluster\<close>

record 'sm cluster =
  nodes :: "node_id \<Rightarrow> 'sm raft_node"
  network :: "(node_id \<times> node_id \<times> raft_message) set"

definition posted :: "node_id \<Rightarrow> 'sm raft_node \<Rightarrow> (node_id \<times> node_id \<times> raft_message) set" where
  "posted i s = {(i, to, m) | to m. (to, m) \<in> set (outbox s)}"

text \<open>Before an event: the time is set, what was sent and answered earlier is out of the node.\<close>

definition wake :: "instant \<Rightarrow> 'sm raft_node \<Rightarrow> 'sm raft_node" where
  "wake now s = s\<lparr>clock := now, outbox := [], replies := []\<rparr>"

definition boot ::
  "(node_id \<Rightarrow> 'sm env) \<Rightarrow> (node_id \<Rightarrow> node_config) \<Rightarrow> node_info list \<Rightarrow> nat \<Rightarrow> 'sm \<Rightarrow>
   node_id \<Rightarrow> 'sm raft_node" where
  "boot e cfg infos ld sm i = run_start (e i) (spawn (e i) ((cfg i)\<lparr>cfg_id := i\<rparr>) infos ld sm)"

definition start_cluster ::
  "(node_id \<Rightarrow> 'sm env) \<Rightarrow> (node_id \<Rightarrow> node_config) \<Rightarrow> node_info list \<Rightarrow> nat \<Rightarrow> 'sm \<Rightarrow> 'sm cluster" where
  "start_cluster e cfg infos ld sm =
     \<lparr>nodes = boot e cfg infos ld sm, network = (\<Union>i. posted i (boot e cfg infos ld sm i))\<rparr>"

inductive cluster_step ::
  "(node_id \<Rightarrow> 'sm env) \<Rightarrow> membership_config \<Rightarrow> 'sm cluster \<Rightarrow> 'sm cluster \<Rightarrow> bool"
  for e M where
  event: "i |\<in>| all_nodes M \<Longrightarrow>
    (\<And>from m. ev = Message from m \<Longrightarrow> (from, i, m) \<in> network c) \<Longrightarrow>
    s' = node_step (e i) ev (wake now (nodes c i)) \<Longrightarrow>
    cluster_step e M c \<lparr>nodes = (nodes c)(i := s'), network = network c \<union> posted i s'\<rparr>"

text \<open>
  The runs of a cluster in which no node has applied a change of the initial configuration.
\<close>

inductive reachable ::
  "(node_id \<Rightarrow> 'sm env) \<Rightarrow> (node_id \<Rightarrow> node_config) \<Rightarrow> node_info list \<Rightarrow> nat \<Rightarrow> 'sm \<Rightarrow>
   'sm cluster \<Rightarrow> bool" for e cfg infos ld sm where
  start: "reachable e cfg infos ld sm (start_cluster e cfg infos ld sm)"
| step: "reachable e cfg infos ld sm c \<Longrightarrow> cluster_step e (membership_of infos) c c' \<Longrightarrow>
    (\<And>i. membership (nodes c' i) = membership_of infos) \<Longrightarrow> reachable e cfg infos ld sm c'"

subsection \<open>The cluster refines the specification\<close>

definition votes_in_flight ::
  "(node_id \<times> node_id \<times> raft_message) set \<Rightarrow> (node_id \<times> node_id \<times> raft_term) set" where
  "votes_in_flight N = {(v, c, msg_term m) | v c m. (v, c, m) \<in> N \<and> grants_vote m}"

definition abs_cluster :: "'sm cluster \<Rightarrow> vote_state" where
  "abs_cluster c = (\<lambda>i. view (nodes c i), votes_in_flight (network c))"

definition asks_ok :: "(node_id \<times> node_id \<times> raft_message) set \<Rightarrow> bool" where
  "asks_ok N \<longleftrightarrow> (\<forall>v c m. (v, c, m) \<in> N \<longrightarrow> asks_for m \<in> {None, Some v})"

lemma votes_in_flight_Un [simp]:
  "votes_in_flight (A \<union> B) = votes_in_flight A \<union> votes_in_flight B"
  by (auto simp: votes_in_flight_def)

lemma votes_in_flight_posted [simp]: "votes_in_flight (posted i s) = {i} \<times> granted s"
  by (auto simp: votes_in_flight_def posted_def granted_def)

lemma asks_ok_posted: "asks_for_self s \<Longrightarrow> self_id s = i \<Longrightarrow> asks_ok (posted i s)"
  by (auto simp: asks_ok_def posted_def asks_for_self_def)

lemma asks_ok_Un [simp]: "asks_ok (A \<union> B) \<longleftrightarrow> asks_ok A \<and> asks_ok B"
  unfolding asks_ok_def by blast

lemma wake_frame [simp]:
  "view (wake now s) = view s" "granted (wake now s) = {}" "asks_for_self (wake now s)"
  "membership (wake now s) = membership s" "self_id (wake now s) = self_id s"
  by (simp_all add: wake_def view_def granted_def asks_for_self_def)

lemma moves_self_id: "moves M R s s' \<Longrightarrow> self_id s' = self_id s"
proof -
  assume "moves M R s s'"
  moreover have "nsteps M R x y \<Longrightarrow> vv_id (fst y) = vv_id (fst x)" for x y
    by (induction rule: rtranclp_induct) (auto elim: nstep.cases)
  ultimately have "vv_id (view s') = vv_id (view s)" by (fastforce simp: moves_def)
  then show ?thesis by (simp add: view_def)
qed

lemma cluster_step_refines:
  assumes "cluster_step e M c c'"
    and "\<And>i. membership (nodes c i) = M" and "\<And>i. self_id (nodes c i) = i"
    and "voters_outgoing M = None" and "asks_ok (network c)"
  shows "(vote_step M)\<^sup>*\<^sup>* (abs_cluster c) (abs_cluster c') \<and>
         (\<forall>i. self_id (nodes c' i) = i) \<and> asks_ok (network c')"
  using assms(1)
proof cases
  case (event i ev s' now)
  let ?s = "wake now (nodes c i)"
  let ?G = "votes_in_flight (network c)"
  have "member_of M ?s" using assms event by (simp add: member_of_def)
  moreover have "legit (received_by i ?G) from m" if "ev = Message from m" for "from" m
    using event(3) [OF that] assms(5)
    by (auto simp: legit_def received_by_def votes_in_flight_def asks_ok_def)
  ultimately have mv: "moves M (received_by i ?G) ?s s'"
    unfolding event(4) by (rule moves_node_step)
  then have "nsteps M (received_by i ?G) (view (nodes c i), {}) (view s', granted s')"
    and ask: "asks_for_self s'"
    by (simp_all add: moves_def)
  then have "nsteps M (received_by i ?G) (view (nodes c i), given_by i ?G)
      (view s', given_by i ?G \<union> granted s')"
    using nsteps_frame [of M _ _ "{}" _ _ "given_by i ?G"] by simp
  from nsteps_vote_steps [where V = "\<lambda>i. view (nodes c i)", OF this]
  have "(vote_step M)\<^sup>*\<^sup>* (abs_cluster c)
      ((\<lambda>i. view (nodes c i))(i := view s'), ?G \<union> {i} \<times> (given_by i ?G \<union> granted s'))"
    by (simp add: abs_cluster_def)
  moreover have "?G \<union> {i} \<times> (given_by i ?G \<union> granted s') = ?G \<union> {i} \<times> granted s'"
    by (auto simp: given_by_def)
  moreover have "(\<lambda>j. view (((nodes c)(i := s')) j)) = (\<lambda>j. view (nodes c j))(i := view s')"
    by auto
  moreover have "self_id s' = i" using moves_self_id [OF mv] assms(3) by simp
  ultimately show ?thesis
    using ask assms(3,5) by (auto simp: event(1) abs_cluster_def asks_ok_posted)
qed

subsection \<open>The start\<close>

lemma membership_of_simple: "voters_outgoing (membership_of infos) = None"
proof -
  have "voters_outgoing (fold (\<lambda>n m. if info_is_learner n
      then m\<lparr>learners := finsert (info_id n) (learners m)\<rparr>
      else m\<lparr>voters := finsert (info_id n) (voters m)\<rparr>) infos m) = voters_outgoing m" for m
    by (induction infos arbitrary: m) auto
  from this [of membership_default] show ?thesis
    by (simp add: membership_of_def membership_default_def)
qed

lemma spawn_frame [simp]:
  "self_id (spawn e cfg infos ld sm) = cfg_id cfg"
  "membership (spawn e cfg infos ld sm) = membership_of infos"
  "outbox (spawn e cfg infos ld sm) = []"
  "view (spawn e cfg infos ld sm) = \<lparr>vv_id = cfg_id cfg, vv_term = 0, vv_voted = None,
     vv_role = Follower, vv_votes = {||}\<rparr>"
  by (simp_all add: spawn_def randomize_timeout_def Let_def view_def)

lemma campaign_membership [simp]: "membership (campaign e pv s) = membership s"
proof -
  have "membership (become_leader e s) = membership s" for s :: "'a raft_node"
    by (simp add: become_leader_def Let_def)
  then have "membership (campaign_real e s) = membership s" for s :: "'a raft_node"
    by (simp add: campaign_real_def Let_def)
  then show ?thesis by (simp add: campaign_def campaign_pre_vote_def Let_def)
qed

lemma boot_idle:
  "voters (membership_of infos) \<noteq> {|i|} \<Longrightarrow>
   boot e cfg infos ld sm i = spawn (e i) ((cfg i)\<lparr>cfg_id := i\<rparr>) infos ld sm"
  using fcard_seteq [of "{|i|}" "voters (membership_of infos)"]
  by (auto simp: boot_def run_start_def fcard_finsert)

lemma boot_moves: "moves (membership_of infos) R (spawn (e i) ((cfg i)\<lparr>cfg_id := i\<rparr>) infos ld sm)
    (boot e cfg infos ld sm i)"
proof (cases "voters (membership_of infos) = {|i|}")
  case True
  then show ?thesis
    unfolding boot_def
    by (intro moves_run_start) (simp add: member_of_def membership_of_simple all_nodes_def)
qed (simp add: boot_idle)

lemma boot_frame [simp]:
  "membership (boot e cfg infos ld sm i) = membership_of infos"
  "self_id (boot e cfg infos ld sm i) = i"
proof -
  show "membership (boot e cfg infos ld sm i) = membership_of infos"
    by (simp add: boot_def run_start_def)
  show "self_id (boot e cfg infos ld sm i) = i"
    using moves_self_id [OF boot_moves] by simp
qed

definition fresh_voters :: vote_state where
  "fresh_voters = (\<lambda>i. \<lparr>vv_id = i, vv_term = 0, vv_voted = None, vv_role = Follower,
                         vv_votes = {||}\<rparr>, {})"

lemma start_refines:
  "(vote_step (membership_of infos))\<^sup>*\<^sup>* fresh_voters (abs_cluster (start_cluster e cfg infos ld sm)) \<and>
   asks_ok (network (start_cluster e cfg infos ld sm))"
proof -
  let ?M = "membership_of infos" and ?b = "boot e cfg infos ld sm"
  let ?s = "\<lambda>i. spawn (e i) ((cfg i)\<lparr>cfg_id := i\<rparr>) infos ld sm"
  have ask: "asks_for_self (?b i)" for i
    using boot_moves [of infos "{}" e i cfg ld sm] by (simp add: moves_def asks_for_self_def)
  then have net: "asks_ok (\<Union>i. posted i (?b i))"
    using asks_ok_posted [of "?b _"] by (fastforce simp: asks_ok_def)
  have "\<exists>k. \<forall>i. i \<noteq> k \<longrightarrow> voters ?M \<noteq> {|i|}" by (metis fsingleton_inject)
  then obtain k where "\<And>i. i \<noteq> k \<Longrightarrow> voters ?M \<noteq> {|i|}" by auto
  then have k: "i \<noteq> k \<Longrightarrow> ?b i = ?s i" for i by (simp add: boot_idle)
  have "nsteps ?M (received_by k {}) (fst fresh_voters k, given_by k {}) (view (?b k), granted (?b k))"
    using boot_moves [of infos "{}" e k cfg ld sm]
    by (simp add: moves_def granted_def received_by_def given_by_def fresh_voters_def)
  from nsteps_vote_steps [where V = "fst fresh_voters", OF this] have "(vote_step ?M)\<^sup>*\<^sup>* fresh_voters
      ((fst fresh_voters)(k := view (?b k)), {k} \<times> granted (?b k))"
    by (simp add: fresh_voters_def)
  moreover have "(\<lambda>i. view (?b i)) = (fst fresh_voters)(k := view (?b k))"
    using k by (auto simp: fresh_voters_def)
  moreover have "votes_in_flight (\<Union>i. posted i (?b i)) = (\<Union>i. {i} \<times> granted (?b i))"
    by (auto simp: votes_in_flight_def posted_def granted_def)
  moreover have "(\<Union>i. {i} \<times> granted (?b i)) = {k} \<times> granted (?b k)"
    using k by (force simp: granted_def)
  ultimately show ?thesis
    using net by (simp add: abs_cluster_def start_cluster_def)
qed

lemma fresh_inv: "election_inv M fresh_voters"
  by (auto simp: election_inv_def fresh_voters_def)

lemma reachable_refines:
  assumes "reachable e cfg infos ld sm c"
  shows "(vote_step (membership_of infos))\<^sup>*\<^sup>* fresh_voters (abs_cluster c) \<and>
    (\<forall>i. membership (nodes c i) = membership_of infos) \<and>
    (\<forall>i. self_id (nodes c i) = i) \<and> asks_ok (network c)"
  using assms
proof induction
  case start
  then show ?case using start_refines by (simp add: start_cluster_def)
next
  case (step c c')
  then have "(vote_step (membership_of infos))\<^sup>*\<^sup>* (abs_cluster c) (abs_cluster c') \<and>
         (\<forall>i. self_id (nodes c' i) = i) \<and> asks_ok (network c')"
    by (intro cluster_step_refines [OF step(2)]) (simp_all add: membership_of_simple)
  with step show ?case by (auto intro: rtranclp_trans)
qed

subsection \<open>A three-node election\<close>

text \<open>A concrete run for the witnesses: node 1 times out, node 2 votes for it, node 1 wins.\<close>

definition demo_config :: node_config where
  "demo_config =
     \<lparr>cfg_id = 0, election_timeout_min = 1, election_timeout_max = 1, heartbeat_interval = 2,
      max_append_entries = 64, pipeline_depth = 4, check_quorum = True,
      check_quorum_interval = 10, pre_vote = False, log_compaction_threshold = 100,
      snapshot_chunk_size = 64, tick_duration = 100, api_addr = ''a'', grpc_addr = ''g'',
      grpc_advertise_addr = ''g'', max_pending_proposals = 100,
      leadership_transfer_timeout = 10\<rparr>"

definition demo_env :: "unit env" where
  "demo_env = \<lparr>gen_range = (\<lambda>k lo hi. lo), to_vec = (\<lambda>_. Inl ''unsupported''),
     from_slice = (\<lambda>_. Inl ''unsupported''), machine = noop_ops\<rparr>"

definition demo_members :: "node_info list" where
  "demo_members = map (\<lambda>i. \<lparr>info_id = i, info_addr = ''n'', info_is_learner = False\<rparr>) [1, 2, 3]"

definition demo_boot :: "node_id \<Rightarrow> unit raft_node" where
  "demo_boot = boot (\<lambda>_. demo_env) (\<lambda>_. demo_config) demo_members 90 ()"

definition demo_request :: raft_message where
  "demo_request = RequestVote \<lparr>rv_term = 1, rv_candidate_id = 1, rv_last_log_index = 0,
     rv_last_log_term = 0, rv_pre_vote = False\<rparr>"

definition demo_grant :: raft_message where
  "demo_grant = RequestVoteReply \<lparr>rvr_term = 1, rvr_vote_granted = True, rvr_pre_vote = False\<rparr>"

definition demo_candidate :: "unit raft_node" where
  "demo_candidate = node_step demo_env Tick (wake 1 (demo_boot 1))"

definition demo_voter :: "unit raft_node" where
  "demo_voter = node_step demo_env (Message 1 demo_request) (wake 2 (demo_boot 2))"

definition demo_leader :: "unit raft_node" where
  "demo_leader = node_step demo_env (Message 2 demo_grant) (wake 3 demo_candidate)"

lemma demo_members_nodes: "all_nodes (membership_of demo_members) = {|1, 2, 3|}"
  by code_simp

lemma demo_asks: "(2, demo_request) \<in> set (outbox demo_candidate)"
  by code_simp

lemma demo_grants: "(1, demo_grant) \<in> set (outbox demo_voter)"
  by code_simp

lemma demo_wins: "role demo_leader = Leader \<and> current_term demo_leader = 1"
  by code_simp

lemma demo_membership:
  "membership demo_candidate = membership_of demo_members"
  "membership demo_voter = membership_of demo_members"
  "membership demo_leader = membership_of demo_members"
  by code_simp+

lemma demo_run:
  "\<exists>c. reachable (\<lambda>_. demo_env) (\<lambda>_. demo_config) demo_members 90 () c \<and>
       nodes c = demo_boot(1 := demo_leader, 2 := demo_voter)"
proof -
  let ?e = "\<lambda>_ :: node_id. demo_env" and ?M = "membership_of demo_members"
  let ?r = "reachable ?e (\<lambda>_. demo_config) demo_members 90 ()"
  let ?c0 = "start_cluster ?e (\<lambda>_. demo_config) demo_members 90 ()"
  let ?c1 = "\<lparr>nodes = (nodes ?c0)(1 := demo_candidate), network = network ?c0 \<union> posted 1 demo_candidate\<rparr>"
  let ?c2 = "\<lparr>nodes = (nodes ?c1)(2 := demo_voter), network = network ?c1 \<union> posted 2 demo_voter\<rparr>"
  let ?c3 = "\<lparr>nodes = (nodes ?c2)(1 := demo_leader), network = network ?c2 \<union> posted 1 demo_leader\<rparr>"
  have n0: "nodes ?c0 = demo_boot" by (simp add: start_cluster_def demo_boot_def)
  have M0: "membership (demo_boot i) = ?M" for i by (simp add: demo_boot_def)
  have "cluster_step ?e ?M ?c0 ?c1"
    by (rule cluster_step.event [where ev = Tick and now = 1])
      (simp_all add: demo_members_nodes demo_candidate_def n0)
  then have 1: "?r ?c1"
    by (rule reachable.step [OF reachable.start]) (simp add: n0 M0 demo_membership)
  have "cluster_step ?e ?M ?c1 ?c2"
    by (rule cluster_step.event [where ev = "Message 1 demo_request" and now = 2])
      (simp_all add: demo_members_nodes demo_voter_def n0 posted_def demo_asks)
  with 1 have 2: "?r ?c2"
    by (rule reachable.step) (simp add: n0 M0 demo_membership)
  have "cluster_step ?e ?M ?c2 ?c3"
    by (rule cluster_step.event [where ev = "Message 2 demo_grant" and now = 3])
      (simp_all add: demo_members_nodes demo_leader_def n0 posted_def demo_grants del: One_nat_def)
  with 2 have "?r ?c3"
    by (rule reachable.step) (simp add: n0 M0 demo_membership)
  moreover have "nodes ?c3 = demo_boot(1 := demo_leader, 2 := demo_voter)"
    by (simp add: n0 fun_eq_iff)
  ultimately show ?thesis by blast
qed

subsection \<open>Properties\<close>

text \<open>
  C2: the code refines the voting specification. Take a cluster of nodes running this code over a
  lossy, reordering, duplicating network, in a state reached without any node having applied a
  change of the initial membership. Its image is reachable in the specification from the fresh
  state, and every event of any node in it, a clock tick, a message or a command with its whole
  handler, takes the image to the image of the next state by moves of the specification.
\<close>

theorem cluster_refines_voting:
  assumes "reachable e cfg infos ld sm c"
  shows "(vote_step (membership_of infos))\<^sup>*\<^sup>* fresh_voters (abs_cluster c) \<and>
         (\<forall>c'. cluster_step e (membership_of infos) c c' \<longrightarrow>
            (vote_step (membership_of infos))\<^sup>*\<^sup>* (abs_cluster c) (abs_cluster c'))"
  using reachable_refines [OF assms] cluster_step_refines [of e "membership_of infos" c]
  by (simp add: membership_of_simple)

theorem cluster_refines_voting_witness:
  "\<exists>c c' :: unit cluster. (vote_step (membership_of demo_members))\<^sup>*\<^sup>* fresh_voters (abs_cluster c) \<and>
       role (nodes c 1) = Leader \<and> cluster_step (\<lambda>_. demo_env) (membership_of demo_members) c c' \<and>
       (vote_step (membership_of demo_members))\<^sup>*\<^sup>* (abs_cluster c) (abs_cluster c')"
proof -
  obtain c where c: "reachable (\<lambda>_. demo_env) (\<lambda>_. demo_config) demo_members 90 () c"
    and n: "nodes c = demo_boot(1 := demo_leader, 2 := demo_voter)"
    using demo_run by blast
  have "1 |\<in>| all_nodes (membership_of demo_members)" by code_simp
  then obtain c' where c': "cluster_step (\<lambda>_. demo_env) (membership_of demo_members) c c'"
    using cluster_step.event [of 1 _ Tick c _ "\<lambda>_. demo_env" 0] by blast
  have "role (nodes c 1) = Leader" by (simp add: n demo_wins)
  with c' cluster_refines_voting [OF c] show ?thesis by blast
qed

text \<open>
  C1: election safety. In every reachable state of the cluster, with messages lost, duplicated
  and reordered at will and ticks and client commands interleaved in any order, at most one node
  is leader of any given term.
\<close>

theorem election_safety:
  assumes "reachable e cfg infos ld sm c"
    and "role (nodes c i) = Leader" and "role (nodes c j) = Leader"
    and "current_term (nodes c i) = current_term (nodes c j)"
  shows "i = j"
proof -
  have "election_inv (membership_of infos) (abs_cluster c)"
    using reachable_refines [OF assms(1)] fresh_inv vote_steps_inv by blast
  then show ?thesis
    using election_inv_safety [of "membership_of infos" "\<lambda>i. view (nodes c i)"] assms(2-4)
    by (simp add: abs_cluster_def view_def)
qed

theorem election_safety_witness:
  "\<exists>c. reachable (\<lambda>_. demo_env) (\<lambda>_. demo_config) demo_members 90 () c \<and>
       role (nodes c 1) = Leader \<and>
       (\<forall>j. role (nodes c j) = Leader \<and> current_term (nodes c j) = 1 \<longrightarrow> j = 1)"
proof -
  obtain c where c: "reachable (\<lambda>_. demo_env) (\<lambda>_. demo_config) demo_members 90 () c"
    and n: "nodes c = demo_boot(1 := demo_leader, 2 := demo_voter)"
    using demo_run by blast
  have "role (nodes c 1) = Leader" "current_term (nodes c 1) = 1" by (simp_all add: n demo_wins)
  with election_safety [OF c] c show ?thesis by metis
qed

end
