(* ===== verification/Raft_Replication.thy ===== *)
theory Raft_Replication
  imports Raft_Cluster
begin

section \<open>Committing, applying and answering clients\<close>

text \<open>
  What a node does with its log once entries are replicated: the commit rule of the leader, the
  order in which committed entries reach the state machine, and the answers clients get when a
  leader steps down or reads are flushed.
\<close>

subsection \<open>Frames\<close>

lemma respond_frame [simp]:
  "commit_index (respond r x s) = commit_index s" "last_applied (respond r x s) = last_applied s"
  "state_machine (respond r x s) = state_machine s" "node_log (respond r x s) = node_log s"
  "pending_proposals (respond r x s) = pending_proposals s" "read_only (respond r x s) = read_only s"
  "replies (respond r x s) = (if halted s then replies s else replies s @ [(r, x)])"
  "halted (respond r x s) = halted s" "membership (respond r x s) = membership s"
  "self_id (respond r x s) = self_id s"
  by (simp_all add: respond_def)

lemma apply_loop_commit [simp]: "commit_index (apply_loop e s) = commit_index s"
  by (induction e s rule: apply_loop.induct)
    (simp add: apply_loop.simps [of _ s for s] Let_def split: sum.split)

lemma compact_log_frame [simp]:
  "commit_index (compact_log s) = commit_index s" "last_applied (compact_log s) = last_applied s"
  "state_machine (compact_log s) = state_machine s"
  by (simp_all add: compact_log_def Let_def split: option.split)

lemma apply_entries_commit [simp]: "commit_index (apply_entries e s) = commit_index s"
  by (simp add: apply_entries_def Let_def)

lemma resolve_commit:
  "commit_index (fold (\<lambda>idx s. case map_of (pending_proposals s) idx of
      Some r \<Rightarrow> respond r (IndexReply (Inr idx))
        (s\<lparr>pending_proposals := AList.delete idx (pending_proposals s)\<rparr>)
    | None \<Rightarrow> s) xs t) = commit_index t"
  by (induction xs arbitrary: t) (simp_all split: option.split)

lemma advance_commit_index [simp]: "commit_index (advance_commit e n s) = n"
  by (simp add: advance_commit_def Let_def resolve_commit)

subsection \<open>The commit rule\<close>

lemma replicated_on_iff:
  "p |\<in>| replicated_on s idx \<longleftrightarrow> p = self_id s \<or> (\<exists>ps. (p, ps) \<in> set (peers s) \<and> idx \<le> match_index ps)"
proof -
  have "p |\<in>| fold (\<lambda>(pid, p) votes. if match_index p \<ge> idx then finsert pid votes else votes) xs V \<longleftrightarrow>
      p |\<in>| V \<or> (\<exists>ps. (p, ps) \<in> set xs \<and> idx \<le> match_index ps)"
    for xs :: "(node_id \<times> peer_state) list" and V
    by (induction xs arbitrary: V) (auto split: if_splits)
  then show ?thesis by (simp add: replicated_on_def)
qed

definition committable :: "'sm raft_node \<Rightarrow> log_index \<Rightarrow> bool" where
  "committable s idx \<longleftrightarrow>
     term_at (node_log s) idx = Inr (current_term s) \<and> has_quorum (membership s) (replicated_on s idx)"

lemma fold_last_hit:
  fixes a b c :: nat and P :: "nat \<Rightarrow> bool"
  assumes "a \<le> b"
  defines "r \<equiv> fold (\<lambda>i nc. if P i then i else nc) [a ..< b] c"
  shows "(r = c \<and> (\<forall>i. a \<le> i \<and> i < b \<longrightarrow> \<not> P i)) \<or>
         (a \<le> r \<and> r < b \<and> P r \<and> (\<forall>i. r < i \<and> i < b \<longrightarrow> \<not> P i))"
  unfolding r_def using assms(1)
proof (induction b)
  case (Suc b)
  show ?case
  proof (cases "a = Suc b")
    case False
    with Suc.prems have "a \<le> b" by simp
    from Suc.IH [OF this] \<open>a \<le> b\<close> show ?thesis by (auto simp: less_Suc_eq)
  qed auto
qed auto

text \<open>
  C3: the commit rule by which a leader counts replicas. \<open>maybe_advance_commit\<close> moves the commit index
  only on a leader and only forward, to an entry of its own term that a quorum of the membership,
  of both halves during a joint change, stores as far as the leader knows. It picks the greatest
  such index: no later entry of the log satisfies the rule. The fast path of a proposal with a
  single voter does not count and is not covered.
\<close>

theorem commit_rule:
  "let s' = maybe_advance_commit e s
   in commit_index s \<le> commit_index s' \<and>
      (commit_index s' \<noteq> commit_index s \<longrightarrow>
         role s = Leader \<and> commit_index s' \<le> last_index (node_log s) \<and>
         term_at (node_log s) (commit_index s') = Inr (current_term s) \<and>
         has_quorum (membership s) (replicated_on s (commit_index s'))) \<and>
      (role s = Leader \<longrightarrow>
         (\<forall>idx. commit_index s' < idx \<and> idx \<le> last_index (node_log s) \<longrightarrow>
            \<not> (term_at (node_log s) idx = Inr (current_term s) \<and>
               has_quorum (membership s) (replicated_on s idx))))"
proof (cases "role s = Leader")
  case False
  then show ?thesis by (simp add: maybe_advance_commit_def)
next
  case True
  let ?c = "commit_index s" and ?l = "last_index (node_log s)"
  define nc where "nc = fold (\<lambda>idx nc. if committable s idx then idx else nc) [?c + 1 ..< ?l + 1] ?c"
  have "maybe_advance_commit e s = (if nc > ?c then advance_commit e nc s else s)"
  proof -
    have "(\<lambda>idx nc. case term_at (node_log s) idx of Inl _ \<Rightarrow> nc
        | Inr t \<Rightarrow> if t \<noteq> current_term s then nc
            else if has_quorum (membership s) (replicated_on s idx) then idx else nc) =
        (\<lambda>idx nc. if committable s idx then idx else nc)"
      by (auto simp: fun_eq_iff committable_def split: sum.split)
    then show ?thesis using True by (simp add: maybe_advance_commit_def nc_def Let_def)
  qed
  moreover have "(nc = ?c \<and> (\<forall>i. ?c < i \<and> i \<le> ?l \<longrightarrow> \<not> committable s i)) \<or>
      (?c < nc \<and> nc \<le> ?l \<and> committable s nc \<and> (\<forall>i. nc < i \<and> i \<le> ?l \<longrightarrow> \<not> committable s i))"
  proof (cases "?c \<le> ?l")
    case le: True
    then show ?thesis
      using fold_last_hit [of "?c + 1" "?l + 1" "committable s" ?c]
      by (auto simp: nc_def less_Suc_eq_le Suc_le_eq)
  qed (auto simp: nc_def)
  ultimately show ?thesis using True by (auto simp: Let_def committable_def)
qed

text \<open>The leader of the three voters once a follower has stored its first entry.\<close>

definition demo_stored :: "unit raft_node" where
  "demo_stored = set_peer 2 ((new_peer 3 2)\<lparr>match_index := 1\<rparr>) demo_leader"

lemma demo_stored_facts:
  "role demo_stored = Leader" "commit_index demo_stored = 0"
  "commit_index (maybe_advance_commit demo_env demo_stored) = 1"
  by code_simp+

theorem commit_rule_witness:
  "commit_index demo_stored = 0 \<and> commit_index (maybe_advance_commit demo_env demo_stored) = 1 \<and>
   term_at (node_log demo_stored) 1 = Inr (current_term demo_stored) \<and>
   has_quorum (membership demo_stored) (replicated_on demo_stored 1)"
  using commit_rule [of demo_env demo_stored] by (simp add: Let_def demo_stored_facts)

subsection \<open>Applying committed entries\<close>

text \<open>The effect of one entry on the state machine: membership entries do not reach it.\<close>

definition apply_machine :: "'sm env \<Rightarrow> log_entry \<Rightarrow> 'sm \<Rightarrow> 'sm" where
  "apply_machine e ent sm =
     (if entry_kind ent = MembershipChange then sm
      else snd (sm_apply (machine e) (to_kernel_entry ent) sm))"

lemma apply_entry_machine: "state_machine (apply_entry e ent s) = apply_machine e ent (state_machine s)"
  by (auto simp: apply_entry_def apply_machine_def append_membership_change_def Let_def
      split: sum.splits)

lemma new_membership_index:
  "new_membership tv i t cfg = Inr ent \<Longrightarrow> contiguous i [ent]"
  by (auto simp: new_membership_def split: sum.splits)

lemma append_membership_log:
  assumes "wf_log (node_log s)"
  shows "wf_log (node_log (append_membership_change e cfg s))"
    and "j \<le> last_index (node_log s) \<Longrightarrow>
      log_at (node_log (append_membership_change e cfg s)) j = log_at (node_log s) j"
    and "last_index (node_log s) \<le> last_index (node_log (append_membership_change e cfg s))"
proof -
  let ?l = "node_log s" and ?i = "last_index (node_log s) + 1"
  have first: "first_index ?l \<le> ?i" using assms by (simp add: last_index_wf first_index_def)
  have "wf_log (log_append ?l [ent]) \<and> last_index ?l \<le> last_index (log_append ?l [ent]) \<and>
      (j \<le> last_index ?l \<longrightarrow> log_at (log_append ?l [ent]) j = log_at ?l j)"
    if "contiguous ?i [ent]" for ent
    using wf_log_append [OF assms that first] log_at_append [OF assms that _ first, of j]
      last_index_append [OF assms that _ first] by simp
  then show "wf_log (node_log (append_membership_change e cfg s))"
    and "j \<le> last_index (node_log s) \<Longrightarrow>
      log_at (node_log (append_membership_change e cfg s)) j = log_at (node_log s) j"
    and "last_index (node_log s) \<le> last_index (node_log (append_membership_change e cfg s))"
    using assms by (auto simp: append_membership_change_def Let_def split: sum.splits dest!: new_membership_index)
qed

lemma apply_entry_log:
  assumes "wf_log (node_log s)"
  shows "wf_log (node_log (apply_entry e ent s))"
    and "j \<le> last_index (node_log s) \<Longrightarrow> log_at (node_log (apply_entry e ent s)) j = log_at (node_log s) j"
    and "last_index (node_log s) \<le> last_index (node_log (apply_entry e ent s))"
  using assms append_membership_log [where s = "s\<lparr>membership := cfg\<rparr>" for cfg]
  by (auto simp: apply_entry_def Let_def split: sum.splits)

lemma apply_loop_machine:
  assumes "wf_log (node_log s)" and "snapshot_index (node_log s) \<le> last_applied s"
    and "last_applied s \<le> commit_index s" and "commit_index s \<le> last_index (node_log s)"
  shows "last_applied (apply_loop e s) = commit_index s \<and>
         state_machine (apply_loop e s) =
           fold (apply_machine e) (map (\<lambda>i. the (log_at (node_log s) i))
             [last_applied s + 1 ..< commit_index s + 1]) (state_machine s)"
  using assms
proof (induction e s rule: apply_loop.induct)
  case (1 e s)
  show ?case
  proof (cases "last_applied s < commit_index s")
    case False
    with 1(4) show ?thesis by (simp add: apply_loop.simps [of e s])
  next
    case True
    let ?i = "last_applied s + 1" and ?s = "s\<lparr>last_applied := last_applied s + 1\<rparr>"
    obtain ent where ent: "log_at (node_log s) ?i = Some ent"
      using True 1(3,5) last_index_wf [OF 1(2)] by (simp add: log_at_def)
    then have e: "entry (node_log ?s) (last_applied ?s) = Inr ent" by (simp add: entry_Inr_iff)
    let ?t = "apply_entry e ent ?s"
    have wf: "wf_log (node_log ?s)" using 1(2) by simp
    note log = apply_entry_log [OF wf, where e = e and ent = ent]
    have "snapshot_index (node_log ?t) \<le> last_applied ?t"
      using 1(3) by (auto simp: apply_entry_def append_membership_change_def Let_def split: sum.splits)
    then have IH: "last_applied (apply_loop e ?t) = commit_index s"
      "state_machine (apply_loop e ?t) = fold (apply_machine e)
        (map (\<lambda>i. the (log_at (node_log ?t) i)) [?i + 1 ..< commit_index s + 1])
        (apply_machine e ent (state_machine s))"
      using 1(1) [OF True refl e] log(1,3) True 1(5) by (simp_all add: apply_entry_machine)
    have same: "map (\<lambda>i. the (log_at (node_log ?t) i)) [?i + 1 ..< commit_index s + 1] =
        map (\<lambda>i. the (log_at (node_log s) i)) [?i + 1 ..< commit_index s + 1]"
      using log(2) 1(5) by (auto intro!: arg_cong [of _ _ the])
    have "[?i ..< commit_index s + 1] = ?i # [?i + 1 ..< commit_index s + 1]"
      using True by (simp add: upt_conv_Cons)
    then show ?thesis using True IH(1) IH(2) [unfolded same] ent e
      by (simp add: apply_loop.simps [of e s] Let_def del: upt_Suc)
  qed
qed

text \<open>
  C8: one run of the apply loop. On a well-formed log that reaches the commit index, it hands the
  state machine exactly the committed entries behind the last applied one, in log order and each
  once, leaving out membership entries, and moves the last applied index to the commit index.
  With nothing to apply it changes neither. When the next entry to apply was compacted away, the
  loop stops at once with that entry counted as applied and the machine unchanged.
\<close>

theorem apply_in_order:
  assumes "wf_log (node_log s)" and "commit_index s \<le> last_index (node_log s)"
  shows "let s' = apply_entries e s
         in if commit_index s \<le> last_applied s
            then last_applied s' = last_applied s \<and> state_machine s' = state_machine s
            else if snapshot_index (node_log s) \<le> last_applied s
            then last_applied s' = commit_index s \<and>
                 state_machine s' =
                   fold (apply_machine e) (map (\<lambda>i. the (log_at (node_log s) i))
                     [last_applied s + 1 ..< commit_index s + 1]) (state_machine s)
            else last_applied s' = last_applied s + 1 \<and> state_machine s' = state_machine s"
proof -
  have "last_applied (apply_entries e s) = last_applied (apply_loop e s) \<and>
      state_machine (apply_entries e s) = state_machine (apply_loop e s)"
    by (simp add: apply_entries_def Let_def)
  moreover have "log_at (node_log s) (last_applied s + 1) = None"
    if "last_applied s < snapshot_index (node_log s)"
    using that by (simp add: log_at_def)
  then have "apply_loop e s = s\<lparr>last_applied := last_applied s + 1\<rparr>"
    if "last_applied s < snapshot_index (node_log s)" "last_applied s < commit_index s"
    using that entry_Inl_iff [of "node_log s" "last_applied s + 1"]
    by (auto simp: apply_loop.simps [of e s] Let_def)
  moreover have "apply_loop e s = s" if "commit_index s \<le> last_applied s"
    using that by (simp add: apply_loop.simps [of e s])
  ultimately show ?thesis
    using apply_loop_machine [OF assms(1) _ _ assms(2), of e] by (simp add: Let_def not_le)
qed

definition demo_committed :: "unit raft_node" where
  "demo_committed = demo_stored\<lparr>commit_index := 1\<rparr>"

lemma demo_committed_facts:
  "contiguous (first_index (node_log demo_committed)) (entries (node_log demo_committed))"
  "snapshot_index (node_log demo_committed) = 0" "last_applied demo_committed = 0"
  "last_index (node_log demo_committed) = 1"
  by code_simp+

theorem apply_in_order_witness:
  "last_applied demo_committed = 0 \<and> last_applied (apply_entries demo_env demo_committed) = 1"
proof -
  have "commit_index demo_committed = 1" by (simp add: demo_committed_def)
  then show ?thesis
    using apply_in_order [of demo_committed demo_env] demo_committed_facts
    by (simp add: wf_log_contiguous Let_def del: One_nat_def)
qed

subsection \<open>Requests waiting at a leader\<close>

lemma fold_respond:
  "\<not> halted s \<Longrightarrow>
   fold (\<lambda>x. respond (f x) (g x)) xs s = s\<lparr>replies := replies s @ map (\<lambda>x. (f x, g x)) xs\<rparr>"
  by (induction xs arbitrary: s) (simp_all add: respond_def)

text \<open>
  C30: no client waits for a leader that stepped down. A running leader that becomes a follower
  answers every pending proposal and then every pending read with \<open>NotLeader\<close> and the leader it
  knows, once each and in order, keeps none of them, and gives up its lease.
\<close>

theorem step_down_answers:
  assumes "role s = Leader" and "\<not> halted s"
  shows "let s' = become_follower e t ldr s; no = IndexReply (Inl (NotLeader ldr))
         in replies s' = replies s @ map (\<lambda>(_, r). (r, no)) (pending_proposals s)
              @ map (\<lambda>req. (rr_resp req, no)) (pending (read_only s)) \<and>
            pending_proposals s' = [] \<and> pending (read_only s') = [] \<and>
            granted_at (lease s') = None \<and> role s' = Follower"
  using assms fold_respond [where f = snd and g = "\<lambda>_. IndexReply (Inl (NotLeader ldr))"]
  by (auto simp: become_follower_def fail_pending_def drain_all_def invalidate_def
      randomize_timeout_def fold_respond case_prod_unfold Let_def)

theorem step_down_answers_witness:
  "replies (become_follower demo_env 2 (Some 3) (demo_stored\<lparr>pending_proposals := [(1, 7)]\<rparr>)) =
     replies demo_stored @ [(7, IndexReply (Inl (NotLeader (Some 3))))]"
proof -
  have "\<not> halted demo_stored" "pending (read_only demo_stored) = []" by code_simp+
  then show ?thesis
    using step_down_answers [of "demo_stored\<lparr>pending_proposals := [(1, 7)]\<rparr>" demo_env 2 "Some 3"]
      demo_stored_facts(1)
    by (simp add: Let_def)
qed

text \<open>
  C38: a linearizable read is never confirmed by the flush of a group of two or more voters. The
  flush counts the node's own acknowledgement only, so with reads that nobody else acknowledged
  it answers none of them, however often it runs and however many peers are active; all of them
  stay queued, still acknowledged by nobody else.
\<close>

theorem flush_needs_other_acks:
  fixes s :: "'a raft_node"
  assumes "2 \<le> fcard (voters (membership s))"
    and "\<forall>req \<in> set (pending (read_only s)). rr_acks req |\<subseteq>| {|self_id s|}"
  shows "let s' = (maybe_flush_reads ^^ n) s
         in replies s' = replies s \<and>
            map rr_resp (pending (read_only s')) = map rr_resp (pending (read_only s)) \<and>
            (\<forall>req \<in> set (pending (read_only s')). rr_acks req |\<subseteq>| {|self_id s|})"
proof -
  define ok where "ok t \<longleftrightarrow> membership t = membership s \<and> self_id t = self_id s \<and>
      replies t = replies s \<and>
      map rr_resp (pending (read_only t)) = map rr_resp (pending (read_only s)) \<and>
      (\<forall>req \<in> set (pending (read_only t)). rr_acks req |\<subseteq>| {|self_id s|})"
    for t :: "'a raft_node"
  have "ok (maybe_flush_reads t)" if ok: "ok t" for t
  proof -
    let ?q = "quorum (fcard (voters (membership s)))" and ?f = "\<lambda>req. finsert (self_id s) (rr_acks req)"
    have acks: "?f req = {|self_id s|}" if "req \<in> set (pending (read_only t))" for req
      using ok that by (auto simp: ok_def)
    have "fcard {|self_id s|} = 1" by (simp add: fcard.rep_eq)
    then have "fcard {|self_id s|} < ?q" using assms(1) by (simp add: quorum_def)
    then have "filter (\<lambda>r. ?q \<le> fcard (rr_acks r))
        (map (\<lambda>req. req\<lparr>rr_acks := ?f req\<rparr>) (pending (read_only t))) = []"
      and "filter (\<lambda>r. fcard (rr_acks r) < ?q)
        (map (\<lambda>req. req\<lparr>rr_acks := ?f req\<rparr>) (pending (read_only t))) =
        map (\<lambda>req. req\<lparr>rr_acks := ?f req\<rparr>) (pending (read_only t))"
      by (auto simp: acks filter_empty_conv intro!: filter_True)
    then show ?thesis
      using ok acks by (auto simp: maybe_flush_reads_def ack_eq ok_def Let_def comp_def)
  qed
  moreover have "ok s" using assms(2) by (simp add: ok_def)
  ultimately have "ok ((maybe_flush_reads ^^ n) s)" by (induction n) simp_all
  then show ?thesis by (simp add: ok_def Let_def)
qed

definition demo_reading :: "unit raft_node" where
  "demo_reading = demo_stored\<lparr>read_only := fst (add_read (new_queue ReadIndex) 1 9)\<rparr>"

theorem flush_needs_other_acks_witness:
  "map rr_resp (pending (read_only ((maybe_flush_reads ^^ 3) demo_reading))) = [9]"
proof -
  have "fcard (voters (membership demo_reading)) = 3" by code_simp
  moreover have "pending (read_only demo_reading) = [\<lparr>rr_id = 1, rr_index = 1, rr_acks = {||}, rr_resp = 9\<rparr>]"
    by (simp add: demo_reading_def add_read_def new_queue_def Let_def)
  ultimately show ?thesis using flush_needs_other_acks [of demo_reading 3] by (simp add: Let_def)
qed

end
