(* ===== verification/Etcd_Types.thy ===== *)
theory Etcd_Types
  imports Prelude "HOL-Library.Word"
begin

section \<open>Data of the etcd store\<close>

text \<open>
  \<open>cave-etcd/src/error.rs\<close> and \<open>cave-etcd/src/models.rs\<close>: the error type and the records that
  requests, responses and the store are made of. A response that carries only the header is the
  header. A \<open>DateTime\<close> is a number of milliseconds. Fields keep their names, with a prefix
  where two records share one.
\<close>

type_synonym u32 = "32 word"

datatype etcd_error =
    KeyNotFound string
  | RevisionCompacted u64 u64
  | LeaseNotFound i64
  | LeaseExpired i64
  | CompareFailed string
  | WatchCancelled string
  | Internal string
  | AuthNotEnabled
  | AuthAlreadyEnabled
  | UserAlreadyExists string
  | UserNotFound string
  | RoleAlreadyExists string
  | RoleNotFound string
  | InvalidPassword
  | PermissionDenied
  | MemberNotFound u64
  | InvalidToken
  | PermissionAlreadyGranted
  | RoleNotGranted
  | TooManyTxnOps usize usize
  | MemberNotLearner u64
  | LearnerNotReady u64
  | JointConfigInProgress
  | NoJointConfig
  | WouldBreakQuorum
  | InvalidLeaseTtl i64
  | LeaseAlreadyExists i64
  | CompactionFutureRevision u64 u64
  | SnapshotChecksumMismatch string string
  | SnapshotDecode string
  | WatchNotFound i64
  | EtcdNotLeader u64 "u64 option"
  | LeaderLeaseExpired i64 u64
  | ReadIndexTimeout u64 u64
  | QuorumLost usize usize
  | PreVoteRejected string

type_synonym 'a etcd_result = "etcd_error + 'a"

subsection \<open>Keys, values and requests on them\<close>

record key_value =
  kv_key :: bytes
  kv_value :: bytes
  create_revision :: u64
  mod_revision :: u64
  version :: u64
  kv_lease :: "i64 option"

text \<open>
  \<open>value_str\<close> decodes with \<open>from_utf8_lossy\<close>; every value the store holds was a \<open>String\<close>, and
  decoding the bytes of a \<open>String\<close> gives it back.
\<close>

definition value_str :: "key_value \<Rightarrow> string" where
  "value_str self = kv_value self"

record response_header =
  cluster_id :: u64
  member_id :: u64
  hdr_revision :: u64
  raft_term :: u64

record range_request =
  rg_key :: string
  rg_range_end :: "string option"
  rg_limit :: "u64 option"
  rg_revision :: "u64 option"
  rg_keys_only :: bool
  rg_count_only :: bool

record range_response =
  rs_header :: response_header
  rs_kvs :: "key_value list"
  rs_count :: u64
  rs_more :: bool

record put_request =
  pt_key :: string
  pt_value :: string
  pt_lease :: "i64 option"
  pt_prev_kv :: bool

record put_response =
  pr_header :: response_header
  pr_prev_kv :: "key_value option"

record delete_range_request =
  dl_key :: string
  dl_range_end :: "string option"
  dl_prev_kv :: bool

record delete_range_response =
  dr_header :: response_header
  dr_deleted :: u64
  dr_prev_kvs :: "key_value list"

datatype compare_target = CmpVersion | CmpCreate | CmpMod | CmpValue

datatype compare_result = CmpEqual | CmpGreater | CmpLess | CmpNotEqual

record cmp_cond =
  cmp_key :: string
  cmp_target :: compare_target
  cmp_result :: compare_result
  cmp_value :: "string option"
  cmp_version :: "u64 option"
  cmp_mod_revision :: "u64 option"

datatype request_op =
    OpRange range_request
  | OpPut put_request
  | OpDeleteRange delete_range_request

record txn_request =
  tx_compare :: "cmp_cond list"
  tx_success :: "request_op list"
  tx_failure :: "request_op list"

record txn_response =
  tr_header :: response_header
  tr_succeeded :: bool

subsection \<open>Leases and watches\<close>

record lease_grant_request =
  lg_ttl :: i64
  lg_id :: "i64 option"

record lease_grant_response =
  lgr_header :: response_header
  lgr_id :: i64
  lgr_ttl :: i64

record lease =
  lease_id :: i64
  lease_ttl :: i64
  lease_granted_at :: i64
  lease_keys :: "string list"

record lease_keepalive_response =
  ka_header :: response_header
  ka_id :: i64
  ka_ttl :: i64

record lease_ttl_request =
  lt_id :: i64
  lt_keys :: bool

record lease_ttl_response =
  ltr_header :: response_header
  ltr_id :: i64
  ltr_ttl :: i64
  ltr_granted_ttl :: i64
  ltr_keys :: "bytes list"

record lease_leases_response =
  lls_header :: response_header
  lls_leases :: "i64 list"

datatype event_type = EvPut | EvDelete

record watch_event =
  we_type :: event_type
  we_kv :: key_value
  we_prev_kv :: "key_value option"

record watch_create_request =
  wc_key :: string
  wc_range_end :: "string option"
  wc_start_revision :: "u64 option"
  wc_progress_notify :: bool
  wc_prev_kv :: bool

record watch_response =
  wr_header :: response_header
  wr_watch_id :: i64
  wr_created :: bool
  wr_events :: "watch_event list"

record watch_config =
  wcfg_id :: i64
  wcfg_key :: bytes
  wcfg_range_end :: "bytes option"
  wcfg_start_revision :: "u64 option"
  wcfg_prev_kv :: bool

record watch_progress_event =
  wp_header :: response_header
  wp_watch_id :: i64

subsection \<open>Users, roles and permissions\<close>

datatype perm_type = PermRead | PermWrite | PermReadwrite

record permission =
  perm_kind :: perm_type
  perm_key :: string
  perm_range_end :: "string option"

record auth_user =
  user_name :: string
  user_password :: string
  user_roles :: "string list"

record auth_role =
  role_name :: string
  key_permission :: "permission list"

record authenticate_response =
  au_header :: response_header
  au_token :: string

subsection \<open>Cluster, maintenance and snapshots\<close>

record member =
  mb_id :: u64
  mb_name :: string
  mb_peer_urls :: "string list"
  mb_client_urls :: "string list"
  mb_is_learner :: bool

datatype alarm_type = NoAlarm | Nospace | Corrupt

datatype alarm_action = AlarmGet | AlarmActivate | AlarmDeactivate

record alarm_member =
  al_member_id :: u64
  al_alarm :: alarm_type

record alarm_request =
  ar_action :: alarm_action
  ar_member_id :: u64
  ar_alarm :: alarm_type

record alarm_response =
  ars_header :: response_header
  ars_alarms :: "alarm_member list"

record hash_response =
  hr_header :: response_header
  hr_hash :: u32
  hr_compact_revision :: u64
  hr_hash_revision :: u64

record member_add_request =
  ma_peer_urls :: "string list"
  ma_is_learner :: bool

record member_add_response =
  mar_header :: response_header
  mar_member :: member
  mar_members :: "member list"

record members_response =
  mr_header :: response_header
  mr_members :: "member list"

record joint_config =
  jc_outgoing :: "u64 list"
  jc_incoming :: "u64 list"
  jc_learners :: "u64 list"

definition joint_is_empty :: "joint_config \<Rightarrow> bool" where
  "joint_is_empty self = (jc_outgoing self = [] \<and> jc_incoming self = [])"

record enter_joint_request =
  ej_adds :: "member_add_request list"
  ej_removes :: "u64 list"

record enter_joint_response =
  ejr_header :: response_header
  ejr_joint :: joint_config
  ejr_members :: "member list"

record stream_chunk =
  sc_header :: response_header
  sc_remaining_bytes :: u64
  sc_blob :: bytes
  sc_checksum :: string

record kv_snapshot_meta =
  sm_revision :: u64
  sm_compact_revision :: u64
  sm_size_bytes :: u64
  sm_checksum :: string
  sm_member_count :: usize
  sm_lease_count :: usize

datatype raft_role = RLeader | RFollower | RCandidate | RPreCandidate | RLearner

record pre_vote_result =
  pv_granted :: bool
  pv_term :: u64
  pv_reason :: string

record read_index_result =
  ri_read_index :: u64
  ri_applied_index :: u64
  ri_via_leader_lease :: bool

record snapshot_sender_state =
  ss_revision :: u64
  ss_total_bytes :: u64
  ss_sent_bytes :: u64
  ss_checksum :: string
  ss_chunks_sent :: u64
  ss_completed :: bool

record learner_readiness =
  lr_member_id :: u64
  lr_leader_index :: u64
  lr_learner_index :: u64
  lr_ready_lag :: u64
  lr_ready :: bool

record defragment_status =
  df_bytes_before :: u64
  df_bytes_after :: u64
  df_bytes_freed :: u64
  df_fragmented_pages :: u64

end
