(* ===== verification/Etcd_Store.thy ===== *)
theory Etcd_Store
  imports Etcd_Types
begin

section \<open>The key-value store\<close>

text \<open>
  \<open>cave-etcd/src/store.rs\<close>: the record \<open>kv_store\<close> has the fields of \<open>KvStore\<close>; this theory holds
  the operations on keys, transactions, watches, leases and compaction, in the order of the
  file.

  A \<open>DashMap\<close> is an association list; the order of its iteration, which Rust leaves open, is
  the order of the list. The broadcast channel is the list of events published on it, a watch
  inbox the list of events sent to it and whether its receiver is still there. Locks and
  atomics are not modelled: an operation runs to its end before the next one starts. The
  current time, in milliseconds, is an argument of the operations that read the clock.
\<close>

record inbox =
  inbox_open :: bool
  inbox_events :: "watch_event list"

record kv_store =
  current :: "(bytes \<times> key_value) list"
  history :: "(u64 \<times> bytes \<times> event_type \<times> key_value) list"
  key_index :: "(bytes \<times> u64 list) list"
  revision :: u64
  watch_tx :: "watch_event list"
  watch_configs :: "(i64 \<times> watch_config) list"
  watch_inboxes :: "(i64 \<times> inbox) list"
  leases :: "(i64 \<times> lease) list"
  lease_counter :: u64
  compacted_revision :: u64
  auth_enabled :: bool
  users :: "(string \<times> auth_user) list"
  roles :: "(string \<times> auth_role) list"
  auth_tokens :: "(string \<times> string) list"
  alarms :: "alarm_member list"
  members :: "member list"
  joint :: "joint_config option"
  watch_counter :: u64
  kv_role :: raft_role
  kv_term :: u64
  kv_applied_index :: u64
  kv_commit_index :: u64
  kv_match_index :: "(u64 \<times> u64) list"
  leader_lease_granted_at :: i64
  leader_lease_ttl_ms :: u64
  member_health :: "(u64 \<times> i64) list"
  learner_index :: "(u64 \<times> u64) list"
  snapshot_senders :: "(string \<times> snapshot_sender_state) list"
  snapshot_blobs :: "(string \<times> bytes) list"
  auto_leave_joint_at_index :: u64
  defrag_history :: "defragment_status list"
  compaction_watermark :: u64
  bg_cancel :: bool

definition MAX_LEASE_TTL_SECS :: i64 where
  "MAX_LEASE_TTL_SECS = 9000"

definition DEFAULT_LEADER_LEASE_TTL_MS :: u64 where
  "DEFAULT_LEADER_LEASE_TTL_MS = 5000"

text \<open>
  Evaluation by rewriting writes naturals in unary, so the lease default stays a symbol there:
  no witness depends on its value.
\<close>

declare DEFAULT_LEADER_LEASE_TTL_MS_def [code del]

definition MAX_TXN_OPS :: usize where
  "MAX_TXN_OPS = 128"

definition initial_members :: "member list" where
  "initial_members =
     [\<lparr>mb_id = 1, mb_name = ''default'', mb_peer_urls = [''http://localhost:2380''],
       mb_client_urls = [''http://localhost:2379''], mb_is_learner = False\<rparr>]"

definition new_store :: "i64 \<Rightarrow> kv_store" where
  "new_store now =
     \<lparr>current = [], history = [], key_index = [], revision = 1, watch_tx = [],
      watch_configs = [], watch_inboxes = [], leases = [], lease_counter = 1,
      compacted_revision = 0, auth_enabled = False, users = [], roles = [], auth_tokens = [],
      alarms = [], members = initial_members, joint = None, watch_counter = 0,
      kv_role = RLeader, kv_term = 1, kv_applied_index = 0, kv_commit_index = 0,
      kv_match_index = [], leader_lease_granted_at = now,
      leader_lease_ttl_ms = DEFAULT_LEADER_LEASE_TTL_MS, member_health = [],
      learner_index = [], snapshot_senders = [], snapshot_blobs = [],
      auto_leave_joint_at_index = 0, defrag_history = [], compaction_watermark = 0,
      bg_cancel = False\<rparr>"

definition current_revision :: "kv_store \<Rightarrow> u64" where
  "current_revision self = revision self"

definition next_revision :: "kv_store \<Rightarrow> u64 \<times> kv_store" where
  "next_revision self = (revision self + 1, self\<lparr>revision := revision self + 1\<rparr>)"

definition header :: "kv_store \<Rightarrow> response_header" where
  "header self = \<lparr>cluster_id = 1, member_id = 1, hdr_revision = current_revision self,
                  raft_term = 1\<rparr>"

subsection \<open>Multi-version helpers\<close>

definition index_push :: "bytes \<Rightarrow> u64 \<Rightarrow> kv_store \<Rightarrow> kv_store" where
  "index_push key rv self =
     self\<lparr>key_index :=
            AList.update key
              ((case map_of (key_index self) key of Some revs \<Rightarrow> revs | None \<Rightarrow> []) @ [rv])
              (key_index self)\<rparr>"

definition get_at_revision :: "kv_store \<Rightarrow> bytes \<Rightarrow> u64 \<Rightarrow> key_value option" where
  "get_at_revision self key target_rev =
     (case map_of (key_index self) key of
        None \<Rightarrow> None
      | Some revs \<Rightarrow>
          (case find (\<lambda>r. r \<le> target_rev) (rev revs) of
             None \<Rightarrow> None
           | Some r \<Rightarrow>
               (case map_of (history self) r of
                  None \<Rightarrow> None
                | Some (_, event_type, kv) \<Rightarrow>
                    if event_type = EvDelete then None else Some kv)))"

definition key_matches_watch :: "bytes \<Rightarrow> watch_config \<Rightarrow> bool" where
  "key_matches_watch key config =
     (case wcfg_range_end config of
        Some range_end \<Rightarrow> key \<ge> wcfg_key config \<and> key < range_end
      | None \<Rightarrow> key = wcfg_key config)"

definition get_historical_events :: "kv_store \<Rightarrow> watch_config \<Rightarrow> u64 \<Rightarrow> watch_event list" where
  "get_historical_events self config from_rev =
     (let start = max from_rev (compacted_revision self + 1)
      in map (\<lambda>(_, key, event_type, kv).
                \<lparr>we_type = event_type, we_kv = kv, we_prev_kv = None\<rparr>)
           (filter (\<lambda>(r, key, event_type, kv). start \<le> r \<and> key_matches_watch key config)
              (history self)))"

definition get_watch_config :: "kv_store \<Rightarrow> i64 \<Rightarrow> watch_config option" where
  "get_watch_config self watch_id = map_of (watch_configs self) watch_id"

text \<open>
  \<open>dispatch_event\<close>: what the loop does to one inbox. \<open>None\<close> says that the inbox is pruned: its
  watch has no configuration any more or its receiver is gone.
\<close>

definition deliver :: "kv_store \<Rightarrow> watch_event \<Rightarrow> i64 \<Rightarrow> inbox \<Rightarrow> inbox option" where
  "deliver self event wid ib =
     (case map_of (watch_configs self) wid of
        None \<Rightarrow> None
      | Some cfg \<Rightarrow>
          if \<not> key_matches_watch (kv_key (we_kv event)) cfg then Some ib
          else let local = (if wcfg_prev_kv cfg then event else event\<lparr>we_prev_kv := None\<rparr>)
               in if inbox_open ib then Some (ib\<lparr>inbox_events := inbox_events ib @ [local]\<rparr>)
                  else None)"

definition dispatch_event :: "watch_event \<Rightarrow> kv_store \<Rightarrow> kv_store" where
  "dispatch_event event self =
     self\<lparr>watch_tx := watch_tx self @ [event],
          watch_inboxes :=
            List.map_filter (\<lambda>(wid, ib). map_option (Pair wid) (deliver self event wid ib))
              (watch_inboxes self)\<rparr>"

subsection \<open>Put, range and delete\<close>

definition lease_detach :: "bytes \<Rightarrow> i64 option \<Rightarrow> kv_store \<Rightarrow> kv_store" where
  "lease_detach key lid self =
     (case lid of
        None \<Rightarrow> self
      | Some i \<Rightarrow>
          self\<lparr>leases :=
                 alist_modify i (\<lambda>l. l\<lparr>lease_keys := filter (\<lambda>k. k \<noteq> key) (lease_keys l)\<rparr>)
                   (leases self)\<rparr>)"

definition lease_attach :: "bytes \<Rightarrow> i64 option \<Rightarrow> kv_store \<Rightarrow> kv_store" where
  "lease_attach key lid self =
     (case lid of
        None \<Rightarrow> self
      | Some i \<Rightarrow>
          self\<lparr>leases :=
                 alist_modify i
                   (\<lambda>l. if key \<in> set (lease_keys l) then l
                        else l\<lparr>lease_keys := lease_keys l @ [key]\<rparr>)
                   (leases self)\<rparr>)"

definition put_kv :: "put_request \<Rightarrow> u64 \<Rightarrow> key_value option \<Rightarrow> key_value" where
  "put_kv req rv prev_kv =
     \<lparr>kv_key = pt_key req, kv_value = pt_value req,
      create_revision = (case prev_kv of Some p \<Rightarrow> create_revision p | None \<Rightarrow> rv),
      mod_revision = rv,
      version = (case prev_kv of Some p \<Rightarrow> version p + 1 | None \<Rightarrow> 1),
      kv_lease = pt_lease req\<rparr>"

definition put :: "put_request \<Rightarrow> kv_store \<Rightarrow> put_response \<times> kv_store" where
  "put req self =
     (let key = pt_key req;
          (rv, self) = next_revision self;
          prev_kv = map_of (current self) key;
          self = (case prev_kv of
                    Some old \<Rightarrow>
                      if kv_lease old \<noteq> pt_lease req then lease_detach key (kv_lease old) self
                      else self
                  | None \<Rightarrow> self);
          kv = put_kv req rv prev_kv;
          self = self\<lparr>current := AList.update key kv (current self)\<rparr>;
          self = index_push key rv self;
          self = self\<lparr>history := bt_insert rv (key, EvPut, kv) (history self)\<rparr>;
          self = lease_attach key (pt_lease req) self;
          self = dispatch_event \<lparr>we_type = EvPut, we_kv = kv, we_prev_kv = prev_kv\<rparr> self
      in (\<lparr>pr_header = header self, pr_prev_kv = (if pt_prev_kv req then prev_kv else None)\<rparr>,
          self))"

text \<open>What \<open>range\<close> and \<open>range_at_revision\<close> do with the pairs they found.\<close>

definition in_range :: "bytes \<Rightarrow> bytes \<Rightarrow> bytes \<Rightarrow> bool" where
  "in_range lo hi k = (k \<ge> lo \<and> k < hi)"

definition range_reply :: "kv_store \<Rightarrow> range_request \<Rightarrow> key_value list \<Rightarrow> range_response" where
  "range_reply self req kvs =
     (let count = length kvs
      in if rg_count_only req
         then \<lparr>rs_header = header self, rs_kvs = [], rs_count = count, rs_more = False\<rparr>
         else
           let (kvs, more) = (case rg_limit req of
                                Some limit \<Rightarrow>
                                  if length kvs > limit then (take limit kvs, True)
                                  else (kvs, False)
                              | None \<Rightarrow> (kvs, False));
               kvs = (if rg_keys_only req then map (\<lambda>kv. kv\<lparr>kv_value := []\<rparr>) kvs else kvs)
           in \<lparr>rs_header = header self, rs_kvs = kvs, rs_count = count, rs_more = more\<rparr>)"

definition range_at_revision ::
  "kv_store \<Rightarrow> range_request \<Rightarrow> u64 \<Rightarrow> range_response etcd_result" where
  "range_at_revision self req target_rev =
     (let key_bytes = rg_key req;
          kvs = (case rg_range_end req of
                   Some range_end \<Rightarrow>
                     sort_key kv_key
                       (List.map_filter (\<lambda>(k, _). if in_range key_bytes range_end k
                                                  then get_at_revision self k target_rev
                                                  else None)
                          (key_index self))
                 | None \<Rightarrow>
                     (case get_at_revision self key_bytes target_rev of
                        Some kv \<Rightarrow> [kv] | None \<Rightarrow> []))
      in Inr (range_reply self req kvs))"

definition kv_range :: "kv_store \<Rightarrow> range_request \<Rightarrow> range_response etcd_result" where
  "kv_range self req =
     (let compacted = compacted_revision self
      in case rg_revision req of
           Some target_rev \<Rightarrow>
             if target_rev < compacted \<and> compacted > 0
             then Inl (RevisionCompacted target_rev compacted)
             else range_at_revision self req target_rev
         | None \<Rightarrow>
             (let key_bytes = rg_key req;
                  kvs = (case rg_range_end req of
                           Some range_end \<Rightarrow>
                             sort_key kv_key
                               (map snd (filter (\<lambda>(k, _). in_range key_bytes range_end k)
                                           (current self)))
                         | None \<Rightarrow>
                             (case map_of (current self) key_bytes of
                                Some kv \<Rightarrow> [kv] | None \<Rightarrow> []))
              in Inr (range_reply self req kvs)))"

definition make_delete_kv :: "key_value \<Rightarrow> u64 \<Rightarrow> key_value" where
  "make_delete_kv kv rv =
     \<lparr>kv_key = kv_key kv, kv_value = [], create_revision = create_revision kv,
      mod_revision = rv, version = 0, kv_lease = None\<rparr>"

definition remove_key_from_lease :: "bytes \<Rightarrow> i64 option \<Rightarrow> kv_store \<Rightarrow> kv_store" where
  "remove_key_from_lease key lid self = lease_detach key lid self"

text \<open>
  The removal of one live key at a given revision, as \<open>delete_range\<close> does it in its loop and on
  a single key. \<open>None\<close>: the key is not there and nothing happens.
\<close>

definition delete_one :: "u64 \<Rightarrow> bytes \<Rightarrow> kv_store \<Rightarrow> (key_value \<times> kv_store) option" where
  "delete_one rv key self =
     (case map_of (current self) key of
        None \<Rightarrow> None
      | Some kv \<Rightarrow>
          (let self = self\<lparr>current := AList.delete key (current self)\<rparr>;
               self = remove_key_from_lease key (kv_lease kv) self;
               delete_kv = make_delete_kv kv rv;
               self = index_push key rv self;
               self = self\<lparr>history := bt_insert rv (key, EvDelete, delete_kv) (history self)\<rparr>;
               self = dispatch_event
                        \<lparr>we_type = EvDelete, we_kv = delete_kv, we_prev_kv = Some kv\<rparr> self
           in Some (kv, self)))"

fun delete_keys ::
  "u64 \<Rightarrow> bytes list \<Rightarrow> kv_store \<Rightarrow> key_value list \<times> kv_store" where
  "delete_keys rv [] self = ([], self)"
| "delete_keys rv (key # ks) self =
     (case delete_one rv key self of
        None \<Rightarrow> delete_keys rv ks self
      | Some (kv, self) \<Rightarrow>
          (let (kvs, self) = delete_keys rv ks self in (kv # kvs, self)))"

definition delete_range :: "delete_range_request \<Rightarrow> kv_store \<Rightarrow> delete_range_response \<times> kv_store" where
  "delete_range req self =
     (let key_bytes = dl_key req;
          (rv, self) = next_revision self;
          keys_to_delete = (case dl_range_end req of
                              Some range_end \<Rightarrow>
                                filter (in_range key_bytes range_end) (map fst (current self))
                            | None \<Rightarrow> [key_bytes]);
          (kvs, self) = delete_keys rv keys_to_delete self
      in (\<lparr>dr_header = header self, dr_deleted = length kvs,
           dr_prev_kvs = (if dl_prev_kv req then kvs else [])\<rparr>, self))"

subsection \<open>Transactions\<close>

fun compare_nat :: "compare_result \<Rightarrow> u64 \<Rightarrow> u64 \<Rightarrow> bool" where
  "compare_nat CmpEqual a b = (a = b)"
| "compare_nat CmpGreater a b = (a > b)"
| "compare_nat CmpLess a b = (a < b)"
| "compare_nat CmpNotEqual a b = (a \<noteq> b)"

definition point_read :: "string \<Rightarrow> range_request" where
  "point_read key = \<lparr>rg_key = key, rg_range_end = None, rg_limit = None, rg_revision = None,
                     rg_keys_only = False, rg_count_only = False\<rparr>"

text \<open>
  One comparison. A key that is not there counts as version, creation and modification
  revision 0. Ordering comparisons of values fall through to the catch-all and pass.
\<close>

definition compare_pass :: "kv_store \<Rightarrow> cmp_cond \<Rightarrow> bool" where
  "compare_pass self cmp =
     (let kv = (case kv_range self (point_read (cmp_key cmp)) of
                  Inl _ \<Rightarrow> None
                | Inr r \<Rightarrow> (case rs_kvs r of [] \<Rightarrow> None | k # _ \<Rightarrow> Some k));
          get = (\<lambda>f. case kv of Some k \<Rightarrow> f k | None \<Rightarrow> 0);
          opt = (\<lambda>x. case x of Some n \<Rightarrow> n | None \<Rightarrow> 0)
      in case cmp_target cmp of
           CmpVersion \<Rightarrow> compare_nat (cmp_result cmp) (get version) (opt (cmp_version cmp))
         | CmpCreate \<Rightarrow>
             compare_nat (cmp_result cmp) (get create_revision) (opt (cmp_mod_revision cmp))
         | CmpMod \<Rightarrow>
             compare_nat (cmp_result cmp) (get mod_revision) (opt (cmp_mod_revision cmp))
         | CmpValue \<Rightarrow>
             (case cmp_result cmp of
                CmpEqual \<Rightarrow> map_option value_str kv = cmp_value cmp
              | CmpNotEqual \<Rightarrow> map_option value_str kv \<noteq> cmp_value cmp
              | _ \<Rightarrow> True))"

definition run_op :: "request_op \<Rightarrow> kv_store \<Rightarrow> kv_store" where
  "run_op op self =
     (case op of
        OpPut p \<Rightarrow> snd (put p self)
      | OpDeleteRange d \<Rightarrow> snd (delete_range d self)
      | OpRange _ \<Rightarrow> self)"

definition txn :: "txn_request \<Rightarrow> kv_store \<Rightarrow> txn_response \<times> kv_store" where
  "txn req self =
     (let succeeded = list_all (compare_pass self) (tx_compare req);
          ops = (if succeeded then tx_success req else tx_failure req);
          self = fold run_op ops self
      in (\<lparr>tr_header = \<lparr>cluster_id = 1, member_id = 1, hdr_revision = current_revision self,
                         raft_term = 1\<rparr>,
           tr_succeeded = succeeded\<rparr>, self))"

definition txn_checked :: "txn_request \<Rightarrow> kv_store \<Rightarrow> txn_response etcd_result \<times> kv_store" where
  "txn_checked req self =
     (let ops = length (tx_compare req) + length (tx_success req) + length (tx_failure req)
      in if ops > MAX_TXN_OPS then (Inl (TooManyTxnOps ops MAX_TXN_OPS), self)
         else let (r, self) = txn req self in (Inr r, self))"

subsection \<open>Watches\<close>

definition watch_create :: "watch_create_request \<Rightarrow> kv_store \<Rightarrow> watch_response \<times> kv_store" where
  "watch_create req self =
     (let watch_id = int (watch_counter self) + 1;
          self = self\<lparr>watch_counter := watch_counter self + 1\<rparr>;
          config = \<lparr>wcfg_id = watch_id, wcfg_key = wc_key req,
                    wcfg_range_end = wc_range_end req,
                    wcfg_start_revision = wc_start_revision req,
                    wcfg_prev_kv = wc_prev_kv req\<rparr>;
          events = (case wc_start_revision req of
                      Some start_rev \<Rightarrow> get_historical_events self config start_rev
                    | None \<Rightarrow> []);
          self = self\<lparr>watch_configs := AList.update watch_id config (watch_configs self)\<rparr>
      in (\<lparr>wr_header = header self, wr_watch_id = watch_id, wr_created = True,
           wr_events = events\<rparr>, self))"

definition watch_subscribe :: "i64 \<Rightarrow> kv_store \<Rightarrow> unit etcd_result \<times> kv_store" where
  "watch_subscribe watch_id self =
     (if \<not> contains_key (watch_configs self) watch_id
      then (Inl (WatchNotFound watch_id), self)
      else (Inr (), self\<lparr>watch_inboxes :=
                          AList.update watch_id \<lparr>inbox_open = True, inbox_events = []\<rparr>
                            (watch_inboxes self)\<rparr>))"

definition watch_cancel :: "i64 \<Rightarrow> kv_store \<Rightarrow> unit etcd_result \<times> kv_store" where
  "watch_cancel watch_id self =
     (let removed_cfg = contains_key (watch_configs self) watch_id;
          self1 = self\<lparr>watch_configs := AList.delete watch_id (watch_configs self)\<rparr>;
          removed_inbox = contains_key (watch_inboxes self1) watch_id;
          self2 = self1\<lparr>watch_inboxes := AList.delete watch_id (watch_inboxes self1)\<rparr>
      in if \<not> removed_cfg \<and> \<not> removed_inbox then (Inl (WatchNotFound watch_id), self2)
         else (Inr (), self2))"

definition watch_progress :: "kv_store \<Rightarrow> i64 \<Rightarrow> watch_progress_event etcd_result" where
  "watch_progress self watch_id =
     (if \<not> contains_key (watch_configs self) watch_id then Inl (WatchNotFound watch_id)
      else Inr \<lparr>wp_header = header self, wp_watch_id = watch_id\<rparr>)"

definition active_watch_count :: "kv_store \<Rightarrow> usize" where
  "active_watch_count self = length (watch_inboxes self)"

subsection \<open>Leases\<close>

definition lease_grant :: "i64 \<Rightarrow> lease_grant_request \<Rightarrow> kv_store \<Rightarrow> lease_grant_response \<times> kv_store" where
  "lease_grant now req self =
     (let (i, self) = (case lg_id req of
                         Some i \<Rightarrow> (i, self)
                       | None \<Rightarrow> (int (lease_counter self) + 1,
                                  self\<lparr>lease_counter := lease_counter self + 1\<rparr>));
          self = self\<lparr>leases :=
                        AList.update i \<lparr>lease_id = i, lease_ttl = lg_ttl req,
                                        lease_granted_at = now, lease_keys = []\<rparr> (leases self)\<rparr>
      in (\<lparr>lgr_header = header self, lgr_id = i, lgr_ttl = lg_ttl req\<rparr>, self))"

definition lease_grant_v2 ::
  "i64 \<Rightarrow> lease_grant_request \<Rightarrow> kv_store \<Rightarrow> lease_grant_response etcd_result \<times> kv_store" where
  "lease_grant_v2 now req self =
     (if lg_ttl req < 0 then (Inl (InvalidLeaseTtl (lg_ttl req)), self)
      else if (case lg_id req of Some i \<Rightarrow> i \<noteq> 0 \<and> contains_key (leases self) i | None \<Rightarrow> False)
      then (Inl (LeaseAlreadyExists (the (lg_id req))), self)
      else
        let ttl = min (lg_ttl req) MAX_LEASE_TTL_SECS;
            (i, self) = (if lg_id req = None \<or> lg_id req = Some 0
                         then (int (lease_counter self) + 1,
                               self\<lparr>lease_counter := lease_counter self + 1\<rparr>)
                         else (the (lg_id req), self));
            self = self\<lparr>leases :=
                          AList.update i \<lparr>lease_id = i, lease_ttl = ttl,
                                          lease_granted_at = now, lease_keys = []\<rparr> (leases self)\<rparr>
        in (Inr \<lparr>lgr_header = header self, lgr_id = i, lgr_ttl = ttl\<rparr>, self))"

text \<open>
  The loop of \<open>lease_revoke\<close>: unlike \<open>delete_range\<close> it takes a new revision for every key, and
  the lease is already gone from the table.
\<close>

definition revoke_key :: "bytes \<Rightarrow> kv_store \<Rightarrow> kv_store" where
  "revoke_key key self =
     (case map_of (current self) key of
        None \<Rightarrow> self
      | Some kv \<Rightarrow>
          (let self = self\<lparr>current := AList.delete key (current self)\<rparr>;
               (rv, self) = next_revision self;
               delete_kv = make_delete_kv kv rv;
               self = index_push key rv self;
               self = self\<lparr>history := bt_insert rv (key, EvDelete, delete_kv) (history self)\<rparr>
           in dispatch_event \<lparr>we_type = EvDelete, we_kv = delete_kv, we_prev_kv = Some kv\<rparr> self))"

definition lease_revoke :: "i64 \<Rightarrow> kv_store \<Rightarrow> unit etcd_result \<times> kv_store" where
  "lease_revoke i self =
     (case map_of (leases self) i of
        None \<Rightarrow> (Inl (LeaseNotFound i), self)
      | Some l \<Rightarrow>
          (Inr (), fold revoke_key (lease_keys l)
                     (self\<lparr>leases := AList.delete i (leases self)\<rparr>)))"

definition lease_keepalive ::
  "i64 \<Rightarrow> i64 \<Rightarrow> kv_store \<Rightarrow> lease_keepalive_response etcd_result \<times> kv_store" where
  "lease_keepalive now i self =
     (case map_of (leases self) i of
        None \<Rightarrow> (Inl (LeaseNotFound i), self)
      | Some l \<Rightarrow>
          (let self = self\<lparr>leases := AList.update i (l\<lparr>lease_granted_at := now\<rparr>) (leases self)\<rparr>
           in (Inr \<lparr>ka_header = header self, ka_id = i, ka_ttl = lease_ttl l\<rparr>, self)))"

text \<open>Whole seconds of a duration in milliseconds, rounded towards zero.\<close>

definition num_seconds :: "i64 \<Rightarrow> i64" where
  "num_seconds ms = (if ms \<ge> 0 then ms div 1000 else - ((- ms) div 1000))"

definition lease_timetolive ::
  "i64 \<Rightarrow> lease_ttl_request \<Rightarrow> kv_store \<Rightarrow> lease_ttl_response etcd_result" where
  "lease_timetolive now req self =
     (case map_of (leases self) (lt_id req) of
        None \<Rightarrow> Inl (LeaseNotFound (lt_id req))
      | Some l \<Rightarrow>
          (let elapsed = num_seconds (now - lease_granted_at l)
           in Inr \<lparr>ltr_header = header self, ltr_id = lt_id req,
                   ltr_ttl = max (lease_ttl l - elapsed) 0, ltr_granted_ttl = lease_ttl l,
                   ltr_keys = (if lt_keys req then lease_keys l else [])\<rparr>))"

definition lease_leases :: "kv_store \<Rightarrow> lease_leases_response" where
  "lease_leases self = \<lparr>lls_header = header self, lls_leases = map fst (leases self)\<rparr>"

definition lease_expired :: "i64 \<Rightarrow> lease \<Rightarrow> bool" where
  "lease_expired now l = (num_seconds (now - lease_granted_at l) \<ge> lease_ttl l)"

definition expire_leases :: "i64 \<Rightarrow> kv_store \<Rightarrow> kv_store" where
  "expire_leases now self =
     (let expired_ids = map fst (filter (\<lambda>(_, l). lease_expired now l) (leases self))
      in fold (\<lambda>i s. snd (lease_revoke i s)) expired_ids self)"

definition lease_attached_keys :: "kv_store \<Rightarrow> i64 \<Rightarrow> usize etcd_result" where
  "lease_attached_keys self i =
     (case map_of (leases self) i of
        Some l \<Rightarrow> Inr (length (lease_keys l)) | None \<Rightarrow> Inl (LeaseNotFound i))"

subsection \<open>Compaction\<close>

definition compact_to :: "u64 \<Rightarrow> kv_store \<Rightarrow> kv_store" where
  "compact_to rv self =
     self\<lparr>compacted_revision := rv, history := filter (\<lambda>(r, _). \<not> r < rv) (history self)\<rparr>"

definition compaction :: "u64 \<Rightarrow> kv_store \<Rightarrow> response_header \<times> kv_store" where
  "compaction rv self = (let self = compact_to rv self in (header self, self))"

text \<open>
  The pruning of one index entry: \<open>partition_point\<close> on the increasing list counts the
  revisions up to \<open>rv\<close>; the last of them and everything after it stay.
\<close>

definition prune_index :: "u64 \<Rightarrow> u64 list \<Rightarrow> u64 list" where
  "prune_index rv revs =
     (let split = length (takeWhile (\<lambda>r. r \<le> rv) revs)
      in if split \<le> 1 then revs else drop (split - 1) revs)"

definition compact_v2 :: "u64 \<Rightarrow> kv_store \<Rightarrow> unit etcd_result \<times> kv_store" where
  "compact_v2 rv self =
     (if rv = 0 then (Inr (), self)
      else if rv > current_revision self
      then (Inl (CompactionFutureRevision rv (current_revision self)), self)
      else if rv \<le> compacted_revision self then (Inr (), self)
      else
        let self = self\<lparr>compacted_revision := rv\<rparr>;
            self = self\<lparr>history := filter (\<lambda>(r, _). \<not> r < rv) (history self)\<rparr>;
            self = self\<lparr>key_index := map (\<lambda>(k, revs). (k, prune_index rv revs)) (key_index self)\<rparr>
        in (Inr (), self))"

definition set_compaction_watermark :: "u64 \<Rightarrow> kv_store \<Rightarrow> unit etcd_result \<times> kv_store" where
  "set_compaction_watermark rv self =
     (if rv > current_revision self
      then (Inl (CompactionFutureRevision rv (current_revision self)), self)
      else (Inr (), self\<lparr>compaction_watermark := max (compaction_watermark self) rv\<rparr>))"

definition apply_compaction_watermark :: "kv_store \<Rightarrow> u64 etcd_result \<times> kv_store" where
  "apply_compaction_watermark self =
     (let wm = compaction_watermark self
      in if wm = 0 \<or> wm \<le> compacted_revision self then (Inr (compacted_revision self), self)
         else case compact_v2 wm self of
                (Inl e, self) \<Rightarrow> (Inl e, self)
              | (Inr _, self) \<Rightarrow> (Inr (compacted_revision self), self))"

definition estimated_db_bytes :: "kv_store \<Rightarrow> u64" where
  "estimated_db_bytes self =
     sum_list (map (\<lambda>(k, kv). length k + length (kv_value kv)) (current self)) +
     sum_list (map (\<lambda>(_, revs). length revs * 8) (key_index self))"

definition defragment_with_status :: "kv_store \<Rightarrow> defragment_status \<times> kv_store" where
  "defragment_with_status self =
     (let bytes_before = estimated_db_bytes self;
          compacted = compacted_revision self;
          self = self\<lparr>key_index := map (\<lambda>(k, revs). (k, filter (\<lambda>r. r \<ge> compacted) revs))
                                     (key_index self)\<rparr>;
          bytes_after = estimated_db_bytes self;
          bytes_freed = bytes_before - bytes_after;
          status = \<lparr>df_bytes_before = bytes_before, df_bytes_after = bytes_after,
                    df_bytes_freed = bytes_freed,
                    df_fragmented_pages = (bytes_freed + 4095) div 4096\<rparr>
      in (status, self\<lparr>defrag_history := defrag_history self @ [status]\<rparr>))"

definition last_defragment_status :: "kv_store \<Rightarrow> defragment_status option" where
  "last_defragment_status self =
     (if defrag_history self = [] then None else Some (last (defrag_history self)))"

end
