(* ===== verification/Etcd_Mvcc.thy ===== *)
theory Etcd_Mvcc
  imports Etcd_Store
begin

section \<open>Multi-version correctness of the store\<close>

text \<open>
  The commands of the store as a datatype with their effect \<open>exec\<close>; the invariant \<open>mvcc_wf\<close> that
  ties the live keys, the revision history and the per-key index together, kept by every
  command; and what it gives: reads at a past revision never change, and a read at the current
  revision sees the live keys.
\<close>

datatype kv_cmd =
    CPut put_request
  | CDelete delete_range_request
  | CTxn txn_request
  | CGrant i64 lease_grant_request
  | CGrantV2 i64 lease_grant_request
  | CRevoke i64
  | CKeepalive i64 i64
  | CExpire i64
  | CWatch watch_create_request
  | CSubscribe i64
  | CCancel i64
  | CCompaction u64
  | CCompactV2 u64
  | CSetWatermark u64
  | CApplyWatermark
  | CDefragment

fun exec :: "kv_cmd \<Rightarrow> kv_store \<Rightarrow> kv_store" where
  "exec (CPut r) s = snd (put r s)"
| "exec (CDelete r) s = snd (delete_range r s)"
| "exec (CTxn r) s = snd (txn_checked r s)"
| "exec (CGrant now r) s = snd (lease_grant now r s)"
| "exec (CGrantV2 now r) s = snd (lease_grant_v2 now r s)"
| "exec (CRevoke i) s = snd (lease_revoke i s)"
| "exec (CKeepalive now i) s = snd (lease_keepalive now i s)"
| "exec (CExpire now) s = expire_leases now s"
| "exec (CWatch r) s = snd (watch_create r s)"
| "exec (CSubscribe i) s = snd (watch_subscribe i s)"
| "exec (CCancel i) s = snd (watch_cancel i s)"
| "exec (CCompaction rv) s = snd (compaction rv s)"
| "exec (CCompactV2 rv) s = snd (compact_v2 rv s)"
| "exec (CSetWatermark rv) s = snd (set_compaction_watermark rv s)"
| "exec CApplyWatermark s = snd (apply_compaction_watermark s)"
| "exec CDefragment s = snd (defragment_with_status s)"

text \<open>The commands that discard history.\<close>

fun discards :: "kv_cmd \<Rightarrow> bool" where
  "discards (CCompaction _) = True"
| "discards (CCompactV2 _) = True"
| "discards CApplyWatermark = True"
| "discards CDefragment = True"
| "discards _ = False"

definition run :: "kv_cmd list \<Rightarrow> kv_store \<Rightarrow> kv_store" where
  "run cs s = fold exec cs s"

subsection \<open>The invariant\<close>

definition index_of :: "kv_store \<Rightarrow> bytes \<Rightarrow> u64 list" where
  "index_of s k = (case map_of (key_index s) k of Some revs \<Rightarrow> revs | None \<Rightarrow> [])"

definition live_ok :: "kv_store \<Rightarrow> bytes \<Rightarrow> key_value \<Rightarrow> bool" where
  "live_ok s k kv \<longleftrightarrow>
     kv_key kv = k \<and> 1 \<le> version kv \<and> 1 \<le> create_revision kv \<and>
     create_revision kv \<le> mod_revision kv \<and> mod_revision kv \<le> revision s \<and>
     (index_of s k \<noteq> [] \<longrightarrow> last (index_of s k) = mod_revision kv) \<and>
     map_of (history s) (mod_revision kv) \<in> {None, Some (k, EvPut, kv)}"

definition dead_ok :: "kv_store \<Rightarrow> bytes \<Rightarrow> bool" where
  "dead_ok s k \<longleftrightarrow>
     (index_of s k \<noteq> [] \<longrightarrow>
        (\<forall>k' et kv. map_of (history s) (last (index_of s k)) = Some (k', et, kv) \<longrightarrow> et = EvDelete))"

definition mvcc_wf :: "kv_store \<Rightarrow> bool" where
  "mvcc_wf s \<longleftrightarrow>
     alist_wf (current s) \<and> alist_wf (key_index s) \<and> bt_wf (history s) \<and>
     (\<forall>r \<in> fst ` set (history s). r \<le> revision s) \<and>
     (\<forall>k. sorted_wrt (<) (index_of s k) \<and> (\<forall>r \<in> set (index_of s k). r \<le> revision s)) \<and>
     (\<forall>k r k' kv. r \<in> set (index_of s k) \<longrightarrow> map_of (history s) r = Some (k', EvPut, kv) \<longrightarrow>
        kv_key kv = k) \<and>
     (\<forall>k. case map_of (current s) k of Some kv \<Rightarrow> live_ok s k kv | None \<Rightarrow> dead_ok s k)"

text \<open>Nothing was discarded: every indexed revision is in the history.\<close>

definition complete :: "kv_store \<Rightarrow> bool" where
  "complete s \<longleftrightarrow>
     (\<forall>k. \<forall>r \<in> set (index_of s k). map_of (history s) r \<noteq> None) \<and>
     (\<forall>k. map_of (current s) k \<noteq> None \<longrightarrow> index_of s k \<noteq> [])"

lemma mvcc_wfD:
  assumes "mvcc_wf s"
  shows "alist_wf (current s)" "alist_wf (key_index s)" "bt_wf (history s)"
    and "map_of (history s) r = Some x \<Longrightarrow> r \<le> revision s"
    and "sorted_wrt (<) (index_of s k)"
    and "r \<in> set (index_of s k) \<Longrightarrow> r \<le> revision s"
    and "r \<in> set (index_of s k) \<Longrightarrow> map_of (history s) r = Some (k', EvPut, kv) \<Longrightarrow> kv_key kv = k"
    and "map_of (current s) k = Some kv \<Longrightarrow> live_ok s k kv"
    and "map_of (current s) k = None \<Longrightarrow> dead_ok s k"
proof -
  show "map_of (current s) k = Some kv \<Longrightarrow> live_ok s k kv"
    and "map_of (current s) k = None \<Longrightarrow> dead_ok s k"
    using assms unfolding mvcc_wf_def by (metis option.simps(5), metis option.simps(4))
  show "map_of (history s) r = Some x \<Longrightarrow> r \<le> revision s"
    using assms unfolding mvcc_wf_def by (metis map_of_SomeD_key)
qed (use assms in \<open>simp_all add: mvcc_wf_def\<close>)

lemma mvcc_wfI:
  assumes "alist_wf (current s)" "alist_wf (key_index s)" "bt_wf (history s)"
    and "\<And>r. r \<in> fst ` set (history s) \<Longrightarrow> r \<le> revision s"
    and "\<And>k. sorted_wrt (<) (index_of s k)"
    and "\<And>k r. r \<in> set (index_of s k) \<Longrightarrow> r \<le> revision s"
    and "\<And>k r k' kv. r \<in> set (index_of s k) \<Longrightarrow> map_of (history s) r = Some (k', EvPut, kv) \<Longrightarrow>
           kv_key kv = k"
    and "\<And>k kv. map_of (current s) k = Some kv \<Longrightarrow> live_ok s k kv"
    and "\<And>k. map_of (current s) k = None \<Longrightarrow> dead_ok s k"
  shows "mvcc_wf s"
proof -
  have live: "\<forall>k. case map_of (current s) k of Some kv \<Rightarrow> live_ok s k kv | None \<Rightarrow> dead_ok s k"
    using assms(8,9) by (metis option.case_eq_if option.collapse)
  have keys: "\<forall>k r k' kv. r \<in> set (index_of s k) \<longrightarrow> map_of (history s) r = Some (k', EvPut, kv) \<longrightarrow>
      kv_key kv = k"
    using assms(7) by blast
  show ?thesis
    unfolding mvcc_wf_def by (intro conjI keys live) (use assms(1-6) in simp_all)
qed

text \<open>Operations that leave keys, history, index and revisions alone.\<close>

definition same_kv :: "kv_store \<Rightarrow> kv_store \<Rightarrow> bool" where
  "same_kv s s' \<longleftrightarrow>
     current s' = current s \<and> history s' = history s \<and> key_index s' = key_index s \<and>
     revision s' = revision s \<and> compacted_revision s' = compacted_revision s"

lemma same_kv_refl [simp]: "same_kv s s"
  by (simp add: same_kv_def)

lemma same_kvD:
  assumes "same_kv s s'"
  shows "current s' = current s" "history s' = history s" "key_index s' = key_index s"
    "revision s' = revision s" "compacted_revision s' = compacted_revision s"
    "index_of s' k = index_of s k" "get_at_revision s' k t = get_at_revision s k t"
    "mvcc_wf s' \<longleftrightarrow> mvcc_wf s" "complete s' \<longleftrightarrow> complete s"
  using assms
  by (simp_all add: same_kv_def index_of_def get_at_revision_def mvcc_wf_def complete_def
      live_ok_def dead_ok_def cong: option.case_cong)

lemma same_kv_dispatch [simp]: "same_kv s (dispatch_event ev s)"
  by (simp add: same_kv_def dispatch_event_def)

lemma same_kv_attach [simp]: "same_kv s (lease_attach k l s)"
  by (simp add: same_kv_def lease_attach_def split: option.splits)

lemma same_kv_detach [simp]: "same_kv s (lease_detach k l s)"
  by (simp add: same_kv_def lease_detach_def split: option.splits)

lemma get_at_revision_index:
  "get_at_revision s k t =
     (case find (\<lambda>r. r \<le> t) (rev (index_of s k)) of
        None \<Rightarrow> None
      | Some r \<Rightarrow> (case map_of (history s) r of
                     None \<Rightarrow> None
                   | Some (_, et, kv) \<Rightarrow> if et = EvDelete then None else Some kv))"
  by (simp add: get_at_revision_def index_of_def split: option.splits)

subsection \<open>One write\<close>

text \<open>
  Every change of a key is one of these: at revision \<open>rv\<close> the event goes into the history and
  the index, and the live pair is set or removed.
\<close>

definition write_event ::
  "u64 \<Rightarrow> bytes \<Rightarrow> event_type \<Rightarrow> key_value \<Rightarrow> kv_store \<Rightarrow> kv_store" where
  "write_event rv k et kv s =
     s\<lparr>current := (if et = EvPut then AList.update k kv (current s) else AList.delete k (current s)),
       key_index := AList.update k (index_of s k @ [rv]) (key_index s),
       history := bt_insert rv (k, et, kv) (history s)\<rparr>"

lemma write_event_simps [simp]:
  "current (write_event rv k et kv s) =
     (if et = EvPut then AList.update k kv (current s) else AList.delete k (current s))"
  "history (write_event rv k et kv s) = bt_insert rv (k, et, kv) (history s)"
  "revision (write_event rv k et kv s) = revision s"
  "compacted_revision (write_event rv k et kv s) = compacted_revision s"
  "index_of (write_event rv k et kv s) k' = (if k' = k then index_of s k @ [rv] else index_of s k')"
  by (simp_all add: write_event_def index_of_def)

text \<open>
  What a write must satisfy. Its revision has been reached and is newer than everything known of
  the key and than every live pair. A put moreover takes a revision no other key has used; a
  range delete uses one revision for all its keys.
\<close>

definition write_ok :: "u64 \<Rightarrow> bytes \<Rightarrow> event_type \<Rightarrow> key_value \<Rightarrow> kv_store \<Rightarrow> bool" where
  "write_ok rv k et kv s \<longleftrightarrow>
     rv \<le> revision s \<and> (\<forall>r \<in> set (index_of s k). r < rv) \<and>
     (\<forall>k' kv'. map_of (current s) k' = Some kv' \<longrightarrow> mod_revision kv' < rv) \<and>
     (et = EvPut \<longrightarrow> (\<forall>k'. rv \<notin> set (index_of s k')) \<and> kv_key kv = k \<and> 1 \<le> version kv \<and>
        1 \<le> create_revision kv \<and> create_revision kv \<le> mod_revision kv \<and> mod_revision kv = rv)"

lemma write_event_stable:
  assumes "bt_wf (history s)" and "t < rv"
  shows "get_at_revision (write_event rv k et kv s) k' t = get_at_revision s k' t"
proof (cases "find (\<lambda>r. r \<le> t) (rev (index_of s k'))")
  case None
  with assms show ?thesis by (auto simp: get_at_revision_index)
next
  case (Some r)
  then have "r \<noteq> rv" using assms(2) by (auto simp: find_Some_iff)
  with assms Some show ?thesis by (auto simp: get_at_revision_index)
qed

lemma write_event_live:
  assumes "mvcc_wf s" and "write_ok rv k et kv s"
    and "map_of (current (write_event rv k et kv s)) k' = Some kv'"
  shows "live_ok (write_event rv k et kv s) k' kv'"
proof (cases "k' = k")
  case True
  with assms(2,3) mvcc_wfD(3) [OF assms(1)] show ?thesis
    by (auto simp: live_ok_def write_ok_def split: if_splits)
next
  case False
  with assms(3) have cur: "map_of (current s) k' = Some kv'" by (auto split: if_splits)
  with assms(2) have "mod_revision kv' < rv" by (auto simp: write_ok_def)
  with False mvcc_wfD(8) [OF assms(1) cur] mvcc_wfD(3) [OF assms(1)] show ?thesis
    by (auto simp: live_ok_def)
qed

lemma write_event_dead:
  assumes "mvcc_wf s" and "write_ok rv k et kv s"
    and "map_of (current (write_event rv k et kv s)) k' = None"
  shows "dead_ok (write_event rv k et kv s) k'"
proof (cases "k' = k")
  case True
  with assms(3) have "et = EvDelete" by (cases et) auto
  with True mvcc_wfD(3) [OF assms(1)] show ?thesis by (simp add: dead_ok_def)
next
  case False
  with assms(3) have "map_of (current s) k' = None" by (auto split: if_splits)
  note dead = mvcc_wfD(9) [OF assms(1) this]
  have "et = EvDelete" if "index_of s k' \<noteq> []" "last (index_of s k') = rv"
  proof -
    from that have "rv \<in> set (index_of s k')" using last_in_set by metis
    with assms(2) show ?thesis by (cases et) (auto simp: write_ok_def)
  qed
  with False dead mvcc_wfD(3) [OF assms(1)] show ?thesis by (auto simp: dead_ok_def)
qed

lemma write_event_wf:
  assumes "mvcc_wf s" and "write_ok rv k et kv s"
  shows "mvcc_wf (write_event rv k et kv s)"
proof -
  let ?s = "write_event rv k et kv s"
  note wf = mvcc_wfD [OF assms(1)]
  have ok: "rv \<le> revision s" "\<And>r. r \<in> set (index_of s k) \<Longrightarrow> r < rv"
    using assms(2) by (auto simp: write_ok_def)
  have 1: "alist_wf (current ?s)" "alist_wf (key_index ?s)" "bt_wf (history ?s)"
    using wf(1-3) by (simp_all add: write_event_def)
  have 2: "r \<le> revision ?s" if "r \<in> fst ` set (history ?s)" for r
    using that ok(1) assms(1) by (auto simp: mvcc_wf_def)
  have 3: "sorted_wrt (<) (index_of ?s k')" "r \<in> set (index_of ?s k') \<Longrightarrow> r \<le> revision ?s" for k' r
    using wf(5,6) ok by (auto simp: sorted_wrt_append split: if_splits)
  have 4: "kv_key kv' = k'"
    if "r \<in> set (index_of ?s k')" "map_of (history ?s) r = Some (k'', EvPut, kv')" for r k' k'' kv'
  proof (cases "r = rv")
    case True
    with that wf(3) have "et = EvPut" "kv' = kv" by auto
    with assms(2) that True show ?thesis by (auto simp: write_ok_def split: if_splits)
  next
    case False
    with that wf(3,7) show ?thesis by (auto split: if_splits)
  qed
  show ?thesis
    by (rule mvcc_wfI)
      (fact 1 2 3 write_event_live [OF assms] write_event_dead [OF assms] | erule (1) 4 2 3)+
qed

lemma write_event_complete:
  assumes "complete s" and "bt_wf (history s)"
  shows "complete (write_event rv k et kv s)"
  using assms by (auto simp: complete_def split: if_splits)

subsection \<open>Reading the latest revision\<close>

lemma find_rev_last:
  assumes "xs \<noteq> []" and "P (last xs)"
  shows "find P (rev xs) = Some (last xs)"
  using assms by (cases xs rule: rev_cases) auto

lemma get_latest:
  assumes "mvcc_wf s" and "revision s \<le> t"
  shows "get_at_revision s k t \<in> {None, map_of (current s) k}"
proof (cases "index_of s k = []")
  case True
  then show ?thesis by (simp add: get_at_revision_index)
next
  case False
  note wf = mvcc_wfD [OF assms(1)]
  have "last (index_of s k) \<le> t" using wf(6) [of "last (index_of s k)" k] False assms(2) by simp
  then have f: "find (\<lambda>r. r \<le> t) (rev (index_of s k)) = Some (last (index_of s k))"
    using False by (simp add: find_rev_last)
  show ?thesis
  proof (cases "map_of (current s) k")
    case None
    from wf(9) [OF None] False f None show ?thesis
      by (auto simp: get_at_revision_index dead_ok_def split: option.splits)
  next
    case (Some kv)
    from wf(8) [OF Some] False f Some show ?thesis
      by (auto simp: get_at_revision_index live_ok_def split: option.splits)
  qed
qed

lemma get_live_complete:
  assumes "mvcc_wf s" and "complete s" and Some: "map_of (current s) k = Some kv"
    and "mod_revision kv \<le> t"
  shows "get_at_revision s k t = Some kv"
proof -
  note wf = mvcc_wfD [OF assms(1)]
  from assms(2) Some have ne: "index_of s k \<noteq> []" by (auto simp: complete_def)
  have l: "last (index_of s k) = mod_revision kv"
    using wf(8) [OF Some] ne by (simp add: live_ok_def)
  then have "find (\<lambda>r. r \<le> t) (rev (index_of s k)) = Some (mod_revision kv)"
    using ne assms(4) by (metis find_rev_last)
  moreover have "map_of (history s) (mod_revision kv) \<noteq> None"
    using assms(2) l last_in_set [OF ne] unfolding complete_def by metis
  then have "map_of (history s) (mod_revision kv) = Some (k, EvPut, kv)"
    using wf(8) [OF Some] by (auto simp: live_ok_def)
  ultimately show ?thesis by (simp add: get_at_revision_index)
qed

lemma get_latest_complete:
  assumes "mvcc_wf s" and "complete s" and "revision s \<le> t"
  shows "get_at_revision s k t = map_of (current s) k"
proof (cases "map_of (current s) k")
  case None
  with get_latest [OF assms(1,3), of k] show ?thesis by simp
next
  case (Some kv)
  then have "mod_revision kv \<le> t"
    using mvcc_wfD(8) [OF assms(1) Some] assms(3) by (simp add: live_ok_def)
  with Some get_live_complete [OF assms(1,2) Some] show ?thesis by simp
qed

subsection \<open>The operations as writes\<close>

lemma bump_simps [simp]:
  "index_of (s\<lparr>revision := n\<rparr>) k = index_of s k"
  "get_at_revision (s\<lparr>revision := n\<rparr>) k t = get_at_revision s k t"
  "complete (s\<lparr>revision := n\<rparr>) = complete s"
  by (simp_all add: index_of_def get_at_revision_def complete_def cong: option.case_cong)

lemma bump_wf:
  assumes "mvcc_wf s" and "revision s \<le> n"
  shows "mvcc_wf (s\<lparr>revision := n\<rparr>)"
proof (rule mvcc_wfI)
  note wf = mvcc_wfD [OF assms(1)]
  show "r \<le> revision (s\<lparr>revision := n\<rparr>)" if "r \<in> fst ` set (history (s\<lparr>revision := n\<rparr>))" for r
    using that assms by (auto simp: mvcc_wf_def intro: le_trans)
  show "r \<le> revision (s\<lparr>revision := n\<rparr>)" if "r \<in> set (index_of (s\<lparr>revision := n\<rparr>) k)" for r k
    using that wf(6) assms(2) by (auto intro: le_trans)
  show "live_ok (s\<lparr>revision := n\<rparr>) k kv" if "map_of (current (s\<lparr>revision := n\<rparr>)) k = Some kv" for k kv
    using wf(8) [of k kv] that assms(2) by (auto simp: live_ok_def)
  show "dead_ok (s\<lparr>revision := n\<rparr>) k" if "map_of (current (s\<lparr>revision := n\<rparr>)) k = None" for k
    using wf(9) [of k] that by (simp add: dead_ok_def)
qed (use mvcc_wfD [OF assms(1)] in simp_all)

definition live_before :: "u64 \<Rightarrow> kv_store \<Rightarrow> bool" where
  "live_before rv s \<longleftrightarrow> (\<forall>k kv. map_of (current s) k = Some kv \<longrightarrow> mod_revision kv < rv)"

lemma live_before_next: "mvcc_wf s \<Longrightarrow> live_before (Suc (revision s)) s"
  by (auto simp: live_before_def live_ok_def less_Suc_eq_le dest: mvcc_wfD(8))

lemma live_before_revision [simp]: "live_before rv (s\<lparr>revision := n\<rparr>) = live_before rv s"
  by (simp add: live_before_def)

lemma same_kv_put:
  "same_kv (write_event (Suc (revision s)) (pt_key req) EvPut
              (put_kv req (Suc (revision s)) (map_of (current s) (pt_key req)))
              (s\<lparr>revision := Suc (revision s)\<rparr>))
     (snd (put req s))"
  by (simp add: put_def next_revision_def same_kv_def write_event_def index_push_def index_of_def
      dispatch_event_def lease_attach_def lease_detach_def Let_def split: option.splits)

lemma same_kv_delete_one:
  assumes "delete_one rv k s = Some (kv, s')"
  shows "map_of (current s) k = Some kv"
    and "same_kv (write_event rv k EvDelete (make_delete_kv kv rv) s) s'"
  using assms
  by (auto simp: delete_one_def remove_key_from_lease_def same_kv_def write_event_def
      index_push_def index_of_def dispatch_event_def lease_detach_def Let_def
      split: option.splits)

lemma same_kv_revoke_key:
  assumes "map_of (current s) k = Some kv"
  shows "same_kv (write_event (Suc (revision s)) k EvDelete
                    (make_delete_kv kv (Suc (revision s))) (s\<lparr>revision := Suc (revision s)\<rparr>))
           (revoke_key k s)"
  using assms
  by (simp add: revoke_key_def next_revision_def same_kv_def write_event_def index_push_def
      index_of_def dispatch_event_def Let_def split: option.splits)

lemma write_ok_put:
  assumes "mvcc_wf s"
  shows "write_ok (Suc (revision s)) (pt_key req) EvPut
           (put_kv req (Suc (revision s)) (map_of (current s) (pt_key req)))
           (s\<lparr>revision := Suc (revision s)\<rparr>)"
proof -
  note wf = mvcc_wfD [OF assms]
  have "r < Suc (revision s)" if "r \<in> set (index_of s k)" for r k
    using wf(6) [OF that] by simp
  moreover have "1 \<le> create_revision p \<and> create_revision p \<le> Suc (revision s)" if "map_of (current s) k = Some p" for k p
    using wf(8) [OF that] by (simp add: live_ok_def)
  ultimately show ?thesis
    using live_before_next [OF assms]
    by (fastforce simp: write_ok_def put_kv_def live_before_def split: option.splits)
qed

lemma write_ok_delete:
  assumes "mvcc_wf s" and "map_of (current s) k = Some kv" and "live_before rv s"
    and "rv \<le> revision s"
  shows "write_ok rv k EvDelete kv' s"
proof -
  have "r < rv" if "r \<in> set (index_of s k)" for r
  proof -
    have "last (index_of s k) = mod_revision kv"
      using mvcc_wfD(8) [OF assms(1,2)] that by (auto simp: live_ok_def)
    moreover have "r \<le> last (index_of s k)"
      using mvcc_wfD(5) [OF assms(1), of k] that
      by (cases "index_of s k" rule: rev_cases) (auto simp: sorted_wrt_append)
    moreover have "mod_revision kv < rv" using assms(2,3) by (simp add: live_before_def)
    ultimately show ?thesis by simp
  qed
  then show ?thesis using assms(3,4) by (simp add: write_ok_def live_before_def)
qed

subsection \<open>Extending a store\<close>

text \<open>
  What every command that does not discard history does, relative to a revision \<open>n\<close>: the
  invariant is kept, and reads at revisions up to \<open>n\<close> are unchanged.
\<close>

definition extends :: "u64 \<Rightarrow> kv_store \<Rightarrow> kv_store \<Rightarrow> bool" where
  "extends n s s' \<longleftrightarrow>
     (mvcc_wf s \<longrightarrow>
        mvcc_wf s' \<and> (complete s \<longrightarrow> complete s') \<and>
        (\<forall>k t. t \<le> n \<longrightarrow> get_at_revision s' k t = get_at_revision s k t)) \<and>
     revision s \<le> revision s' \<and> compacted_revision s' = compacted_revision s"

lemma extends_refl [simp, intro]: "extends n s s"
  by (simp add: extends_def)

lemma extends_trans [trans]: "extends n s s' \<Longrightarrow> extends n s' s'' \<Longrightarrow> extends n s s''"
  by (auto simp: extends_def)

lemma extends_mono: "extends n s s' \<Longrightarrow> m \<le> n \<Longrightarrow> extends m s s'"
  by (auto simp: extends_def)

lemma extends_same_kv: "same_kv s s' \<Longrightarrow> extends n s s'"
  by (simp add: extends_def same_kvD)

lemma extends_bump: "revision s \<le> m \<Longrightarrow> extends n s (s\<lparr>revision := m\<rparr>)"
  by (simp add: extends_def bump_wf)

lemma extends_write:
  assumes "mvcc_wf s \<Longrightarrow> write_ok rv k et kv s" and "n < rv"
  shows "extends n s (write_event rv k et kv s)"
  using assms
  by (auto simp: extends_def write_event_wf write_event_complete write_event_stable
      dest: mvcc_wfD(3))

lemma extends_put: "extends (revision s) s (snd (put req s))"
proof -
  let ?b = "s\<lparr>revision := Suc (revision s)\<rparr>"
  have "extends (revision s) s (write_event (Suc (revision s)) (pt_key req) EvPut
      (put_kv req (Suc (revision s)) (map_of (current s) (pt_key req))) ?b)"
    unfolding extends_def
    using write_event_wf [OF bump_wf write_ok_put] write_event_complete [of ?b]
      write_event_stable [of ?b]
    by (auto simp: mvcc_wfD(3))
  then show ?thesis
    using same_kv_put by (blast intro: extends_trans extends_same_kv)
qed

lemma extends_fold:
  "(\<And>x s. x \<in> set xs \<Longrightarrow> extends (revision s) s (f x s)) \<Longrightarrow> extends (revision s) s (fold f xs s)"
proof (induction xs arbitrary: s)
  case (Cons x xs)
  have 1: "extends (revision s) s (f x s)" by (simp add: Cons.prems)
  then have "revision s \<le> revision (f x s)" by (simp add: extends_def)
  with Cons have "extends (revision s) (f x s) (fold f xs (f x s))" by (auto intro: extends_mono)
  with 1 show ?case by (auto intro: extends_trans)
qed simp

lemma delete_keys_frame:
  "revision (snd (delete_keys rv ks s)) = revision s"
  "compacted_revision (snd (delete_keys rv ks s)) = compacted_revision s"
proof (induction rv ks s rule: delete_keys.induct)
  case (2 rv k ks s)
  have "revision s' = revision s \<and> compacted_revision s' = compacted_revision s"
    if "delete_one rv k s = Some (kv, s')" for kv s'
    using same_kv_delete_one(2) [OF that] by (simp add: same_kvD)
  with 2 show "revision (snd (delete_keys rv (k # ks) s)) = revision s"
    "compacted_revision (snd (delete_keys rv (k # ks) s)) = compacted_revision s"
    by (auto split: option.splits prod.splits)
qed simp_all

lemma extends_delete_keys:
  assumes "mvcc_wf s \<Longrightarrow> live_before rv s" and "rv \<le> revision s" and "n < rv"
  shows "extends n s (snd (delete_keys rv ks s))"
  using assms
proof (induction rv ks s rule: delete_keys.induct)
  case (2 rv k ks s)
  show ?case
  proof (cases "delete_one rv k s")
    case None
    with 2 show ?thesis by simp
  next
    case (Some p)
    then obtain kv s' where d: "delete_one rv k s = Some (kv, s')" by (cases p) auto
    let ?w = "write_event rv k EvDelete (make_delete_kv kv rv) s"
    note same = same_kv_delete_one [OF d]
    have w: "extends n s ?w"
      using 2(3-5) same(1) by (intro extends_write write_ok_delete)
    have "mvcc_wf s' \<Longrightarrow> live_before rv s'" if "mvcc_wf s"
      using 2(3) that same_kvD(1) [OF same(2)] by (auto simp: live_before_def split: if_splits)
    then have "mvcc_wf s \<Longrightarrow> extends n s' (snd (delete_keys rv ks s'))"
      using 2(2) [OF d refl] 2(4,5) same_kvD(4) [OF same(2)] by simp
    moreover have "extends n s s'" using w same(2) by (blast intro: extends_trans extends_same_kv)
    ultimately have "mvcc_wf s \<Longrightarrow> extends n s (snd (delete_keys rv ks s'))"
      by (blast intro: extends_trans)
    moreover have "snd (delete_keys rv (k # ks) s) = snd (delete_keys rv ks s')"
      using d by (simp split: prod.splits)
    ultimately show ?thesis
      using delete_keys_frame [of rv "k # ks" s] by (auto simp: extends_def)
  qed
qed simp

lemma extends_delete_range: "extends (revision s) s (snd (delete_range req s))"
proof -
  let ?b = "s\<lparr>revision := Suc (revision s)\<rparr>"
  have "extends (revision s) ?b (snd (delete_keys (Suc (revision s)) ks ?b))"
    if "mvcc_wf s" for ks
    using live_before_next [OF that] by (intro extends_delete_keys) simp_all
  moreover have "extends (revision s) s ?b" by (simp add: extends_bump)
  ultimately have "mvcc_wf s \<Longrightarrow> extends (revision s) s (snd (delete_keys (Suc (revision s)) ks ?b))"
    for ks by (blast intro: extends_trans)
  then have "extends (revision s) s (snd (delete_keys (Suc (revision s)) ks ?b))" for ks
    by (cases "mvcc_wf s") (auto simp: extends_def delete_keys_frame)
  then show ?thesis
    by (simp add: delete_range_def next_revision_def Let_def split: prod.splits)
      (metis snd_conv)
qed

lemma extends_run_op: "extends (revision s) s (run_op op s)"
  by (cases op) (simp_all add: run_op_def extends_put extends_delete_range)

lemma extends_txn: "extends (revision s) s (snd (txn req s))"
  unfolding txn_def Let_def snd_conv by (rule extends_fold) (rule extends_run_op)

lemma extends_txn_checked: "extends (revision s) s (snd (txn_checked req s))"
  using extends_txn [of s req] by (auto simp: txn_checked_def Let_def split: prod.splits)

lemma extends_revoke_key: "extends (revision s) s (revoke_key k s)"
proof (cases "map_of (current s) k")
  case None
  then show ?thesis by (simp add: revoke_key_def)
next
  case (Some kv)
  let ?b = "s\<lparr>revision := Suc (revision s)\<rparr>"
  let ?w = "write_event (Suc (revision s)) k EvDelete (make_delete_kv kv (Suc (revision s))) ?b"
  have "mvcc_wf s \<Longrightarrow> extends (revision s) ?b ?w"
    using live_before_next Some by (intro extends_write write_ok_delete) auto
  moreover have "extends (revision s) s ?b" by (simp add: extends_bump)
  ultimately have "mvcc_wf s \<Longrightarrow> extends (revision s) s ?w" by (blast intro: extends_trans)
  then have "extends (revision s) s ?w" by (cases "mvcc_wf s") (auto simp: extends_def)
  then show ?thesis
    using same_kv_revoke_key [OF Some] by (blast intro: extends_trans extends_same_kv)
qed

lemma extends_lease_revoke: "extends (revision s) s (snd (lease_revoke i s))"
proof -
  have "extends (revision s) (s\<lparr>leases := l\<rparr>) (fold revoke_key ks (s\<lparr>leases := l\<rparr>))" for ks l
    using extends_fold [of ks revoke_key "s\<lparr>leases := l\<rparr>"] extends_revoke_key by simp
  moreover have "extends (revision s) s (s\<lparr>leases := l\<rparr>)" for l
    by (rule extends_same_kv) (simp add: same_kv_def)
  ultimately show ?thesis
    by (auto simp: lease_revoke_def split: option.splits intro: extends_trans)
qed

lemma extends_expire: "extends (revision s) s (expire_leases now s)"
  unfolding expire_leases_def Let_def by (rule extends_fold) (rule extends_lease_revoke)

lemma exec_extends: "\<not> discards c \<Longrightarrow> extends (revision s) s (exec c s)"
  by (cases c)
    (auto simp: extends_put extends_delete_range extends_txn_checked extends_lease_revoke
      extends_expire lease_grant_def lease_grant_v2_def lease_keepalive_def watch_create_def
      watch_subscribe_def watch_cancel_def set_compaction_watermark_def same_kv_def Let_def
      split: option.splits intro!: extends_same_kv)

lemma run_extends: "\<forall>c \<in> set cs. \<not> discards c \<Longrightarrow> extends (revision s) s (run cs s)"
  unfolding run_def by (rule extends_fold) (simp add: exec_extends)

subsection \<open>Discarding history keeps the invariant\<close>

lemma prune_index_props:
  "revs \<noteq> [] \<Longrightarrow> prune_index rv revs \<noteq> [] \<and> last (prune_index rv revs) = last revs"
  "set (prune_index rv revs) \<subseteq> set revs"
  "sorted_wrt (<) revs \<Longrightarrow> sorted_wrt (<) (prune_index rv revs)"
proof -
  have "length (takeWhile (\<lambda>r. r \<le> rv) revs) \<le> length revs" by (rule length_takeWhile_le)
  then show "revs \<noteq> [] \<Longrightarrow> prune_index rv revs \<noteq> [] \<and> last (prune_index rv revs) = last revs"
    by (cases revs) (auto simp: prune_index_def Let_def)
  show "set (prune_index rv revs) \<subseteq> set revs"
    by (auto simp: prune_index_def Let_def dest: in_set_dropD)
  show "sorted_wrt (<) revs \<Longrightarrow> sorted_wrt (<) (prune_index rv revs)"
    by (simp add: prune_index_def Let_def sorted_wrt_drop)
qed

lemma map_of_map_snd: "map_of (map (\<lambda>(k, v). (k, f v)) m) k = map_option f (map_of m k)"
  by (induction m) auto

text \<open>Dropping old history and thinning the index, as long as the newest index entry stays.\<close>

lemma thin_wf:
  assumes "mvcc_wf s" and "bt_wf h" and "\<And>r. map_of h r \<in> {None, map_of (history s) r}"
    and "\<And>revs. set (f revs) \<subseteq> set revs"
    and "\<And>revs. f revs \<noteq> [] \<Longrightarrow> revs \<noteq> [] \<Longrightarrow> last (f revs) = last revs"
    and "\<And>revs. sorted_wrt (<) revs \<Longrightarrow> sorted_wrt (<) (f revs)"
  shows "mvcc_wf (s\<lparr>compacted_revision := c, history := h,
                    key_index := map (\<lambda>(k, revs). (k, f revs)) (key_index s)\<rparr>)"
    (is "mvcc_wf ?s")
proof -
  note wf = mvcc_wfD [OF assms(1)]
  have nil: "f [] = []" using assms(4) [of "[]"] by simp
  have idx: "index_of ?s k = f (index_of s k)" for k
    by (simp add: index_of_def map_of_map_snd nil split: option.split)
  have ne: "f revs \<noteq> [] \<Longrightarrow> revs \<noteq> []" for revs using nil by auto
  have h: "map_of h r = Some x \<Longrightarrow> map_of (history s) r = Some x" for r x
    using assms(3) [of r] by auto
  show ?thesis
  proof (rule mvcc_wfI)
    show "alist_wf (key_index ?s)"
      using wf(2) by (simp add: comp_def case_prod_beta)
    show "r \<le> revision ?s" if "r \<in> fst ` set (history ?s)" for r
    proof -
      from that obtain x where "map_of h r = Some x" by (fastforce dest: weak_map_of_SomeI)
      then show ?thesis using h wf(4) by simp
    qed
    show "live_ok ?s k kv" if "map_of (current ?s) k = Some kv" for k kv
      using wf(8) [of k kv] that assms(3) [of "mod_revision kv"] assms(5) ne
      by (auto simp: live_ok_def idx)
    show "dead_ok ?s k" if "map_of (current ?s) k = None" for k
      using wf(9) [of k] that assms(5) [of "index_of s k"] ne [of "index_of s k"] h
      by (fastforce simp: dead_ok_def idx)
    show "kv_key kv = k" if "r \<in> set (index_of ?s k)" "map_of (history ?s) r = Some (k', EvPut, kv)"
      for k r k' kv
      using wf(7) [of r k k' kv] that h assms(4) [of "index_of s k"] by (auto simp: idx)
    show "r \<le> revision ?s" if "r \<in> set (index_of ?s k)" for k r
      using wf(6) [of r k] that assms(4) [of "index_of s k"] by (auto simp: idx)
  qed (use wf(1,5) assms(2,6) in \<open>auto simp: idx\<close>)
qed

lemma map_of_filter_old:
  "map_of (filter (\<lambda>(r, _). \<not> r < rv) h) r = (if r < rv then None else map_of h r)"
  using map_of_filter_key [of "\<lambda>r. \<not> r < rv" h r] by (simp add: case_prod_unfold)

lemma compact_to_wf:
  assumes "mvcc_wf s"
  shows "mvcc_wf (compact_to rv s)"
proof -
  have "mvcc_wf (s\<lparr>compacted_revision := rv, history := filter (\<lambda>(r, _). \<not> r < rv) (history s),
      key_index := map (\<lambda>(k, revs). (k, revs)) (key_index s)\<rparr>)"
    using assms by (rule thin_wf) (simp_all add: map_of_filter_old mvcc_wfD(3) [OF assms])
  then show ?thesis by (simp add: compact_to_def)
qed

lemma compact_v2_wf:
  assumes "mvcc_wf s"
  shows "mvcc_wf (snd (compact_v2 rv s))"
proof -
  have "mvcc_wf (s\<lparr>compacted_revision := rv, history := filter (\<lambda>(r, _). \<not> r < rv) (history s),
      key_index := map (\<lambda>(k, revs). (k, prune_index rv revs)) (key_index s)\<rparr>)"
    using assms
    by (rule thin_wf)
      (simp_all add: map_of_filter_old mvcc_wfD(3) [OF assms] prune_index_props)
  with assms show ?thesis by (simp add: compact_v2_def Let_def)
qed

lemma defragment_wf:
  assumes "mvcc_wf s"
  shows "mvcc_wf (snd (defragment_with_status s))"
proof -
  let ?c = "compacted_revision s"
  have "last (filter P revs) = last revs"
    if "filter P revs \<noteq> []" "P (last revs)" for P and revs :: "nat list"
    using that by (cases revs rule: rev_cases) auto
  moreover have "?c \<le> last revs" if "filter ((\<le>) ?c) revs \<noteq> []" "sorted_wrt (<) revs" for revs
  proof -
    from that(1) obtain x where "x \<in> set revs" "?c \<le> x" by (auto simp: filter_empty_conv)
    with that(2) show ?thesis
      by (cases revs rule: rev_cases) (auto simp: sorted_wrt_append)
  qed
  ultimately have l: "last (filter ((\<le>) ?c) revs) = last revs"
    if "filter ((\<le>) ?c) revs \<noteq> []" "sorted_wrt (<) revs" for revs
    using that by blast
  have "mvcc_wf (s\<lparr>compacted_revision := ?c, history := history s, key_index :=
      map (\<lambda>(k, revs). (k, if sorted_wrt (<) revs then filter ((\<le>) ?c) revs else [])) (key_index s)\<rparr>)"
    using assms
    by (rule thin_wf) (auto simp: mvcc_wfD(3) [OF assms] l sorted_wrt_filter split: if_splits)
  moreover have "sorted_wrt (<) revs" if "(k, revs) \<in> set (key_index s)" for k revs
    using mvcc_wfD(5) [OF assms, of k] mvcc_wfD(2) [OF assms] that
    by (simp add: index_of_def map_of_is_SomeI)
  then have "map (\<lambda>(k, revs). (k, if sorted_wrt (<) revs then filter ((\<le>) ?c) revs else [])) (key_index s) =
      map (\<lambda>(k, revs). (k, filter (\<lambda>r. r \<ge> ?c) revs)) (key_index s)"
    by (auto simp: map_eq_conv)
  ultimately have "mvcc_wf (s\<lparr>key_index := map (\<lambda>(k, revs). (k, filter (\<lambda>r. r \<ge> ?c) revs)) (key_index s)\<rparr>)"
    by simp
  then show ?thesis
    by (subst same_kvD(8) [where s = "s\<lparr>key_index :=
        map (\<lambda>(k, revs). (k, filter (\<lambda>r. r \<ge> ?c) revs)) (key_index s)\<rparr>"])
      (auto simp: same_kv_def defragment_with_status_def Let_def)
qed

lemma exec_wf:
  assumes "mvcc_wf s"
  shows "mvcc_wf (exec c s)"
proof (cases "discards c")
  case False
  then show ?thesis using exec_extends [OF False, of s] assms by (simp add: extends_def)
next
  case True
  with assms show ?thesis
    by (cases c) (auto simp: compaction_def Let_def compact_to_wf compact_v2_wf defragment_wf
        apply_compaction_watermark_def split: prod.splits sum.splits
        dest: compact_v2_wf [of s "compaction_watermark s"])
qed

lemma new_store_wf: "mvcc_wf (new_store now)" "complete (new_store now)"
  by (simp_all add: mvcc_wf_def complete_def new_store_def index_of_def dead_ok_def)

lemma run_wf: "mvcc_wf s \<Longrightarrow> mvcc_wf (run cs s)"
  unfolding run_def by (induction cs arbitrary: s) (simp_all add: exec_wf)

end
