(* ===== verification/Etcd_Reads.thy ===== *)
theory Etcd_Reads
  imports Etcd_Mvcc
begin

section \<open>Reads of the store\<close>

text \<open>
  What \<open>range\<close> answers, at the current and at past revisions, and the properties of the
  multi-version store: the invariant, the stability of past reads, time travel, and what
  compaction does to reads.
\<close>

subsection \<open>Range reads depend on the visible pairs only\<close>

lemma set_of_map_filter: "set (List.map_filter f xs) = {y. \<exists>x \<in> set xs. f x = Some y}"
  by (induction xs) (auto simp: List.map_filter_simps split: option.splits)

lemma find_SomeD: "find P xs = Some x \<Longrightarrow> x \<in> set xs \<and> P x"
  by (induction xs) (auto split: if_splits)

lemma map_filter_alist_set:
  assumes "alist_wf m" and "\<And>k. k \<notin> fst ` set m \<Longrightarrow> g k = None"
  shows "set (List.map_filter (\<lambda>(k, _). if P k then g k else None) m) = {v. \<exists>k. P k \<and> g k = Some v}"
proof (intro set_eqI iffI)
  fix v
  assume "v \<in> {v. \<exists>k. P k \<and> g k = Some v}"
  then obtain k where k: "P k" "g k = Some v" by blast
  with assms(2) have "k \<in> fst ` set m" by (metis option.distinct(1))
  then obtain x where "x \<in> set m" "k = fst x" by blast
  with k show "v \<in> set (List.map_filter (\<lambda>(k, _). if P k then g k else None) m)"
    unfolding set_of_map_filter by (auto intro!: bexI [of _ x] split: prod.split)
qed (auto simp: set_of_map_filter split: if_splits)

lemma distinct_map_filter_key:
  assumes "alist_wf m" and "\<And>k v. g k = Some v \<Longrightarrow> key v = k"
  shows "distinct (map key (List.map_filter (\<lambda>(k, _). g k) m))"
  using assms(1)
proof (induction m)
  case (Cons x m)
  have "set (map key (List.map_filter (\<lambda>(k, _). g k) m)) \<subseteq> fst ` set m"
    using assms(2) by (force simp: set_of_map_filter image_iff)
  with Cons show ?case
    using assms(2) by (cases x) (auto simp: List.map_filter_simps split: option.splits)
qed (simp add: List.map_filter_simps)

lemma get_at_revision_key:
  assumes "mvcc_wf s" and "get_at_revision s k t = Some kv"
  shows "kv_key kv = k" and "k \<in> fst ` set (key_index s)"
proof -
  from assms(2) obtain r k' et where f: "find (\<lambda>r. r \<le> t) (rev (index_of s k)) = Some r"
    and h: "map_of (history s) r = Some (k', et, kv)" and "et \<noteq> EvDelete"
    by (auto simp: get_at_revision_index split: option.splits if_splits)
  have "et = EvPut" using \<open>et \<noteq> EvDelete\<close> by (cases et) simp_all
  moreover have "r \<in> set (index_of s k)" using find_SomeD [OF f] by simp
  ultimately show "kv_key kv = k" using mvcc_wfD(7) [OF assms(1)] h by blast
  show "k \<in> fst ` set (key_index s)"
    using assms(2) by (auto simp: get_at_revision_def split: option.splits dest: map_of_SomeD_key)
qed

text \<open>The pairs a reader sees, as a function of the key; the reply is built from it.\<close>

definition visible_sorted ::
  "(bytes \<Rightarrow> key_value option) \<Rightarrow> range_request \<Rightarrow> key_value list \<Rightarrow> bool" where
  "visible_sorted g req kvs \<longleftrightarrow>
     (case rg_range_end req of
        Some hi \<Rightarrow> sorted_wrt (\<lambda>a b. kv_key a < kv_key b) kvs \<and>
                   set kvs = {kv. \<exists>k. in_range (rg_key req) hi k \<and> g k = Some kv}
      | None \<Rightarrow> kvs = (case g (rg_key req) of Some kv \<Rightarrow> [kv] | None \<Rightarrow> []))"

lemma visible_sorted_revision [simp]:
  "visible_sorted g (req\<lparr>rg_revision := x\<rparr>) kvs = visible_sorted g req kvs"
  by (cases "rg_range_end req") (simp_all add: visible_sorted_def)

lemma visible_sorted_unique:
  assumes "visible_sorted g req xs" and "visible_sorted g req ys"
  shows "xs = ys"
proof (cases "rg_range_end req")
  case None
  with assms show ?thesis by (simp add: visible_sorted_def)
next
  case (Some hi)
  have s: "sorted (map kv_key zs)" "distinct (map kv_key zs)"
    if "sorted_wrt (\<lambda>a b. kv_key a < kv_key b) zs" for zs
    using that strict_sorted_iff [of "map kv_key zs"] by (simp_all add: sorted_wrt_map)
  show ?thesis
    using assms Some s [of xs] s [of ys]
    by (intro map_sorted_distinct_set_unique [where f = kv_key])
      (auto simp: visible_sorted_def distinct_map)
qed

lemma sort_key_strict:
  assumes "distinct (map kv_key kvs)"
  shows "sorted_wrt (\<lambda>a b. kv_key a < kv_key b) (sort_key kv_key kvs)"
proof -
  have "distinct (map kv_key (sort_key kv_key kvs))" using assms by (simp add: distinct_map)
  then have "sorted_wrt (<) (map kv_key (sort_key kv_key kvs))"
    by (simp add: strict_sorted_iff)
  then show ?thesis by (simp add: sorted_wrt_map)
qed

lemma range_at_revision_visible:
  assumes "mvcc_wf s"
  shows "\<exists>kvs. range_at_revision s req t = Inr (range_reply s req kvs) \<and>
               visible_sorted (\<lambda>k. get_at_revision s k t) req kvs"
proof (cases "rg_range_end req")
  case None
  then show ?thesis by (auto simp: range_at_revision_def visible_sorted_def)
next
  case (Some hi)
  let ?g = "\<lambda>k. if in_range (rg_key req) hi k then get_at_revision s k t else None"
  let ?kvs = "List.map_filter (\<lambda>(k, _). ?g k) (key_index s)"
  note wf = mvcc_wfD [OF assms]
  have "distinct (map kv_key ?kvs)"
    using get_at_revision_key(1) [OF assms]
    by (intro distinct_map_filter_key [OF wf(2)]) (auto split: if_splits)
  moreover have "set ?kvs = {kv. \<exists>k. in_range (rg_key req) hi k \<and> get_at_revision s k t = Some kv}"
    using get_at_revision_key(2) [OF assms]
    by (intro map_filter_alist_set [OF wf(2)]) (meson not_None_eq)
  ultimately show ?thesis
    using Some sort_key_strict [of ?kvs]
    by (auto simp: range_at_revision_def visible_sorted_def intro!: exI [of _ "sort_key kv_key ?kvs"])
qed

lemma kv_range_visible:
  assumes "mvcc_wf s" and "rg_revision req = None"
  shows "\<exists>kvs. kv_range s req = Inr (range_reply s req kvs) \<and>
               visible_sorted (map_of (current s)) req kvs"
proof (cases "rg_range_end req")
  case None
  with assms(2) show ?thesis by (auto simp: kv_range_def visible_sorted_def)
next
  case (Some hi)
  let ?kvs = "map snd (filter (\<lambda>(k, _). in_range (rg_key req) hi k) (current s))"
  note wf = mvcc_wfD [OF assms(1)]
  have key: "kv_key kv = k" if "(k, kv) \<in> set (current s)" for k kv
    using wf(8) [of k kv] that wf(1) by (simp add: live_ok_def)
  have "map kv_key ?kvs = map fst (filter (\<lambda>(k, _). in_range (rg_key req) hi k) (current s))"
    using key by (auto simp: map_eq_conv)
  then have "distinct (map kv_key ?kvs)" using wf(1) by (simp only: distinct_map_filter)
  moreover have "set ?kvs = {kv. \<exists>k. in_range (rg_key req) hi k \<and> map_of (current s) k = Some kv}"
    using wf(1) by force
  ultimately show ?thesis
    using Some assms(2) sort_key_strict [of ?kvs]
    by (auto simp: kv_range_def visible_sorted_def intro!: exI [of _ "sort_key kv_key ?kvs"])
qed

text \<open>The part of an answer that does not depend on the store's counters.\<close>

definition answer :: "range_response \<Rightarrow> key_value list \<times> u64 \<times> bool" where
  "answer r = (rs_kvs r, rs_count r, rs_more r)"

lemma answer_range_reply: "answer (range_reply s req kvs) = answer (range_reply s' req kvs)"
  by (simp add: answer_def range_reply_def Let_def split: option.splits)

lemma range_at_revision_cong:
  assumes "mvcc_wf s" and "mvcc_wf s'" and "\<And>k. get_at_revision s k t = get_at_revision s' k t'"
  shows "map_sum id answer (range_at_revision s req t) = map_sum id answer (range_at_revision s' req t')"
proof -
  obtain kvs where 1: "range_at_revision s req t = Inr (range_reply s req kvs)"
    "visible_sorted (\<lambda>k. get_at_revision s k t) req kvs"
    using range_at_revision_visible [OF assms(1)] by blast
  obtain kvs' where 2: "range_at_revision s' req t' = Inr (range_reply s' req kvs')"
    "visible_sorted (\<lambda>k. get_at_revision s' k t') req kvs'"
    using range_at_revision_visible [OF assms(2)] by blast
  have "kvs = kvs'"
    using 1(2) 2(2) assms(3) by (simp add: visible_sorted_unique)
  with 1(1) 2(1) show ?thesis by (simp add: answer_range_reply [of s _ _ s'])
qed

subsection \<open>Properties of the multi-version store\<close>

text \<open>
  C6: the multi-version invariant holds in every store that commands can produce, whatever
  they are and in whatever order: live pairs, history and per-key index agree, index lists
  increase, and no revision is ahead of the counter.
\<close>

theorem store_invariant: "mvcc_wf (run cs (new_store now))"
  by (rule run_wf [OF new_store_wf(1)])

text \<open>
  C5: reads at past revisions are stable. In any store, whatever led to it, commands that do
  not discard history leave every range read at a revision already reached unchanged.
\<close>

theorem past_reads_stable:
  assumes "\<forall>c \<in> set cs. \<not> discards c" and "t \<le> revision (run cs0 (new_store now))"
  shows "map_sum id answer (range_at_revision (run cs (run cs0 (new_store now))) req t) =
         map_sum id answer (range_at_revision (run cs0 (new_store now)) req t)"
proof -
  let ?s = "run cs0 (new_store now)"
  have "extends (revision ?s) ?s (run cs ?s)" using assms(1) by (rule run_extends)
  then show ?thesis
    using run_wf [OF new_store_wf(1)] assms(2)
    by (intro range_at_revision_cong) (auto simp: extends_def)
qed

definition demo_put :: "string \<Rightarrow> string \<Rightarrow> put_request" where
  "demo_put k v = \<lparr>pt_key = k, pt_value = v, pt_lease = None, pt_prev_kv = False\<rparr>"

definition demo_del :: "string \<Rightarrow> string option \<Rightarrow> delete_range_request" where
  "demo_del k e = \<lparr>dl_key = k, dl_range_end = e, dl_prev_kv = True\<rparr>"

definition demo_range :: "string \<Rightarrow> string \<Rightarrow> range_request" where
  "demo_range k e = \<lparr>rg_key = k, rg_range_end = Some e, rg_limit = None, rg_revision = None,
                     rg_keys_only = False, rg_count_only = False\<rparr>"

theorem past_reads_stable_witness:
  "let s = run [CPut (demo_put ''a'' ''1'')] (new_store 0);
       s' = run [CDelete (demo_del ''a'' None)] s
   in 2 \<le> revision s \<and>
      map_sum id answer (range_at_revision s' (demo_range ''a'' ''z'') 2) =
      map_sum id answer (range_at_revision s (demo_range ''a'' ''z'') 2)"
proof -
  have "2 \<le> revision (run [CPut (demo_put ''a'' ''1'')] (new_store 0))" by code_simp
  then show ?thesis
    using past_reads_stable [of "[CDelete (demo_del ''a'' None)]" 2
        "[CPut (demo_put ''a'' ''1'')]" 0 "demo_range ''a'' ''z''"] by simp
qed

text \<open>
  C4: time travel. Take a store after any commands that do not discard history, and read a key
  or a range in it. After any further such commands, however they overwrite and delete keys, the
  same read at the revision of that moment gives the same pairs, count and continuation flag.
\<close>

theorem time_travel_read:
  assumes "\<forall>c \<in> set cs0. \<not> discards c" and "\<forall>c \<in> set cs. \<not> discards c"
  shows "map_sum id answer
           (kv_range (run cs (run cs0 (new_store now)))
              (req\<lparr>rg_revision := Some (revision (run cs0 (new_store now)))\<rparr>)) =
         map_sum id answer (kv_range (run cs0 (new_store now)) (req\<lparr>rg_revision := None\<rparr>))"
proof -
  let ?s = "run cs0 (new_store now)" and ?req = "req\<lparr>rg_revision := None\<rparr>"
  let ?t = "revision ?s" and ?req' = "req\<lparr>rg_revision := Some (revision ?s)\<rparr>"
  have e0: "extends (revision (new_store now)) (new_store now) ?s"
    using assms(1) by (rule run_extends)
  have e: "extends ?t ?s (run cs ?s)" using assms(2) by (rule run_extends)
  have wf: "mvcc_wf ?s" "mvcc_wf (run cs ?s)" by (rule run_wf [OF new_store_wf(1)], simp add: run_wf new_store_wf)
  have c: "complete ?s" "compacted_revision (run cs ?s) = 0"
    using e0 e new_store_wf [of now] by (auto simp: extends_def) (simp add: new_store_def)
  have "get_at_revision (run cs ?s) k ?t = map_of (current ?s) k" for k
    using e wf(1) get_latest_complete [OF wf(1) c(1) order_refl] by (auto simp: extends_def)
  then obtain kvs' where 1: "range_at_revision (run cs ?s) ?req' ?t = Inr (range_reply (run cs ?s) ?req' kvs')"
    "visible_sorted (map_of (current ?s)) ?req' kvs'"
    using range_at_revision_visible [OF wf(2), of ?req' ?t] by auto
  obtain kvs where 2: "kv_range ?s ?req = Inr (range_reply ?s ?req kvs)"
    "visible_sorted (map_of (current ?s)) ?req kvs"
    using kv_range_visible [OF wf(1), of ?req] by auto
  have "kvs' = kvs" using 1(2) 2(2) by (simp add: visible_sorted_unique)
  moreover have "answer (range_reply s ?req' kvs) = answer (range_reply s' ?req kvs)" for s s'
    by (simp add: answer_def range_reply_def Let_def split: option.splits)
  ultimately show ?thesis
    using 1(1) 2(1) c(2) by (simp add: kv_range_def [of "run cs ?s"])
qed

theorem time_travel_read_witness:
  "let s = run [CPut (demo_put ''a'' ''1''), CPut (demo_put ''b'' ''2'')] (new_store 0);
       s' = run [CDelete (demo_del ''a'' (Some ''z''))] s
   in kv_range s (demo_range ''a'' ''z'') \<noteq> kv_range s' (demo_range ''a'' ''z'') \<and>
      map_sum id answer (kv_range s' (demo_range ''a'' ''z''\<lparr>rg_revision := Some (revision s)\<rparr>)) =
      map_sum id answer (kv_range s (demo_range ''a'' ''z''))"
proof -
  let ?cs = "[CPut (demo_put ''a'' ''1''), CPut (demo_put ''b'' ''2'')]"
  let ?ds = "[CDelete (demo_del ''a'' (Some ''z''))]"
  have "kv_range (run ?cs (new_store 0)) (demo_range ''a'' ''z'') \<noteq>
        kv_range (run ?ds (run ?cs (new_store 0))) (demo_range ''a'' ''z'')" by code_simp
  moreover have "demo_range ''a'' ''z''\<lparr>rg_revision := None\<rparr> = demo_range ''a'' ''z''"
    by (simp add: demo_range_def)
  ultimately show ?thesis
    using time_travel_read [of ?cs ?ds 0 "demo_range ''a'' ''z''"] by (simp add: Let_def)
qed

end
