(* ===== verification/Etcd_Keys.thy ===== *)
theory Etcd_Keys
  imports Etcd_Reads
begin

section \<open>Puts, deletes, transactions and compaction\<close>

text \<open>
  The effect of each writing operation on the live keys and the revision counter, the atomic
  choice a transaction makes, and the error and read behaviour of compaction.
\<close>

subsection \<open>Put\<close>

lemma put_simps [simp]:
  "revision (snd (put req s)) = Suc (revision s)"
  "map_of (current (snd (put req s))) =
     (map_of (current s))(pt_key req \<mapsto> put_kv req (Suc (revision s)) (map_of (current s) (pt_key req)))"
  using same_kvD(1,4) [OF same_kv_put [of s req]] by simp_all

lemma point_read_reply:
  "kv_range s (point_read k) =
     Inr \<lparr>rs_header = header s, rs_kvs = (case map_of (current s) k of Some kv \<Rightarrow> [kv] | None \<Rightarrow> []),
          rs_count = (case map_of (current s) k of Some kv \<Rightarrow> 1 | None \<Rightarrow> 0), rs_more = False\<rparr>"
  by (simp add: kv_range_def point_read_def range_reply_def Let_def split: option.splits)

text \<open>
  C25: after a put, reading the key returns exactly the pair written: the new value and lease,
  the new store revision as modification revision, the creation revision of the key's first put
  since it last did not exist, and a version one higher than before. Every other key reads as
  before, and the store revision grows by one.
\<close>

theorem put_then_read:
  "let s' = snd (put req s); old = map_of (current s) (pt_key req)
   in revision s' = revision s + 1 \<and>
      (\<exists>r kv. kv_range s' (point_read (pt_key req)) = Inr r \<and> rs_kvs r = [kv] \<and>
         kv_key kv = pt_key req \<and> kv_value kv = pt_value req \<and> kv_lease kv = pt_lease req \<and>
         mod_revision kv = revision s' \<and>
         create_revision kv = (case old of None \<Rightarrow> revision s' | Some p \<Rightarrow> create_revision p) \<and>
         version kv = (case old of None \<Rightarrow> 1 | Some p \<Rightarrow> version p + 1)) \<and>
      pr_prev_kv (fst (put req s)) = (if pt_prev_kv req then old else None) \<and>
      (\<forall>k. k \<noteq> pt_key req \<longrightarrow>
         rs_kvs (projr (kv_range s' (point_read k))) = rs_kvs (projr (kv_range s (point_read k))))"
proof -
  have "pr_prev_kv (fst (put req s)) = (if pt_prev_kv req then map_of (current s) (pt_key req) else None)"
    by (simp add: put_def next_revision_def Let_def)
  then show ?thesis by (simp add: Let_def point_read_reply put_kv_def cong: option.case_cong)
qed

theorem put_then_read_witness:
  "(let s = new_store 0; s' = snd (put (demo_put ''a'' ''1'') s)
    in revision s' = 2 \<and> rs_kvs (projr (kv_range s' (point_read ''b''))) = [])"
  using put_then_read [of "demo_put ''a'' ''1''" "new_store 0"]
  by (simp add: Let_def point_read_reply) (simp add: new_store_def demo_put_def)

subsection \<open>Delete\<close>

lemma delete_one_simps:
  assumes "delete_one rv k s = Some (kv, s')"
  shows "map_of (current s') = (map_of (current s))(k := None)" "map_of (current s) k = Some kv"
  using same_kvD(1) [OF same_kv_delete_one(2) [OF assms]] same_kv_delete_one(1) [OF assms]
  by simp_all

lemma delete_one_None: "delete_one rv k s = None \<longleftrightarrow> map_of (current s) k = None"
  by (auto simp: delete_one_def Let_def split: option.splits)

lemma delete_keys_current:
  "map_of (current (snd (delete_keys rv ks s))) k =
     (if k \<in> set ks then None else map_of (current s) k)"
proof (induction rv ks s rule: delete_keys.induct)
  case (2 rv k' ks s)
  show ?case
  proof (cases "delete_one rv k' s")
    case None
    with 2(1) iffD1 [OF delete_one_None None] show ?thesis by auto
  next
    case (Some p)
    then obtain kv s' where d: "delete_one rv k' s = Some (kv, s')" by (cases p) auto
    with 2(2) [OF d refl] delete_one_simps [OF d] show ?thesis by (auto split: prod.splits)
  qed
qed simp

lemma delete_keys_removed:
  "distinct ks \<Longrightarrow> fst (delete_keys rv ks s) = List.map_filter (map_of (current s)) ks"
proof (induction rv ks s rule: delete_keys.induct)
  case (2 rv k ks s)
  show ?case
  proof (cases "delete_one rv k s")
    case None
    with 2(1,3) iffD1 [OF delete_one_None None] show ?thesis
      by (simp add: List.map_filter_simps)
  next
    case (Some p)
    then obtain kv s' where d: "delete_one rv k s = Some (kv, s')" by (cases p) auto
    note cur = delete_one_simps [OF d]
    have "List.map_filter (map_of (current s')) ks = List.map_filter (map_of (current s)) ks"
      using 2(3) cur(1) by (auto simp: List.map_filter_def intro!: map_cong filter_cong)
    with 2(2) [OF d refl] 2(3) d cur(2) show ?thesis
      by (auto simp: List.map_filter_simps split: prod.splits)
  qed
qed (simp add: List.map_filter_simps)

definition delete_covers :: "delete_range_request \<Rightarrow> bytes \<Rightarrow> bool" where
  "delete_covers req k =
     (case dl_range_end req of Some hi \<Rightarrow> in_range (dl_key req) hi k | None \<Rightarrow> k = dl_key req)"

text \<open>
  C26: a range delete removes exactly the live keys it covers and no other, reports their number
  and, when asked, the removed pairs; it takes one new revision for all of them, and takes it
  even when nothing was there to delete.
\<close>

theorem delete_range_spec:
  assumes "mvcc_wf s"
  shows "let (r, s') = delete_range req s
         in (\<forall>k. map_of (current s') k =
                   (if delete_covers req k then None else map_of (current s) k)) \<and>
            revision s' = revision s + 1 \<and>
            dr_deleted r = card {k. delete_covers req k \<and> map_of (current s) k \<noteq> None} \<and>
            set (dr_prev_kvs r) =
              (if dl_prev_kv req
               then {kv. \<exists>k. delete_covers req k \<and> map_of (current s) k = Some kv} else {})"
proof -
  let ?b = "s\<lparr>revision := Suc (revision s)\<rparr>"
  define ks where "ks = (case dl_range_end req of
      Some hi \<Rightarrow> filter (in_range (dl_key req) hi) (map fst (current s)) | None \<Rightarrow> [dl_key req])"
  note wf = mvcc_wfD [OF assms]
  have d: "distinct ks" using wf(1) by (simp add: ks_def split: option.splits)
  have ks: "k \<in> set ks \<longleftrightarrow> delete_covers req k" if "map_of (current s) k \<noteq> None" for k
    using that map_of_SomeD_key [of "current s" k]
    by (auto simp: ks_def delete_covers_def split: option.splits)
  obtain kvs s' where k: "delete_keys (Suc (revision s)) ks ?b = (kvs, s')"
    by (cases "delete_keys (Suc (revision s)) ks ?b")
  have del: "delete_range req s = (\<lparr>dr_header = header s', dr_deleted = length kvs,
      dr_prev_kvs = (if dl_prev_kv req then kvs else [])\<rparr>, s')"
    using k by (simp add: delete_range_def next_revision_def Let_def ks_def cong: option.case_cong)
  have kvs: "kvs = List.map_filter (map_of (current s)) ks"
    using delete_keys_removed [OF d, of "Suc (revision s)" ?b] k by simp
  have "map_of (current s') k = (if delete_covers req k then None else map_of (current s) k)" for k
    using delete_keys_current [of "Suc (revision s)" ks ?b k] k ks [of k]
    by (cases "map_of (current s) k") (auto split: if_splits)
  moreover have "revision s' = Suc (revision s)"
    using delete_keys_frame(1) [of "Suc (revision s)" ks ?b] k by simp
  moreover have "length kvs = card {k. delete_covers req k \<and> map_of (current s) k \<noteq> None}"
  proof -
    have "{k. delete_covers req k \<and> map_of (current s) k \<noteq> None} =
        set (filter (\<lambda>k. map_of (current s) k \<noteq> None) ks)" using ks by auto
    then show ?thesis
      using d by (simp only: kvs List.map_filter_def length_map comp_def distinct_card distinct_filter)
  qed
  moreover have "set kvs = {kv. \<exists>k. delete_covers req k \<and> map_of (current s) k = Some kv}"
    unfolding kvs set_of_map_filter using ks by blast
  ultimately show ?thesis unfolding del by simp
qed

theorem delete_range_spec_witness:
  "let s = run [CPut (demo_put ''a'' ''1''), CPut (demo_put ''b'' ''2''), CPut (demo_put ''z'' ''3'')]
             (new_store 0);
       (r, s') = delete_range (demo_del ''a'' (Some ''m'')) s
   in mvcc_wf s \<and> map_of (current s') ''b'' = None \<and>
      map_of (current s') ''z'' = map_of (current s) ''z'' \<and> revision s' = revision s + 1"
proof -
  let ?s = "run [CPut (demo_put ''a'' ''1''), CPut (demo_put ''b'' ''2''), CPut (demo_put ''z'' ''3'')]
             (new_store 0)"
  have wf: "mvcc_wf ?s" by (simp add: run_wf new_store_wf)
  have "delete_covers (demo_del ''a'' (Some ''m'')) ''b''"
    "\<not> delete_covers (demo_del ''a'' (Some ''m'')) ''z''" by code_simp+
  with wf delete_range_spec [OF wf, of "demo_del ''a'' (Some ''m'')"]
  show ?thesis by (auto simp: Let_def split: prod.splits)
qed

subsection \<open>Transactions\<close>

text \<open>The guard \<open>Compare(Mod, Equal, n)\<close> of a compare-and-swap.\<close>

definition mod_guard :: "string \<Rightarrow> u64 \<Rightarrow> cmp_cond" where
  "mod_guard k n = \<lparr>cmp_key = k, cmp_target = CmpMod, cmp_result = CmpEqual, cmp_value = None,
                    cmp_version = None, cmp_mod_revision = Some n\<rparr>"

definition mod_of :: "kv_store \<Rightarrow> bytes \<Rightarrow> u64" where
  "mod_of s k = (case map_of (current s) k of Some kv \<Rightarrow> mod_revision kv | None \<Rightarrow> 0)"

lemma mod_guard_pass: "compare_pass s (mod_guard k n) \<longleftrightarrow> mod_of s k = n"
  by (auto simp: compare_pass_def mod_guard_def point_read_reply mod_of_def split: option.splits)

lemma mod_of_unchanged:
  assumes "mvcc_wf s" "complete s" "extends (revision s) s s'" "mod_of s' k = mod_of s k"
  shows "map_of (current s') k = map_of (current s) k"
proof -
  have wf': "mvcc_wf s'" "complete s'"
    and old: "get_at_revision s' k (revision s) = get_at_revision s k (revision s)"
    using assms(1-3) by (auto simp: extends_def)
  note live = mvcc_wfD(8) [OF assms(1), of k] mvcc_wfD(8) [OF wf'(1), of k]
  show ?thesis
  proof (cases "map_of (current s') k")
    case None
    with assms(4) live(1) show ?thesis
      by (cases "map_of (current s) k") (auto simp: mod_of_def live_ok_def)
  next
    case (Some kv')
    with assms(4) live(2) obtain kv where kv: "map_of (current s) k = Some kv"
      by (cases "map_of (current s) k") (auto simp: mod_of_def live_ok_def)
    have "mod_revision kv' \<le> revision s"
      using assms(4) live(1) [OF kv] Some kv by (simp add: mod_of_def live_ok_def)
    then have "Some kv' = get_at_revision s' k (revision s)"
      using get_live_complete [OF wf' Some] by simp
    also have "\<dots> = Some kv" using old get_latest_complete [OF assms(1,2) order_refl, of k] kv by simp
    finally show ?thesis using Some kv by simp
  qed
qed

text \<open>
  C13: compare-and-swap on the modification revision. A client reads a key, then any commands
  that do not discard history run, then the client submits a transaction guarded by the
  modification revision it read (0 when the key was absent). The transaction runs its success
  branch exactly when the key holds the very pair the client read, so a delete followed by a new
  put of the same value is noticed; otherwise it runs its failure branch. Nothing else runs.
  Compare and execute are one step here; the code does not keep a concurrent put out of it.
\<close>

theorem cas_detects_change:
  assumes "\<forall>c \<in> set (pre @ post). \<not> discards c"
  shows "let s = run pre (new_store now); s' = run post s;
             same = (map_of (current s') k = map_of (current s) k);
             (r, s'') = txn \<lparr>tx_compare = [mod_guard k (mod_of s k)], tx_success = ok,
                            tx_failure = fail\<rparr> s'
         in tr_succeeded r = same \<and> s'' = fold run_op (if same then ok else fail) s'"
proof -
  let ?s = "run pre (new_store now)"
  have "extends (revision (new_store now)) (new_store now) ?s" "extends (revision ?s) ?s (run post ?s)"
    using assms by (simp_all add: run_extends)
  with new_store_wf [of now] have "mod_of (run post ?s) k = mod_of ?s k \<longleftrightarrow>
      map_of (current (run post ?s)) k = map_of (current ?s) k"
    using mod_of_unchanged [of ?s "run post ?s" k] by (auto simp: extends_def mod_of_def)
  then show ?thesis by (simp add: txn_def Let_def mod_guard_pass)
qed

theorem cas_detects_change_witness:
  "let s = run [CPut (demo_put ''a'' ''1'')] (new_store 0);
       s' = run [CDelete (demo_del ''a'' None), CPut (demo_put ''a'' ''1'')] s;
       (r, s'') = txn \<lparr>tx_compare = [mod_guard ''a'' (mod_of s ''a'')],
                      tx_success = [OpPut (demo_put ''a'' ''2'')], tx_failure = []\<rparr> s'
   in \<not> tr_succeeded r \<and> s'' = s'"
proof -
  let ?before = "[CPut (demo_put ''a'' ''1'')]"
  let ?after = "[CDelete (demo_del ''a'' None), CPut (demo_put ''a'' ''1'')]"
  have "map_of (current (run ?after (run ?before (new_store 0)))) ''a'' \<noteq>
        map_of (current (run ?before (new_store 0))) ''a''" by code_simp
  then show ?thesis
    using cas_detects_change [where pre = ?before and post = ?after and now = 0 and k = "''a''"
        and ok = "[OpPut (demo_put ''a'' ''2'')]" and fail = "[]"]
    by (simp add: Let_def case_prod_beta)
qed

definition writes :: "request_op list \<Rightarrow> nat" where
  "writes ops = length (filter (\<lambda>op. case op of OpRange _ \<Rightarrow> False | _ \<Rightarrow> True) ops)"

lemma delete_range_revision: "revision (snd (delete_range req s)) = Suc (revision s)"
  by (simp add: delete_range_def next_revision_def Let_def delete_keys_frame case_prod_beta
      split: option.splits)

lemma run_ops_revision: "revision (fold run_op ops s) = revision s + writes ops"
  by (induction ops arbitrary: s)
    (auto simp: run_op_def writes_def delete_range_revision split: request_op.splits)

text \<open>
  A transaction with more than 128 comparisons and operations is refused with
  \<open>TooManyTxnOps\<close> and changes nothing; any other transaction runs, and takes one revision for
  each put or delete of the branch it chose.
\<close>

lemma txn_checked_limit:
  "let n = length (tx_compare req) + length (tx_success req) + length (tx_failure req)
   in if n > 128 then txn_checked req s = (Inl (TooManyTxnOps n 128), s)
      else \<exists>r. fst (txn_checked req s) = Inr r \<and>
             revision (snd (txn_checked req s)) =
               revision s + writes (if tr_succeeded r then tx_success req else tx_failure req) \<and>
             hdr_revision (tr_header r) = revision (snd (txn_checked req s))"
  by (simp add: txn_checked_def txn_def MAX_TXN_OPS_def Let_def run_ops_revision current_revision_def)

subsection \<open>Compaction\<close>

lemma find_append: "find P (xs @ ys) = (case find P xs of None \<Rightarrow> find P ys | Some x \<Rightarrow> Some x)"
  by (induction xs) auto

lemma find_prune:
  assumes "rv \<le> t"
  shows "find (\<lambda>r. r \<le> t) (rev (prune_index rv revs)) = find (\<lambda>r. r \<le> t) (rev revs)"
proof (cases "length (takeWhile (\<lambda>r. r \<le> rv) revs) \<le> 1")
  case True
  then show ?thesis by (simp add: prune_index_def)
next
  case False
  let ?n = "length (takeWhile (\<lambda>r. r \<le> rv) revs) - 1"
  have n: "?n < length (takeWhile (\<lambda>r. r \<le> rv) revs)" using False by simp
  then have len: "?n < length revs" using length_takeWhile_le [of "\<lambda>r. r \<le> rv" revs] by linarith
  have "revs ! ?n \<le> rv"
    using nth_mem [OF n] takeWhile_nth [OF n] set_takeWhileD by metis
  moreover have "revs ! ?n \<in> set (drop ?n revs)"
    using len by (simp add: in_set_conv_nth) (metis Nat.add_0_right diff_is_0_eq' le_less_linear nth_drop order_less_irrefl zero_less_diff less_imp_le)
  ultimately obtain x where "find (\<lambda>r. r \<le> t) (rev (drop ?n revs)) = Some x"
    using assms by (cases "find (\<lambda>r. r \<le> t) (rev (drop ?n revs))") (auto simp: find_None_iff)
  moreover have "rev revs = rev (drop ?n revs) @ rev (take ?n revs)"
    by (metis append_take_drop_id rev_append)
  ultimately show ?thesis using False by (simp add: prune_index_def find_append Let_def)
qed

lemma find_rev_greatest:
  assumes "sorted_wrt (<) (xs :: nat list)" and "find (\<lambda>r. r \<le> t) (rev xs) = Some r"
    and "r' \<in> set xs" "r' \<le> t"
  shows "r' \<le> r"
  using assms by (induction xs rule: rev_induct) (auto simp: sorted_wrt_append split: if_splits)

lemma compact_v2_some:
  assumes "compacted_revision s < rv" "rv \<le> revision s"
  shows "compact_v2 rv s = (Inr (), s\<lparr>compacted_revision := rv,
           history := filter (\<lambda>(r, _). \<not> r < rv) (history s),
           key_index := map (\<lambda>(k, revs). (k, prune_index rv revs)) (key_index s)\<rparr>)"
  using assms by (simp add: compact_v2_def current_revision_def Let_def)

lemma compact_v2_index:
  assumes "compacted_revision s < rv" "rv \<le> revision s"
  shows "index_of (snd (compact_v2 rv s)) k = prune_index rv (index_of s k)"
  by (simp add: compact_v2_some [OF assms] index_of_def map_of_map_snd prune_index_def
      split: option.split)

lemma compact_v2_get:
  assumes "mvcc_wf s" "compacted_revision s < rv" "rv \<le> revision s" "rv \<le> t"
  shows "get_at_revision (snd (compact_v2 rv s)) k t =
           (if \<exists>r \<in> set (index_of s k). rv \<le> r \<and> r \<le> t then get_at_revision s k t else None)"
proof -
  have f: "find (\<lambda>r. r \<le> t) (rev (index_of (snd (compact_v2 rv s)) k)) =
      find (\<lambda>r. r \<le> t) (rev (index_of s k))"
    by (simp add: compact_v2_index assms(2,3) find_prune [OF assms(4)])
  have h: "map_of (history (snd (compact_v2 rv s))) r = (if r < rv then None else map_of (history s) r)" for r
    by (simp add: compact_v2_some [OF assms(2,3)] map_of_filter_old)
  show ?thesis
  proof (cases "find (\<lambda>r. r \<le> t) (rev (index_of s k))")
    case None
    then have "\<not> (\<exists>r \<in> set (index_of s k). rv \<le> r \<and> r \<le> t)" by (auto simp: find_None_iff)
    with f None show ?thesis by (simp add: get_at_revision_index)
  next
    case (Some r)
    have "r \<in> set (index_of s k)" "r \<le> t" using find_SomeD [OF Some] by simp_all
    moreover have "r' \<le> r" if "r' \<in> set (index_of s k)" "r' \<le> t" for r'
      using mvcc_wfD(5) [OF assms(1)] Some that by (rule find_rev_greatest)
    ultimately have "(\<exists>r' \<in> set (index_of s k). rv \<le> r' \<and> r' \<le> t) \<longleftrightarrow> \<not> r < rv"
      by (meson leD le_less_linear order_trans)
    then show ?thesis using f Some by (simp add: get_at_revision_index h)
  qed
qed

text \<open>
  C31: compaction to a revision that is neither in the future nor already compacted. Live reads
  are unaffected; a read below the compacted revision fails with \<open>RevisionCompacted\<close>; and at or
  above it, a key reads as before if it was written between the compacted revision and the
  revision read. A key whose last write is older than the compacted revision is gone from
  historical reads although it is still live.
\<close>

theorem compact_v2_reads:
  assumes "mvcc_wf s" "compacted_revision s < rv" "rv \<le> revision s"
  shows "let (r, s') = compact_v2 rv s
         in r = Inr () \<and> compacted_revision s' = rv \<and>
            (\<forall>req. rg_revision req = None \<longrightarrow> kv_range s' req = kv_range s req) \<and>
            (\<forall>req t. t < rv \<longrightarrow>
               kv_range s' (req\<lparr>rg_revision := Some t\<rparr>) = Inl (RevisionCompacted t rv)) \<and>
            (\<forall>k t. rv \<le> t \<longrightarrow> get_at_revision s' k t =
               (if \<exists>r \<in> set (index_of s k). rv \<le> r \<and> r \<le> t then get_at_revision s k t else None))"
proof -
  let ?s = "snd (compact_v2 rv s)"
  have "fst (compact_v2 rv s) = Inr ()" "compacted_revision ?s = rv" "current ?s = current s"
    "header ?s = header s"
    by (simp_all add: compact_v2_some [OF assms(2,3)] header_def current_revision_def)
  moreover have "kv_range ?s req = kv_range s req" if "rg_revision req = None" for req
    using that calculation by (simp add: kv_range_def range_reply_def Let_def cong: option.case_cong)
  moreover have "kv_range ?s (req\<lparr>rg_revision := Some t\<rparr>) = Inl (RevisionCompacted t rv)"
    if "t < rv" for t req
    using that assms(2) calculation(2) by (simp add: kv_range_def)
  ultimately show ?thesis using compact_v2_get [OF assms] by (simp add: case_prod_beta)
qed

text \<open>A store in which key \<open>a\<close> was last written before the compacted revision.\<close>

definition demo_compacted :: kv_store where
  "demo_compacted =
     run [CPut (demo_put ''a'' ''1''), CPut (demo_put ''b'' ''2'')] (new_store 0)"

theorem compact_v2_reads_witness:
  "let s' = snd (compact_v2 3 demo_compacted)
   in map_of (current s') ''a'' \<noteq> None \<and> get_at_revision demo_compacted ''a'' 3 \<noteq> None \<and>
      get_at_revision s' ''a'' 3 = None \<and> get_at_revision s' ''b'' 3 \<noteq> None"
proof -
  have wf: "mvcc_wf demo_compacted" by (simp add: demo_compacted_def run_wf new_store_wf)
  have rv: "compacted_revision demo_compacted < 3" "3 \<le> revision demo_compacted" by code_simp+
  have idx: "index_of demo_compacted ''a'' = [2]" "index_of demo_compacted ''b'' = [3]" by code_simp+
  have old: "get_at_revision demo_compacted ''a'' 3 \<noteq> None"
    "get_at_revision demo_compacted ''b'' 3 \<noteq> None" by code_simp+
  have live: "map_of (current (snd (compact_v2 3 demo_compacted))) ''a'' \<noteq> None" by code_simp
  have get: "get_at_revision (snd (compact_v2 3 demo_compacted)) k 3 =
      (if \<exists>r \<in> set (index_of demo_compacted k). 3 \<le> r \<and> r \<le> 3
       then get_at_revision demo_compacted k 3 else None)" for k
    using compact_v2_reads [OF wf rv] by (simp only: Let_def case_prod_beta)
  show ?thesis using idx old live get [of "''a''"] get [of "''b''"] by (simp add: Let_def)
qed

text \<open>
  The compacted revision never moves back under \<open>compact_v2\<close> and never passes the store
  revision; a revision in the future is refused with \<open>CompactionFutureRevision\<close> and changes
  nothing, and so is a watermark in the future.
\<close>

lemma compact_v2_bounds:
  "let (r, s') = compact_v2 rv s
   in compacted_revision s \<le> compacted_revision s' \<and>
      compacted_revision s' \<le> max (compacted_revision s) (revision s) \<and>
      (r = Inl (CompactionFutureRevision rv (revision s)) \<longleftrightarrow> revision s < rv) \<and>
      (revision s < rv \<longrightarrow> s' = s \<and>
         set_compaction_watermark rv s = (Inl (CompactionFutureRevision rv (revision s)), s)) \<and>
      (rv \<le> compacted_revision s \<longrightarrow> s' = s)"
  by (simp add: compact_v2_def set_compaction_watermark_def current_revision_def Let_def)

lemma compact_v2_bounds_witness:
  "fst (compact_v2 9 (new_store 0)) = Inl (CompactionFutureRevision 9 1) \<and>
   snd (compact_v2 9 (new_store 0)) = new_store 0"
  using compact_v2_bounds [of 9 "new_store 0"]
  by (simp add: Let_def case_prod_beta) (simp add: new_store_def)

end
