(* ===== verification/Etcd_Leases.thy ===== *)
theory Etcd_Leases
  imports Etcd_Keys
begin

section \<open>Leases\<close>

text \<open>
  The table of leases against the live keys: a key listed by a lease is live and carries that
  lease, after any commands. On top of it, what revoking and expiring leases removes, and the
  limits and errors of \<open>lease_grant_v2\<close>.
\<close>

subsection \<open>The invariant\<close>

definition lease_wf :: "kv_store \<Rightarrow> bool" where
  "lease_wf s \<longleftrightarrow>
     alist_wf (leases s) \<and>
     (\<forall>i l. map_of (leases s) i = Some l \<longrightarrow> lease_id l = i \<and> distinct (lease_keys l) \<and>
        (\<forall>k \<in> set (lease_keys l). \<exists>kv. map_of (current s) k = Some kv \<and> kv_lease kv = Some i))"

lemma lease_wfD:
  assumes "lease_wf s" and "map_of (leases s) i = Some l"
  shows "distinct (lease_keys l)"
    and "k \<in> set (lease_keys l) \<Longrightarrow> \<exists>kv. map_of (current s) k = Some kv \<and> kv_lease kv = Some i"
    and "lease_id l = i"
  using assms unfolding lease_wf_def by blast+

lemma lease_wfI:
  assumes "alist_wf (leases s)"
    and "\<And>i l. map_of (leases s) i = Some l \<Longrightarrow> lease_id l = i \<and> distinct (lease_keys l)"
    and "\<And>i l k. map_of (leases s) i = Some l \<Longrightarrow> k \<in> set (lease_keys l) \<Longrightarrow>
           \<exists>kv. map_of (current s) k = Some kv \<and> kv_lease kv = Some i"
  shows "lease_wf s"
  using assms unfolding lease_wf_def by blast

lemma lease_wf_cong:
  "leases s' = leases s \<Longrightarrow> map_of (current s') = map_of (current s) \<Longrightarrow> lease_wf s' = lease_wf s"
  by (simp add: lease_wf_def)

lemma dispatch_frame [simp]:
  "leases (dispatch_event ev s) = leases s" "current (dispatch_event ev s) = current s"
  "revision (dispatch_event ev s) = revision s"
  by (simp_all add: dispatch_event_def)

lemma index_push_frame [simp]:
  "leases (index_push k rv s) = leases s" "current (index_push k rv s) = current s"
  "revision (index_push k rv s) = revision s"
  by (simp_all add: index_push_def Let_def)

lemma lease_detach_simps [simp]:
  "map_of (leases (lease_detach k lid s)) i =
     (if lid = Some i
      then map_option (\<lambda>l. l\<lparr>lease_keys := filter (\<lambda>x. x \<noteq> k) (lease_keys l)\<rparr>) (map_of (leases s) i)
      else map_of (leases s) i)"
  "alist_wf (leases s) \<Longrightarrow> alist_wf (leases (lease_detach k lid s))"
  by (auto simp: lease_detach_def split: option.splits)

lemma lease_attach_simps [simp]:
  "map_of (leases (lease_attach k lid s)) i =
     (if lid = Some i
      then map_option (\<lambda>l. if k \<in> set (lease_keys l) then l
                           else l\<lparr>lease_keys := lease_keys l @ [k]\<rparr>) (map_of (leases s) i)
      else map_of (leases s) i)"
  "alist_wf (leases s) \<Longrightarrow> alist_wf (leases (lease_attach k lid s))"
  by (auto simp: lease_attach_def split: option.splits)

text \<open>Both steps depend on the table of leases alone.\<close>

lemma lease_attach_cong: "leases s = leases s' \<Longrightarrow> leases (lease_attach k l s) = leases (lease_attach k l s')"
  by (simp add: lease_attach_def split: option.split)

lemma lease_detach_cong: "leases s = leases s' \<Longrightarrow> leases (lease_detach k l s) = leases (lease_detach k l s')"
  by (simp add: lease_detach_def split: option.split)

lemma put_leases:
  "leases (snd (put req s)) =
     leases (lease_attach (pt_key req) (pt_lease req)
       (case map_of (current s) (pt_key req) of
          Some old \<Rightarrow> if kv_lease old \<noteq> pt_lease req then lease_detach (pt_key req) (kv_lease old) s else s
        | None \<Rightarrow> s))"
proof -
  have "leases (lease_detach k l (s\<lparr>revision := n\<rparr>)) = leases (lease_detach k l s)" for k l n
    by (rule lease_detach_cong) simp
  then show ?thesis
    by (simp add: put_def next_revision_def Let_def case_prod_beta)
      (rule lease_attach_cong, simp split: option.split)
qed

lemma put_lease_wf:
  assumes "lease_wf s"
  shows "lease_wf (snd (put req s))"
proof -
  let ?k = "pt_key req" and ?L = "pt_lease req"
  define d where "d = (case map_of (current s) ?k of
      Some old \<Rightarrow> if kv_lease old \<noteq> ?L then lease_detach ?k (kv_lease old) s else s | None \<Rightarrow> s)"
  have put: "leases (snd (put req s)) = leases (lease_attach ?k ?L d)" by (simp add: d_def put_leases)
  have old: "\<exists>l0. map_of (leases s) i = Some l0 \<and> set (lease_keys l) \<subseteq> set (lease_keys l0) \<and>
      lease_id l = i \<and> distinct (lease_keys l) \<and> (?k \<in> set (lease_keys l) \<longrightarrow> ?L = Some i)"
    if "map_of (leases d) i = Some l" for i l
    using that lease_wfD [OF assms, of i]
    by (fastforce simp: d_def split: option.splits if_splits)
  have wf: "alist_wf (leases d)" using assms by (auto simp: d_def lease_wf_def split: option.split)
  show ?thesis
  proof (rule lease_wfI)
    show "alist_wf (leases (snd (put req s)))" using wf by (simp add: put)
  next
    fix i l assume "map_of (leases (snd (put req s))) i = Some l"
    then obtain l1 where l1: "map_of (leases d) i = Some l1" and
      l: "l = (if ?L = Some i \<and> ?k \<notin> set (lease_keys l1)
               then l1\<lparr>lease_keys := lease_keys l1 @ [?k]\<rparr> else l1)"
      by (cases "map_of (leases d) i") (auto simp: put split: if_splits)
    from old [OF l1] l show "lease_id l = i \<and> distinct (lease_keys l)" by auto
    fix k assume "k \<in> set (lease_keys l)"
    with old [OF l1] l lease_wfD(2) [OF assms, of i]
    show "\<exists>kv. map_of (current (snd (put req s))) k = Some kv \<and> kv_lease kv = Some i"
      by (cases "k = ?k") (auto simp: put_kv_def split: if_splits)
  qed
qed

lemma delete_one_leases:
  assumes "delete_one rv k s = Some (kv, s')"
  shows "leases s' = leases (lease_detach k (kv_lease kv) s)"
proof -
  have "leases s' = leases (lease_detach k (kv_lease kv) (s\<lparr>current := AList.delete k (current s)\<rparr>))"
    using assms by (auto simp: delete_one_def remove_key_from_lease_def Let_def split: option.splits)
  also have "\<dots> = leases (lease_detach k (kv_lease kv) s)" by (rule lease_detach_cong) simp
  finally show ?thesis .
qed

lemma delete_one_lease_wf:
  assumes "lease_wf s" and "delete_one rv k s = Some (kv, s')"
  shows "lease_wf s'"
proof (rule lease_wfI)
  note cur = delete_one_simps [OF assms(2)] and ls = delete_one_leases [OF assms(2)]
  show "alist_wf (leases s')" using assms(1) by (simp add: ls lease_wf_def)
  fix i l assume "map_of (leases s') i = Some l"
  then obtain l0 where l0: "map_of (leases s) i = Some l0" "lease_id l = lease_id l0" and
    l: "lease_keys l = (if kv_lease kv = Some i then filter (\<lambda>x. x \<noteq> k) (lease_keys l0) else lease_keys l0)"
    by (auto simp: ls split: if_splits)
  note old = lease_wfD [OF assms(1) l0(1)]
  show "lease_id l = i \<and> distinct (lease_keys l)" using old(1,3) l l0(2) by simp
  fix k' assume "k' \<in> set (lease_keys l)"
  with l old(2) [of k'] cur show "\<exists>kv. map_of (current s') k' = Some kv \<and> kv_lease kv = Some i"
    by (cases "k' = k") (auto split: if_splits)
qed

lemma delete_keys_lease_wf: "lease_wf s \<Longrightarrow> lease_wf (snd (delete_keys rv ks s))"
proof (induction rv ks s rule: delete_keys.induct)
  case (2 rv k ks s)
  show ?case
  proof (cases "delete_one rv k s")
    case None
    with 2(1,3) show ?thesis by simp
  next
    case (Some p)
    then obtain kv s' where d: "delete_one rv k s = Some (kv, s')" by (cases p) auto
    from 2(2) [OF d refl] delete_one_lease_wf [OF 2(3) d] d show ?thesis
      by (simp add: case_prod_beta Let_def)
  qed
qed simp

lemma delete_range_lease_wf: "lease_wf s \<Longrightarrow> lease_wf (snd (delete_range req s))"
proof -
  assume "lease_wf s"
  then have "lease_wf (s\<lparr>revision := n\<rparr>)" for n by (simp add: lease_wf_def)
  then show ?thesis
    by (simp add: delete_range_def next_revision_def Let_def case_prod_beta delete_keys_lease_wf
        split: option.split)
qed

subsection \<open>Revoking and expiring\<close>

lemma revoke_key_simps [simp]:
  "leases (revoke_key k s) = leases s"
  "map_of (current (revoke_key k s)) = (map_of (current s))(k := None)"
  "revision (revoke_key k s) = (if map_of (current s) k = None then revision s else Suc (revision s))"
  by (auto simp: revoke_key_def next_revision_def Let_def split: option.splits)

lemma revoke_keys_frame [simp]: "leases (fold revoke_key ks s) = leases s"
  by (induction ks arbitrary: s) simp_all

lemma revoke_keys_current:
  "map_of (current (fold revoke_key ks s)) k = (if k \<in> set ks then None else map_of (current s) k)"
  by (induction ks arbitrary: s) auto

lemma revoke_keys_revision:
  "distinct ks \<Longrightarrow> \<forall>k \<in> set ks. map_of (current s) k \<noteq> None \<Longrightarrow>
   revision (fold revoke_key ks s) = revision s + length ks"
proof (induction ks arbitrary: s)
  case (Cons k ks)
  then have "\<forall>k' \<in> set ks. map_of (current (revoke_key k s)) k' \<noteq> None" by auto
  with Cons.IH [of "revoke_key k s"] Cons.prems show ?case by auto
qed simp

lemma lease_revoke_simps:
  "map_of (leases (snd (lease_revoke i s))) = (map_of (leases s))(i := None)"
  "alist_wf (leases s) \<Longrightarrow> alist_wf (leases (snd (lease_revoke i s)))"
  "map_of (current (snd (lease_revoke i s))) k =
     (if \<exists>l. map_of (leases s) i = Some l \<and> k \<in> set (lease_keys l) then None
      else map_of (current s) k)"
  by (auto simp: lease_revoke_def revoke_keys_current delete_conv fun_eq_iff split: option.splits)

lemma lease_revoke_wf:
  assumes "lease_wf s"
  shows "lease_wf (snd (lease_revoke i s))"
proof (rule lease_wfI)
  show "alist_wf (leases (snd (lease_revoke i s)))"
    using assms by (simp add: lease_revoke_simps lease_wf_def)
next
  fix j l assume "map_of (leases (snd (lease_revoke i s))) j = Some l"
  then have j: "j \<noteq> i" "map_of (leases s) j = Some l" by (auto simp: lease_revoke_simps split: if_splits)
  show "lease_id l = j \<and> distinct (lease_keys l)" using lease_wfD(1,3) [OF assms j(2)] by simp
  fix k assume "k \<in> set (lease_keys l)"
  with lease_wfD(2) [OF assms j(2)] lease_wfD(2) [OF assms, of i] j(1)
  show "\<exists>kv. map_of (current (snd (lease_revoke i s))) k = Some kv \<and> kv_lease kv = Some j"
    by (fastforce simp: lease_revoke_simps)
qed


lemma expire_leases_wf: "lease_wf s \<Longrightarrow> lease_wf (expire_leases now s)"
proof -
  have "lease_wf s \<Longrightarrow> lease_wf (fold (\<lambda>i s. snd (lease_revoke i s)) ids s)" for ids s
    by (induction ids arbitrary: s) (simp_all add: lease_revoke_wf)
  then show "lease_wf s \<Longrightarrow> lease_wf (expire_leases now s)" by (simp add: expire_leases_def)
qed

lemma grant_lease_wf:
  assumes "lease_wf s" and "lease_keys l = []" and "lease_id l = i"
  shows "lease_wf (s\<lparr>leases := AList.update i l (leases s)\<rparr>)"
    and "lease_wf (s\<lparr>lease_counter := n, leases := AList.update i l (leases s)\<rparr>)"
  using assms unfolding lease_wf_def by (auto simp: fun_upd_def split: if_splits)

lemma keepalive_lease_wf:
  assumes "lease_wf s" and "map_of (leases s) i = Some l" and "lease_keys l' = lease_keys l"
    and "lease_id l' = i"
  shows "lease_wf (s\<lparr>leases := AList.update i l' (leases s)\<rparr>)"
  using assms lease_wfD [OF assms(1,2)] unfolding lease_wf_def by (auto simp: fun_upd_def)

lemma run_op_lease_wf: "lease_wf s \<Longrightarrow> lease_wf (run_op op s)"
  by (cases op) (simp_all add: run_op_def put_lease_wf delete_range_lease_wf)

lemma txn_lease_wf: "lease_wf s \<Longrightarrow> lease_wf (snd (txn_checked req s))"
proof -
  have "lease_wf s \<Longrightarrow> lease_wf (fold run_op ops s)" for ops s
    by (induction ops arbitrary: s) (simp_all add: run_op_lease_wf)
  then show "lease_wf s \<Longrightarrow> lease_wf (snd (txn_checked req s))"
    by (simp add: txn_checked_def txn_def Let_def)
qed

lemma lease_wf_frame [simp]:
  "lease_wf (snd (watch_create r s)) = lease_wf s"
  "lease_wf (snd (watch_subscribe i s)) = lease_wf s"
  "lease_wf (snd (watch_cancel i s)) = lease_wf s"
  "lease_wf (snd (compaction rv s)) = lease_wf s"
  "lease_wf (snd (compact_v2 rv s)) = lease_wf s"
  "lease_wf (snd (set_compaction_watermark rv s)) = lease_wf s"
  "lease_wf (snd (apply_compaction_watermark s)) = lease_wf s"
  "lease_wf (snd (defragment_with_status s)) = lease_wf s"
  by (rule lease_wf_cong; simp add: watch_create_def watch_subscribe_def watch_cancel_def
      compaction_def compact_to_def compact_v2_def set_compaction_watermark_def
      apply_compaction_watermark_def defragment_with_status_def Let_def)+

lemma exec_lease_wf:
  assumes "lease_wf s"
  shows "lease_wf (exec c s)"
proof (cases c)
  case (CGrant now r)
  then show ?thesis
    using assms by (auto simp: lease_grant_def Let_def grant_lease_wf split: option.split)
next
  case (CGrantV2 now r)
  then show ?thesis
    using assms by (auto simp: lease_grant_v2_def Let_def grant_lease_wf)
next
  case (CKeepalive now i)
  then show ?thesis
    using assms lease_wfD(3) [OF assms]
    by (auto simp: lease_keepalive_def Let_def split: option.split intro: keepalive_lease_wf)
qed (use assms in \<open>simp_all add: put_lease_wf delete_range_lease_wf txn_lease_wf lease_revoke_wf
      expire_leases_wf\<close>)

lemma run_lease_wf: "lease_wf s \<Longrightarrow> lease_wf (run cs s)"
  unfolding run_def by (induction cs arbitrary: s) (simp_all add: exec_lease_wf)

lemma new_store_lease_wf: "lease_wf (new_store now)"
  by (simp add: lease_wf_def new_store_def)

subsection \<open>Properties\<close>

text \<open>
  C15: after any commands on a fresh store, every key a lease lists is live and carries that
  lease, no lease lists a key twice, every lease is filed under its own id, and no two entries of
  the table have the same id. So no key
  is ever deleted by the expiry of a lease it no longer belongs to.
\<close>

theorem leased_keys_live: "lease_wf (run cs (new_store now))"
  by (rule run_lease_wf [OF new_store_lease_wf])

text \<open>
  Revoking an unknown lease fails with \<open>LeaseNotFound\<close> and changes nothing. Revoking a
  lease removes it from the table, deletes exactly the keys it lists, takes one revision for each
  of them, and leaves every other lease and key alone.
\<close>

lemma lease_revoke_spec:
  assumes "lease_wf s"
  shows "case map_of (leases s) i of
           None \<Rightarrow> lease_revoke i s = (Inl (LeaseNotFound i), s)
         | Some l \<Rightarrow>
             (let (r, s') = lease_revoke i s
              in r = Inr () \<and> map_of (leases s') = (map_of (leases s))(i := None) \<and>
                 (\<forall>k. map_of (current s') k =
                        (if k \<in> set (lease_keys l) then None else map_of (current s) k)) \<and>
                 revision s' = revision s + length (lease_keys l))"
proof (cases "map_of (leases s) i")
  case None
  then show ?thesis by (simp add: lease_revoke_def)
next
  case (Some l)
  then have "fst (lease_revoke i s) = Inr ()"
    "snd (lease_revoke i s) = fold revoke_key (lease_keys l) (s\<lparr>leases := AList.delete i (leases s)\<rparr>)"
    by (simp_all add: lease_revoke_def)
  moreover have "revision (snd (lease_revoke i s)) = revision s + length (lease_keys l)"
    using lease_wfD [OF assms Some] unfolding calculation(2)
    by (subst revoke_keys_revision) force+
  ultimately show ?thesis
    using Some lease_revoke_simps [where i = i and s = s] by (simp add: case_prod_beta)
qed

definition demo_leased :: kv_store where
  "demo_leased =
     run [CGrant 0 \<lparr>lg_ttl = 5, lg_id = Some 7\<rparr>,
          CPut ((demo_put ''a'' ''1'')\<lparr>pt_lease := Some 7\<rparr>), CPut (demo_put ''b'' ''2'')] (new_store 0)"

lemma demo_leased_wf: "lease_wf demo_leased"
  unfolding demo_leased_def by (rule run_lease_wf [OF new_store_lease_wf])

lemma demo_leased_leases:
  "map_of (leases demo_leased) 7 =
     Some \<lparr>lease_id = 7, lease_ttl = 5, lease_granted_at = 0, lease_keys = [''a'']\<rparr>"
  by code_simp

lemma lease_revoke_spec_witness:
  "let (r, s') = lease_revoke 7 demo_leased
   in r = Inr () \<and> map_of (current s') ''a'' = None \<and>
      map_of (current s') ''b'' = map_of (current demo_leased) ''b'' \<and>
      revision s' = revision demo_leased + 1"
  using lease_revoke_spec [OF demo_leased_wf, of 7]
  by (simp add: demo_leased_leases case_prod_beta Let_def)



text \<open>
  \<open>lease_grant_v2\<close> refuses a negative time to live and an explicit non-zero id that is in
  use, without any effect. Otherwise it grants a time to live between 0 and 9000 seconds, the
  requested one when it is in that interval, and the lease is in the table with no keys.
\<close>

lemma lease_grant_v2_bounds:
  "let (r, s') = lease_grant_v2 now req s
   in case r of
        Inl e \<Rightarrow> s' = s \<and>
          ((lg_ttl req < 0 \<and> e = InvalidLeaseTtl (lg_ttl req)) \<or>
           (\<exists>i. lg_id req = Some i \<and> i \<noteq> 0 \<and> map_of (leases s) i \<noteq> None \<and> e = LeaseAlreadyExists i))
      | Inr g \<Rightarrow> 0 \<le> lgr_ttl g \<and> lgr_ttl g \<le> 9000 \<and> lgr_ttl g = min (lg_ttl req) 9000 \<and>
          map_of (leases s') (lgr_id g) =
            Some \<lparr>lease_id = lgr_id g, lease_ttl = lgr_ttl g, lease_granted_at = now, lease_keys = []\<rparr> \<and>
          (\<forall>j. j \<noteq> lgr_id g \<longrightarrow> map_of (leases s') j = map_of (leases s) j)"
  by (auto simp: lease_grant_v2_def Let_def MAX_LEASE_TTL_SECS_def contains_key_def simp del: contains_key_iff split: option.splits)

lemma lease_grant_v2_bounds_witness:
  "(let (r, s') = lease_grant_v2 0 \<lparr>lg_ttl = 9500, lg_id = Some 3\<rparr> (new_store 0)
    in \<exists>g. r = Inr g \<and> lgr_ttl g = 9000) \<and>
   fst (lease_grant_v2 0 \<lparr>lg_ttl = 60, lg_id = Some 7\<rparr> demo_leased) = Inl (LeaseAlreadyExists 7)"
  using lease_grant_v2_bounds [of 0 "\<lparr>lg_ttl = 9500, lg_id = Some 3\<rparr>" "new_store 0"]
    lease_grant_v2_bounds [of 0 "\<lparr>lg_ttl = 60, lg_id = Some 7\<rparr>" demo_leased]
  by (auto simp: lease_grant_v2_def Let_def contains_key_def demo_leased_leases new_store_def
      MAX_LEASE_TTL_SECS_def simp del: contains_key_iff split: sum.splits)

end
