(* ===== verification/Etcd_Watch.thy ===== *)
theory Etcd_Watch
  imports Etcd_Leases
begin

section \<open>Watches\<close>

text \<open>
  Events reach a subscribed watch through \<open>dispatch_event\<close>, called by every operation that
  writes or deletes a key. The lemmas show that each operation acts on the watch tables only by
  dispatching events, and the property that an inbox holds exactly the matching events sent since
  the subscription, in order.
\<close>

subsection \<open>The watch tables and the operations\<close>

definition watch_part ::
  "kv_store \<Rightarrow> (i64 \<times> watch_config) list \<times> (i64 \<times> inbox) list \<times> watch_event list \<times> u64" where
  "watch_part s = (watch_configs s, watch_inboxes s, watch_tx s, watch_counter s)"

definition emits :: "watch_event list \<Rightarrow> kv_store \<Rightarrow> kv_store \<Rightarrow> bool" where
  "emits evs s s' \<longleftrightarrow> watch_part s' = watch_part (fold dispatch_event evs s)"

lemma dispatch_watch_part:
  "watch_part s = watch_part t \<Longrightarrow> watch_part (dispatch_event ev s) = watch_part (dispatch_event ev t)"
  by (simp add: watch_part_def dispatch_event_def deliver_def [abs_def])

lemma fold_dispatch_watch_part:
  "watch_part s = watch_part t \<Longrightarrow>
   watch_part (fold dispatch_event evs s) = watch_part (fold dispatch_event evs t)"
proof (induction evs arbitrary: s t)
  case (Cons ev evs)
  show ?case using Cons.IH [OF dispatch_watch_part [OF Cons.prems, of ev]] by simp
qed simp

lemma emits_refl: "watch_part s' = watch_part s \<Longrightarrow> emits [] s s'"
  by (simp add: emits_def)

lemma emits_trans: "emits evs s s' \<Longrightarrow> emits evs' s' s'' \<Longrightarrow> emits (evs @ evs') s s''"
  unfolding emits_def by (metis fold_append comp_apply fold_dispatch_watch_part)

lemma emits_dispatch: "watch_part s' = watch_part s \<Longrightarrow> emits [ev] s (dispatch_event ev s')"
  unfolding emits_def by (simp only: fold_simps) (rule dispatch_watch_part)

lemma emits_fold:
  assumes "\<And>x s. \<exists>evs. emits evs s (f x s)"
  shows "\<exists>evs. emits evs s (fold f xs s)"
proof (induction xs arbitrary: s)
  case Nil
  show ?case using emits_refl [of s s] by auto
next
  case (Cons x xs)
  obtain e e' where "emits e s (f x s)" "emits e' (f x s) (fold f xs (f x s))"
    using assms Cons by blast
  then show ?case by (auto dest: emits_trans)
qed

lemma watch_part_frame [simp]:
  "watch_part (index_push k rv s) = watch_part s"
  "watch_part (lease_detach k lid s) = watch_part s"
  "watch_part (lease_attach k lid s) = watch_part s"
  "watch_part (s\<lparr>current := c\<rparr>) = watch_part s"
  "watch_part (s\<lparr>history := h\<rparr>) = watch_part s"
  "watch_part (s\<lparr>revision := n\<rparr>) = watch_part s"
  "watch_part (s\<lparr>leases := ls\<rparr>) = watch_part s"
  "watch_part (s\<lparr>lease_counter := n\<rparr>) = watch_part s"
  by (simp_all add: watch_part_def index_push_def lease_detach_def lease_attach_def Let_def
      split: option.splits)

lemma put_emits:
  "emits [\<lparr>we_type = EvPut,
           we_kv = put_kv req (Suc (revision s)) (map_of (current s) (pt_key req)),
           we_prev_kv = map_of (current s) (pt_key req)\<rparr>] s (snd (put req s))"
  by (simp add: put_def next_revision_def Let_def case_prod_beta)
    (rule emits_dispatch, simp split: option.split)

lemma delete_one_emits:
  assumes "delete_one rv k s = Some (kv, s')"
  shows "emits [\<lparr>we_type = EvDelete, we_kv = make_delete_kv kv rv, we_prev_kv = Some kv\<rparr>] s s'"
  using assms
  by (auto simp: delete_one_def remove_key_from_lease_def Let_def split: option.splits
      intro!: emits_dispatch)

lemma delete_keys_emits: "\<exists>evs. emits evs s (snd (delete_keys rv ks s))"
proof (induction rv ks s rule: delete_keys.induct)
  case (1 rv s)
  show ?case using emits_refl [of s s] by auto
next
  case (2 rv k ks s)
  show ?case
  proof (cases "delete_one rv k s")
    case None
    with 2(1) show ?thesis by simp
  next
    case (Some p)
    then obtain kv s' where d: "delete_one rv k s = Some (kv, s')" by (cases p) auto
    then obtain evs where "emits evs s' (snd (delete_keys rv ks s'))" using 2(2) [OF d refl] by auto
    from emits_trans [OF delete_one_emits [OF d] this] d show ?thesis
      by (auto simp: case_prod_beta Let_def)
  qed
qed

lemma emits_start: "watch_part s = watch_part t \<Longrightarrow> emits evs s s' = emits evs t s'"
  unfolding emits_def by (drule fold_dispatch_watch_part [of s t evs]) simp

lemma delete_range_emits: "\<exists>evs. emits evs s (snd (delete_range req s))"
proof -
  have "\<exists>evs. emits evs s (snd (delete_keys rv ks (s\<lparr>revision := n\<rparr>)))" for rv ks n
    using delete_keys_emits [of "s\<lparr>revision := n\<rparr>"] emits_start [of "s\<lparr>revision := n\<rparr>" s] by simp
  then show ?thesis by (simp add: delete_range_def next_revision_def Let_def case_prod_beta)
qed

lemma revoke_key_emits: "\<exists>evs. emits evs s (revoke_key k s)"
proof (cases "map_of (current s) k")
  case None
  then show ?thesis using emits_refl [of s s] by (auto simp: revoke_key_def)
next
  case (Some kv)
  have "emits [\<lparr>we_type = EvDelete, we_kv = make_delete_kv kv (Suc (revision s)), we_prev_kv = Some kv\<rparr>]
      s (revoke_key k s)"
    by (simp add: revoke_key_def Some next_revision_def Let_def) (rule emits_dispatch, simp)
  then show ?thesis by blast
qed

lemma lease_revoke_emits: "\<exists>evs. emits evs s (snd (lease_revoke i s))"
proof (cases "map_of (leases s) i")
  case None
  then show ?thesis using emits_refl [of s s] by (auto simp: lease_revoke_def)
next
  case (Some l)
  let ?t = "s\<lparr>leases := AList.delete i (leases s)\<rparr>"
  obtain evs where "emits evs ?t (fold revoke_key (lease_keys l) ?t)"
    using emits_fold [of revoke_key] revoke_key_emits by blast
  then show ?thesis using emits_start [of ?t s] Some by (auto simp: lease_revoke_def)
qed

lemma txn_emits: "\<exists>evs. emits evs s (snd (txn_checked req s))"
proof -
  have "\<exists>evs. emits evs s (run_op op s)" for op s
    using put_emits delete_range_emits emits_refl [of s s]
    by (cases op) (auto simp: run_op_def)
  then have "\<exists>evs. emits evs s (fold run_op ops s)" for ops by (rule emits_fold)
  then show ?thesis using emits_refl [of s s] by (auto simp: txn_checked_def txn_def Let_def)
qed

lemma expire_emits: "\<exists>evs. emits evs s (expire_leases now s)"
  unfolding expire_leases_def Let_def by (rule emits_fold) (rule lease_revoke_emits)

fun watch_cmd :: "kv_cmd \<Rightarrow> bool" where
  "watch_cmd (CWatch _) = True"
| "watch_cmd (CSubscribe _) = True"
| "watch_cmd (CCancel _) = True"
| "watch_cmd _ = False"

lemma exec_watch_part:
  "watch_part (snd (lease_grant now r s)) = watch_part s"
  "watch_part (snd (lease_grant_v2 now r s)) = watch_part s"
  "watch_part (snd (lease_keepalive now i s)) = watch_part s"
  "watch_part (snd (compaction rv s)) = watch_part s"
  "watch_part (snd (compact_v2 rv s)) = watch_part s"
  "watch_part (snd (set_compaction_watermark rv s)) = watch_part s"
  "watch_part (snd (apply_compaction_watermark s)) = watch_part s"
  "watch_part (snd (defragment_with_status s)) = watch_part s"
  by (auto simp: watch_part_def lease_grant_def lease_grant_v2_def lease_keepalive_def compaction_def
      compact_to_def compact_v2_def set_compaction_watermark_def apply_compaction_watermark_def
      defragment_with_status_def Let_def split: option.split)

lemma exec_emits:
  assumes "\<not> watch_cmd c"
  shows "\<exists>evs. emits evs s (exec c s)"
proof (cases c)
  case (CPut r)
  then show ?thesis using put_emits [of r s] by auto
qed (use assms in \<open>auto simp: delete_range_emits txn_emits lease_revoke_emits expire_emits
      intro: exec_watch_part [THEN emits_refl]\<close>)

lemma emits_keeps:
  assumes "emits evs s s'" and "P s"
    and "\<And>s t. watch_part s = watch_part t \<Longrightarrow> P s \<Longrightarrow> P t"
    and "\<And>ev s. P s \<Longrightarrow> P (dispatch_event ev s)"
  shows "P s'"
proof -
  have "P s \<Longrightarrow> P (fold dispatch_event evs s)" for s
    by (induction evs arbitrary: s) (simp_all add: assms(4))
  then show ?thesis using assms(1-3) unfolding emits_def by metis
qed

subsection \<open>What a subscribed watch receives\<close>

definition received :: "watch_config \<Rightarrow> watch_event list \<Rightarrow> watch_event list" where
  "received cfg evs =
     map (\<lambda>e. if wcfg_prev_kv cfg then e else e\<lparr>we_prev_kv := None\<rparr>)
       (filter (\<lambda>e. key_matches_watch (kv_key (we_kv e)) cfg) evs)"

definition subscribed :: "i64 \<Rightarrow> watch_config \<Rightarrow> nat \<Rightarrow> kv_store \<Rightarrow> bool" where
  "subscribed wid cfg n s \<longleftrightarrow>
     map_of (watch_configs s) wid = Some cfg \<and> wid \<le> int (watch_counter s) \<and>
     n \<le> length (watch_tx s) \<and>
     (\<exists>ib. map_of (watch_inboxes s) wid = Some ib \<and> inbox_open ib \<and>
           inbox_events ib = received cfg (drop n (watch_tx s)))"

lemma map_of_map_filter_deliver:
  "map_of m wid = Some ib \<Longrightarrow> f wid ib = Some ib' \<Longrightarrow>
   map_of (List.map_filter (\<lambda>(w, ib). map_option (Pair w) (f w ib)) m) wid = Some ib'"
  by (induction m) (auto simp: List.map_filter_simps split: option.splits if_splits)

lemma subscribed_dispatch:
  assumes "subscribed wid cfg n s"
  shows "subscribed wid cfg n (dispatch_event ev s)"
proof -
  from assms obtain ib where ib: "map_of (watch_configs s) wid = Some cfg"
    "map_of (watch_inboxes s) wid = Some ib" "inbox_open ib"
    "inbox_events ib = received cfg (drop n (watch_tx s))" and n: "n \<le> length (watch_tx s)"
    by (auto simp: subscribed_def)
  then have "\<exists>ib'. deliver s ev wid ib = Some ib' \<and> inbox_open ib' \<and>
      inbox_events ib' = received cfg (drop n (watch_tx s @ [ev]))"
    by (auto simp: deliver_def received_def Let_def)
  then obtain ib' where d: "deliver s ev wid ib = Some ib'" "inbox_open ib'"
    "inbox_events ib' = received cfg (drop n (watch_tx s @ [ev]))" by blast
  from map_of_map_filter_deliver [of "watch_inboxes s" wid ib "deliver s ev", OF ib(2) d(1)]
  show ?thesis using assms d n by (auto simp: subscribed_def dispatch_event_def)
qed

lemma subscribed_cong: "watch_part s = watch_part t \<Longrightarrow> subscribed wid cfg n s = subscribed wid cfg n t"
  by (simp add: subscribed_def watch_part_def)

definition watch_ids_ok :: "kv_store \<Rightarrow> bool" where
  "watch_ids_ok s \<longleftrightarrow> (\<forall>w cfg. map_of (watch_configs s) w = Some cfg \<longrightarrow> w \<le> int (watch_counter s))"

lemma watch_ids_ok_exec: "watch_ids_ok s \<Longrightarrow> watch_ids_ok (exec c s)"
proof (cases "watch_cmd c")
  case False
  assume ok: "watch_ids_ok s"
  obtain evs where "emits evs s (exec c s)" using exec_emits [OF False] by blast
  then show ?thesis
    by (rule emits_keeps [where P = watch_ids_ok, OF _ ok])
      (simp_all add: watch_ids_ok_def watch_part_def dispatch_event_def)
next
  case True
  moreover assume "watch_ids_ok s"
  ultimately show ?thesis
    by (cases c) (fastforce simp: watch_ids_ok_def watch_create_def watch_subscribe_def watch_cancel_def
        Let_def delete_conv split: if_splits)+
qed

lemma watch_ids_ok_run: "watch_ids_ok (run cs (new_store now))"
proof -
  have "watch_ids_ok s \<Longrightarrow> watch_ids_ok (fold exec cs s)" for s
    by (induction cs arbitrary: s) (simp_all add: watch_ids_ok_exec)
  moreover have "watch_ids_ok (new_store now)" by (simp add: watch_ids_ok_def new_store_def)
  ultimately show ?thesis by (simp add: run_def)
qed

lemma subscribed_exec:
  assumes "subscribed wid cfg n s" and "c \<noteq> CSubscribe wid" and "c \<noteq> CCancel wid"
  shows "subscribed wid cfg n (exec c s)"
proof (cases "watch_cmd c")
  case False
  obtain evs where "emits evs s (exec c s)" using exec_emits [OF False] by blast
  then show ?thesis using assms(1)
    by (rule emits_keeps [where P = "subscribed wid cfg n"])
      (erule iffD1 [OF subscribed_cong], assumption, rule subscribed_dispatch)
next
  case True
  with assms show ?thesis
    by (cases c) (auto simp: subscribed_def watch_create_def watch_subscribe_def watch_cancel_def
        Let_def delete_conv)
qed

lemma subscribed_run:
  assumes "subscribed wid cfg n s" and "CSubscribe wid \<notin> set cs" and "CCancel wid \<notin> set cs"
  shows "subscribed wid cfg n (run cs s)"
  using assms unfolding run_def
  by (induction cs arbitrary: s) (auto simp: subscribed_exec)

text \<open>
  C18: a watch misses nothing, repeats nothing and keeps the order. Take a store after any
  commands and subscribe to one of its watches. After any further commands, as long as that
  watch is not cancelled or subscribed again, its inbox holds exactly the events sent since the
  subscription whose key the watch covers, in the order they were sent, each with the previous
  pair only if the watch asked for it.
\<close>

theorem watch_delivery:
  assumes "watch_subscribe wid (run before (new_store now)) = (Inr (), s)"
    and "CSubscribe wid \<notin> set after" and "CCancel wid \<notin> set after"
  shows "\<exists>cfg ib. map_of (watch_configs s) wid = Some cfg \<and>
           map_of (watch_inboxes (run after s)) wid = Some ib \<and>
           inbox_events ib =
             map (\<lambda>e. if wcfg_prev_kv cfg then e else e\<lparr>we_prev_kv := None\<rparr>)
               (filter (\<lambda>e. key_matches_watch (kv_key (we_kv e)) cfg)
                  (drop (length (watch_tx s)) (watch_tx (run after s))))"
proof -
  obtain cfg where "map_of (watch_configs (run before (new_store now))) wid = Some cfg"
    using assms(1) by (auto simp: watch_subscribe_def contains_key_def simp del: contains_key_iff
        split: if_splits)
  then have "subscribed wid cfg (length (watch_tx s)) s" "map_of (watch_configs s) wid = Some cfg"
    using assms(1) watch_ids_ok_run [of before now]
    by (auto simp: watch_subscribe_def subscribed_def received_def watch_ids_ok_def split: if_splits)
  moreover obtain ib where "map_of (watch_inboxes (run after s)) wid = Some ib"
    "inbox_events ib = received cfg (drop (length (watch_tx s)) (watch_tx (run after s)))"
    using subscribed_run [OF calculation(1) assms(2,3)] by (auto simp: subscribed_def)
  ultimately show ?thesis by (auto simp: received_def)
qed

definition demo_watch :: watch_create_request where
  "demo_watch = \<lparr>wc_key = ''a'', wc_range_end = Some ''c'', wc_start_revision = None,
                 wc_progress_notify = False, wc_prev_kv = False\<rparr>"

definition demo_watching :: kv_store where
  "demo_watching = snd (watch_subscribe 1 (run [CWatch demo_watch] (new_store 0)))"

theorem watch_delivery_witness:
  "\<exists>ib. map_of (watch_inboxes (run [CPut (demo_put ''b'' ''1''), CPut (demo_put ''x'' ''2'')]
          demo_watching)) 1 = Some ib \<and> map (\<lambda>e. kv_key (we_kv e)) (inbox_events ib) = [''b'']"
proof -
  let ?cs = "[CPut (demo_put ''b'' ''1''), CPut (demo_put ''x'' ''2'')]"
  let ?cfg = "\<lparr>wcfg_id = 1, wcfg_key = ''a'', wcfg_range_end = Some ''c'',
               wcfg_start_revision = None, wcfg_prev_kv = False\<rparr>"
  have "fst (watch_subscribe 1 (run [CWatch demo_watch] (new_store 0))) = Inr ()" by code_simp
  then have "watch_subscribe 1 (run [CWatch demo_watch] (new_store 0)) = (Inr (), demo_watching)"
    unfolding demo_watching_def by (metis prod.collapse)
  from watch_delivery [OF this, of ?cs]
  obtain cfg ib where ib: "map_of (watch_configs demo_watching) 1 = Some cfg"
    "map_of (watch_inboxes (run ?cs demo_watching)) 1 = Some ib"
    "inbox_events ib = map (\<lambda>e. if wcfg_prev_kv cfg then e else e\<lparr>we_prev_kv := None\<rparr>)
       (filter (\<lambda>e. key_matches_watch (kv_key (we_kv e)) cfg)
          (drop (length (watch_tx demo_watching)) (watch_tx (run ?cs demo_watching))))"
    by auto
  have "map_of (watch_configs demo_watching) 1 = Some ?cfg" by code_simp
  then have cfg: "cfg = ?cfg" using ib(1) by simp
  have "map (\<lambda>e. kv_key (we_kv e))
      (map (\<lambda>e. if wcfg_prev_kv ?cfg then e else e\<lparr>we_prev_kv := None\<rparr>)
       (filter (\<lambda>e. key_matches_watch (kv_key (we_kv e)) ?cfg)
          (drop (length (watch_tx demo_watching)) (watch_tx (run ?cs demo_watching))))) = [''b'']"
    by code_simp
  then have "map (\<lambda>e. kv_key (we_kv e)) (inbox_events ib) = [''b'']"
    by (simp only: ib(3) cfg)
  with ib(2) show ?thesis by (intro exI [of _ ib] conjI)
qed

end
