(* ===== verification/Etcd_Auth.thy ===== *)
theory Etcd_Auth
  imports Etcd_Store
begin

section \<open>Users, roles and tokens\<close>

text \<open>
  The authentication and authorization operations of \<open>cave-etcd/src/store.rs\<close>. The \<open>bcrypt\<close>
  crate is a parameter: hashing takes the salt the crate draws as an argument, and both
  operations may fail with a message. The token \<open>authenticate\<close> draws with \<open>uuid\<close> is an argument
  too. The properties: who passes the permission check, that every access goes back to a
  password check, and that a login succeeds exactly with the password set last.
\<close>

record bcrypt =
  bc_hash :: "nat \<Rightarrow> string \<Rightarrow> string + string"
  bc_verify :: "string \<Rightarrow> string \<Rightarrow> string + bool"

subsection \<open>Operations\<close>

definition auth_enable :: "kv_store \<Rightarrow> response_header etcd_result \<times> kv_store" where
  "auth_enable self =
     (let was = auth_enabled self; self = self\<lparr>auth_enabled := True\<rparr>
      in if was then (Inl AuthAlreadyEnabled, self) else (Inr (header self), self))"

definition auth_disable :: "kv_store \<Rightarrow> response_header etcd_result \<times> kv_store" where
  "auth_disable self =
     (let was = auth_enabled self; self = self\<lparr>auth_enabled := False\<rparr>
      in if \<not> was then (Inl AuthNotEnabled, self) else (Inr (header self), self))"

definition check_password :: "bcrypt \<Rightarrow> kv_store \<Rightarrow> string \<Rightarrow> string \<Rightarrow> unit etcd_result" where
  "check_password bc self name password =
     (case map_of (users self) name of
        None \<Rightarrow> Inl (UserNotFound name)
      | Some user \<Rightarrow>
          (case bc_verify bc password (user_password user) of
             Inl e \<Rightarrow> Inl (Internal e)
           | Inr valid \<Rightarrow> if \<not> valid then Inl InvalidPassword else Inr ()))"

definition authenticate ::
  "bcrypt \<Rightarrow> string \<Rightarrow> string \<Rightarrow> string \<Rightarrow> kv_store \<Rightarrow> authenticate_response etcd_result \<times> kv_store" where
  "authenticate bc name password token self =
     (case (if auth_enabled self then check_password bc self name password else Inr ()) of
        Inl e \<Rightarrow> (Inl e, self)
      | Inr _ \<Rightarrow>
          (let self = self\<lparr>auth_tokens := AList.update token name (auth_tokens self)\<rparr>
           in (Inr \<lparr>au_header = header self, au_token = token\<rparr>, self)))"

definition user_add ::
  "bcrypt \<Rightarrow> nat \<Rightarrow> string \<Rightarrow> string \<Rightarrow> kv_store \<Rightarrow> response_header etcd_result \<times> kv_store" where
  "user_add bc salt name password self =
     (if contains_key (users self) name then (Inl (UserAlreadyExists name), self)
      else case bc_hash bc salt password of
             Inl e \<Rightarrow> (Inl (Internal e), self)
           | Inr hashed \<Rightarrow>
               (let self = self\<lparr>users := AList.update name
                      \<lparr>user_name = name, user_password = hashed, user_roles = []\<rparr> (users self)\<rparr>
                in (Inr (header self), self)))"

definition user_delete :: "string \<Rightarrow> kv_store \<Rightarrow> response_header etcd_result \<times> kv_store" where
  "user_delete name self =
     (case map_of (users self) name of
        None \<Rightarrow> (Inl (UserNotFound name), self)
      | Some _ \<Rightarrow> (Inr (header self), self\<lparr>users := AList.delete name (users self)\<rparr>))"

definition user_get :: "kv_store \<Rightarrow> string \<Rightarrow> (response_header \<times> string list) etcd_result" where
  "user_get self name =
     (case map_of (users self) name of
        None \<Rightarrow> Inl (UserNotFound name)
      | Some user \<Rightarrow> Inr (header self, user_roles user))"

definition user_list :: "kv_store \<Rightarrow> response_header \<times> string list" where
  "user_list self = (header self, sort (map fst (users self)))"

definition user_change_password ::
  "bcrypt \<Rightarrow> nat \<Rightarrow> string \<Rightarrow> string \<Rightarrow> kv_store \<Rightarrow> response_header etcd_result \<times> kv_store" where
  "user_change_password bc salt name password self =
     (case map_of (users self) name of
        None \<Rightarrow> (Inl (UserNotFound name), self)
      | Some user \<Rightarrow>
          (case bc_hash bc salt password of
             Inl e \<Rightarrow> (Inl (Internal e), self)
           | Inr hashed \<Rightarrow>
               (Inr (header self),
                self\<lparr>users := AList.update name (user\<lparr>user_password := hashed\<rparr>) (users self)\<rparr>)))"

definition user_grant_role ::
  "string \<Rightarrow> string \<Rightarrow> kv_store \<Rightarrow> response_header etcd_result \<times> kv_store" where
  "user_grant_role name role self =
     (if \<not> contains_key (roles self) role then (Inl (RoleNotFound role), self)
      else case map_of (users self) name of
             None \<Rightarrow> (Inl (UserNotFound name), self)
           | Some user \<Rightarrow>
               (let user = (if role \<in> set (user_roles user) then user
                            else user\<lparr>user_roles := user_roles user @ [role]\<rparr>)
                in (Inr (header self), self\<lparr>users := AList.update name user (users self)\<rparr>)))"

definition user_revoke_role ::
  "string \<Rightarrow> string \<Rightarrow> kv_store \<Rightarrow> response_header etcd_result \<times> kv_store" where
  "user_revoke_role name role self =
     (case map_of (users self) name of
        None \<Rightarrow> (Inl (UserNotFound name), self)
      | Some user \<Rightarrow>
          if role \<notin> set (user_roles user) then (Inl RoleNotGranted, self)
          else (Inr (header self),
                self\<lparr>users := AList.update name
                       (user\<lparr>user_roles := filter (\<lambda>r. r \<noteq> role) (user_roles user)\<rparr>) (users self)\<rparr>))"

definition role_add :: "string \<Rightarrow> kv_store \<Rightarrow> response_header etcd_result \<times> kv_store" where
  "role_add name self =
     (if contains_key (roles self) name then (Inl (RoleAlreadyExists name), self)
      else (Inr (header self),
            self\<lparr>roles := AList.update name \<lparr>role_name = name, key_permission = []\<rparr> (roles self)\<rparr>))"

definition role_delete :: "string \<Rightarrow> kv_store \<Rightarrow> response_header etcd_result \<times> kv_store" where
  "role_delete name self =
     (case map_of (roles self) name of
        None \<Rightarrow> (Inl (RoleNotFound name), self)
      | Some _ \<Rightarrow> (Inr (header self), self\<lparr>roles := AList.delete name (roles self)\<rparr>))"

definition role_get ::
  "kv_store \<Rightarrow> string \<Rightarrow> (response_header \<times> string \<times> permission list) etcd_result" where
  "role_get self name =
     (case map_of (roles self) name of
        None \<Rightarrow> Inl (RoleNotFound name)
      | Some role \<Rightarrow> Inr (header self, role_name role, key_permission role))"

definition role_list :: "kv_store \<Rightarrow> response_header \<times> string list" where
  "role_list self = (header self, sort (map fst (roles self)))"

definition role_grant_permission ::
  "string \<Rightarrow> permission \<Rightarrow> kv_store \<Rightarrow> response_header etcd_result \<times> kv_store" where
  "role_grant_permission name perm self =
     (case map_of (roles self) name of
        None \<Rightarrow> (Inl (RoleNotFound name), self)
      | Some role \<Rightarrow>
          (let kept = filter (\<lambda>p. \<not> (perm_key p = perm_key perm \<and> perm_range_end p = perm_range_end perm))
                        (key_permission role)
           in (Inr (header self),
               self\<lparr>roles := AList.update name (role\<lparr>key_permission := kept @ [perm]\<rparr>) (roles self)\<rparr>)))"

definition role_revoke_permission ::
  "string \<Rightarrow> string \<Rightarrow> string option \<Rightarrow> kv_store \<Rightarrow> response_header etcd_result \<times> kv_store" where
  "role_revoke_permission name key range_end self =
     (case map_of (roles self) name of
        None \<Rightarrow> (Inl (RoleNotFound name), self)
      | Some role \<Rightarrow>
          (let before = length (key_permission role);
               kept = filter (\<lambda>p. \<not> (perm_key p = key \<and> perm_range_end p = range_end))
                        (key_permission role);
               self = self\<lparr>roles := AList.update name (role\<lparr>key_permission := kept\<rparr>) (roles self)\<rparr>
           in if length kept = before then (Inl PermissionAlreadyGranted, self)
              else (Inr (header self), self)))"

text \<open>The loops of \<open>check_auth_token\<close>, over the permissions of a role and the roles of a user.\<close>

fun check_perms :: "bytes \<Rightarrow> perm_type \<Rightarrow> permission list \<Rightarrow> bool" where
  "check_perms key perm [] = False"
| "check_perms key perm (p # ps) =
     (let covers = (perm_kind p = perm \<or> perm_kind p = PermReadwrite)
      in if \<not> covers then check_perms key perm ps
         else let key_match = (case perm_range_end p of
                                 Some range_end \<Rightarrow> perm_key p \<le> key \<and> key < range_end
                               | None \<Rightarrow> key = perm_key p)
              in if key_match then True else check_perms key perm ps)"

fun check_roles :: "kv_store \<Rightarrow> bytes \<Rightarrow> perm_type \<Rightarrow> string list \<Rightarrow> unit etcd_result" where
  "check_roles self key perm [] = Inl PermissionDenied"
| "check_roles self key perm (r # rs) =
     (case map_of (roles self) r of
        Some role \<Rightarrow>
          if check_perms key perm (key_permission role) then Inr ()
          else check_roles self key perm rs
      | None \<Rightarrow> check_roles self key perm rs)"

definition check_auth_token ::
  "kv_store \<Rightarrow> string option \<Rightarrow> bytes \<Rightarrow> perm_type \<Rightarrow> unit etcd_result" where
  "check_auth_token self token key perm =
     (if \<not> auth_enabled self then Inr ()
      else case token of
             None \<Rightarrow> Inl InvalidToken
           | Some token \<Rightarrow>
               (case map_of (auth_tokens self) token of
                  None \<Rightarrow> Inl InvalidToken
                | Some username \<Rightarrow>
                    if username = ''root'' then Inr ()
                    else case map_of (users self) username of
                           None \<Rightarrow> Inl (UserNotFound username)
                         | Some user \<Rightarrow> check_roles self key perm (user_roles user)))"

subsection \<open>Sequences of calls\<close>

datatype auth_cmd =
    AEnable
  | ADisable
  | AAuthenticate string string string
  | AUserAdd nat string string
  | AUserDelete string
  | AChangePassword nat string string
  | AGrantRole string string
  | ARevokeRole string string
  | ARoleAdd string
  | ARoleDelete string
  | AGrantPermission string permission
  | ARevokePermission string string "string option"

fun auth_exec :: "bcrypt \<Rightarrow> auth_cmd \<Rightarrow> kv_store \<Rightarrow> kv_store" where
  "auth_exec bc AEnable s = snd (auth_enable s)"
| "auth_exec bc ADisable s = snd (auth_disable s)"
| "auth_exec bc (AAuthenticate u pw t) s = snd (authenticate bc u pw t s)"
| "auth_exec bc (AUserAdd salt u pw) s = snd (user_add bc salt u pw s)"
| "auth_exec bc (AUserDelete u) s = snd (user_delete u s)"
| "auth_exec bc (AChangePassword salt u pw) s = snd (user_change_password bc salt u pw s)"
| "auth_exec bc (AGrantRole u r) s = snd (user_grant_role u r s)"
| "auth_exec bc (ARevokeRole u r) s = snd (user_revoke_role u r s)"
| "auth_exec bc (ARoleAdd r) s = snd (role_add r s)"
| "auth_exec bc (ARoleDelete r) s = snd (role_delete r s)"
| "auth_exec bc (AGrantPermission r p) s = snd (role_grant_permission r p s)"
| "auth_exec bc (ARevokePermission r k e) s = snd (role_revoke_permission r k e s)"

definition auth_run :: "bcrypt \<Rightarrow> auth_cmd list \<Rightarrow> kv_store \<Rightarrow> kv_store" where
  "auth_run bc cs s = fold (auth_exec bc) cs s"

lemma auth_run_snoc: "auth_run bc (cs @ [c]) s = auth_exec bc c (auth_run bc cs s)"
  by (simp add: auth_run_def)

lemmas auth_defs = auth_enable_def auth_disable_def authenticate_def user_add_def user_delete_def
  user_change_password_def user_grant_role_def user_revoke_role_def role_add_def role_delete_def
  role_grant_permission_def role_revoke_permission_def

lemma auth_enabled_exec:
  "auth_enabled (auth_exec bc c s) =
     (case c of AEnable \<Rightarrow> True | ADisable \<Rightarrow> False | _ \<Rightarrow> auth_enabled s)"
  by (cases c) (simp_all add: auth_defs Let_def split: option.split sum.split)

lemma auth_enabled_run: "auth_enabled s \<Longrightarrow> ADisable \<notin> set cs \<Longrightarrow> auth_enabled (auth_run bc cs s)"
  by (induction cs rule: rev_induct)
    (auto simp: auth_run_def auth_enabled_exec split: auth_cmd.split)

lemma auth_tokens_exec:
  "map_of (auth_tokens (auth_exec bc c s)) t = Some u \<Longrightarrow>
     map_of (auth_tokens s) t = Some u \<or>
     (\<exists>pw. c = AAuthenticate u pw t \<and> (auth_enabled s \<longrightarrow> check_password bc s u pw = Inr ()))"
  by (cases c) (auto simp: auth_defs Let_def split: option.splits sum.splits if_splits)

lemma check_password_iff:
  "check_password bc s u pw = Inr () \<longleftrightarrow>
     (\<exists>user. map_of (users s) u = Some user \<and> bc_verify bc pw (user_password user) = Inr True)"
  by (auto simp: check_password_def split: option.splits sum.splits)

lemma token_origin:
  assumes "map_of (auth_tokens (auth_run bc cs s)) t = Some u" and "auth_tokens s = []"
  shows "\<exists>pre post pw. cs = pre @ AAuthenticate u pw t # post \<and>
           (auth_enabled (auth_run bc pre s) \<longrightarrow> check_password bc (auth_run bc pre s) u pw = Inr ())"
  using assms
proof (induction cs rule: rev_induct)
  case Nil
  then show ?case by (simp add: auth_run_def)
next
  case (snoc c cs)
  from auth_tokens_exec [of bc c "auth_run bc cs s" t u] snoc.prems(1)
  consider "map_of (auth_tokens (auth_run bc cs s)) t = Some u"
    | pw where "c = AAuthenticate u pw t"
        "auth_enabled (auth_run bc cs s) \<longrightarrow> check_password bc (auth_run bc cs s) u pw = Inr ()"
    by (auto simp: auth_run_snoc)
  then show ?case
  proof cases
    case 1
    then show ?thesis using snoc.IH [OF _ snoc.prems(2)] by (metis append.assoc append_Cons)
  next
    case (2 pw)
    then show ?thesis by blast
  qed
qed

subsection \<open>The permission check\<close>

definition covers :: "permission \<Rightarrow> bytes \<Rightarrow> perm_type \<Rightarrow> bool" where
  "covers p key perm \<longleftrightarrow>
     perm_kind p \<in> {perm, PermReadwrite} \<and>
     (case perm_range_end p of Some hi \<Rightarrow> perm_key p \<le> key \<and> key < hi | None \<Rightarrow> key = perm_key p)"

lemma check_perms_iff: "check_perms key perm ps \<longleftrightarrow> (\<exists>p \<in> set ps. covers p key perm)"
  by (induction ps) (auto simp: covers_def Let_def split: option.splits)

lemma check_roles_iff:
  "check_roles s key perm rs = Inr () \<longleftrightarrow>
     (\<exists>r \<in> set rs. \<exists>role. map_of (roles s) r = Some role \<and>
        (\<exists>p \<in> set (key_permission role). covers p key perm))"
  "check_roles s key perm rs \<in> {Inr (), Inl PermissionDenied}"
  by (induction rs) (auto simp: check_perms_iff split: option.splits)

definition permitted :: "kv_store \<Rightarrow> string \<Rightarrow> bytes \<Rightarrow> perm_type \<Rightarrow> bool" where
  "permitted s u key perm \<longleftrightarrow>
     u = ''root'' \<or>
     (\<exists>user r role p. map_of (users s) u = Some user \<and> r \<in> set (user_roles user) \<and>
        map_of (roles s) r = Some role \<and> p \<in> set (key_permission role) \<and> covers p key perm)"

lemma check_auth_token_iff:
  assumes "auth_enabled s"
  shows "check_auth_token s token key perm = Inr () \<longleftrightarrow>
           (\<exists>t u. token = Some t \<and> map_of (auth_tokens s) t = Some u \<and> permitted s u key perm)"
  using assms
  by (auto simp: check_auth_token_def permitted_def check_roles_iff(1) split: option.splits if_splits)

text \<open>
  C17: access with authentication on comes from a login. Start from a store that has issued no
  token and make any calls of the authentication interface, switching it on and off included. If
  authentication is on at the end and a token passes the permission check for a key, the token
  was issued by an earlier login of some user who is root or has, now, a role with a permission
  of the right kind that covers the key; and if authentication was on at that login, \<open>bcrypt\<close>
  accepted the password against the hash stored at that moment. A login made while it was off
  looks at no password, and its token is as good.
\<close>

theorem access_needs_password:
  assumes "auth_tokens s = []" and "auth_enabled (auth_run bc cs s)"
    and "check_auth_token (auth_run bc cs s) token key perm = Inr ()"
  shows "\<exists>t u pre post pw.
           token = Some t \<and> cs = pre @ AAuthenticate u pw t # post \<and>
           permitted (auth_run bc cs s) u key perm \<and>
           (auth_enabled (auth_run bc pre s) \<longrightarrow>
              (\<exists>user. map_of (users (auth_run bc pre s)) u = Some user \<and>
                      bc_verify bc pw (user_password user) = Inr True))"
proof -
  obtain t u where t: "token = Some t" "permitted (auth_run bc cs s) u key perm"
    "map_of (auth_tokens (auth_run bc cs s)) t = Some u"
    using assms(2,3) by (auto simp: check_auth_token_iff)
  obtain pre post pw where cs: "cs = pre @ AAuthenticate u pw t # post"
    and "auth_enabled (auth_run bc pre s) \<longrightarrow> check_password bc (auth_run bc pre s) u pw = Inr ()"
    using token_origin [OF t(3) assms(1)] by blast
  then have "auth_enabled (auth_run bc pre s) \<longrightarrow>
      (\<exists>user. map_of (users (auth_run bc pre s)) u = Some user \<and>
              bc_verify bc pw (user_password user) = Inr True)"
    by (auto simp: check_password_iff)
  with t(1,2) cs show ?thesis by blast
qed

text \<open>A stand-in for \<open>bcrypt\<close> that keeps the salt and the password in the hash.\<close>

definition demo_bcrypt :: bcrypt where
  "demo_bcrypt = \<lparr>bc_hash = (\<lambda>salt pw. Inr (replicate salt (CHR ''$'') @ CHR '':'' # pw)),
                  bc_verify = (\<lambda>pw h. Inr (tl (dropWhile (\<lambda>c. c \<noteq> CHR '':'') h) = pw))\<rparr>"

definition demo_secured :: kv_store where
  "demo_secured =
     auth_run demo_bcrypt
       [AUserAdd 2 ''ann'' ''pw'', ARoleAdd ''r'', AGrantRole ''ann'' ''r'',
        AGrantPermission ''r'' \<lparr>perm_kind = PermRead, perm_key = ''a'', perm_range_end = Some ''c''\<rparr>,
        AEnable] (new_store 0)"

theorem access_needs_password_witness:
  "check_auth_token (auth_run demo_bcrypt [AAuthenticate ''ann'' ''pw'' ''t1''] demo_secured)
     (Some ''t1'') ''b'' PermRead = Inr () \<and>
   permitted (auth_run demo_bcrypt [AAuthenticate ''ann'' ''pw'' ''t1''] demo_secured)
     ''ann'' ''b'' PermRead"
proof -
  let ?cs = "[AAuthenticate ''ann'' ''pw'' ''t1'']"
  have "auth_tokens demo_secured = []" "auth_enabled (auth_run demo_bcrypt ?cs demo_secured)"
    and ok: "check_auth_token (auth_run demo_bcrypt ?cs demo_secured) (Some ''t1'') ''b'' PermRead = Inr ()"
    by code_simp+
  from access_needs_password [OF this] obtain u pre post pw
    where "?cs = pre @ AAuthenticate u pw ''t1'' # post"
      "permitted (auth_run demo_bcrypt ?cs demo_secured) u ''b'' PermRead"
    by (metis option.inject)
  then have "permitted (auth_run demo_bcrypt ?cs demo_secured) ''ann'' ''b'' PermRead"
    by (cases pre) auto
  with ok show ?thesis by simp
qed

text \<open>
  The answer of the permission check in every case. Authentication off: everything passes.
  On: a missing or unknown token gives \<open>InvalidToken\<close>; a token of a user that no longer exists
  gives \<open>UserNotFound\<close>, unless the user is root; any other token passes exactly when a role of
  its user has a permission that covers the key, and gives \<open>PermissionDenied\<close> otherwise.
\<close>

lemma check_auth_token_spec:
  "check_auth_token s token key perm =
     (if \<not> auth_enabled s then Inr ()
      else case Option.bind token (map_of (auth_tokens s)) of
             None \<Rightarrow> Inl InvalidToken
           | Some u \<Rightarrow>
               if permitted s u key perm then Inr ()
               else if map_of (users s) u = None then Inl (UserNotFound u)
               else Inl PermissionDenied)"
proof -
  have "check_roles s key perm rs =
      (if \<exists>r \<in> set rs. \<exists>role. map_of (roles s) r = Some role \<and>
          (\<exists>p \<in> set (key_permission role). covers p key perm) then Inr () else Inl PermissionDenied)"
    for rs using check_roles_iff [of s key perm rs] by auto
  then show ?thesis
    by (auto simp: check_auth_token_def permitted_def split: option.splits)
qed

text \<open>
  A login succeeds exactly with the password set last. The hypothesis is what \<open>bcrypt\<close>
  documents for passwords of at most 72 bytes: a hash verifies the password it was made from
  and no other. After a successful change of a user's password, with authentication on, a login
  of that user with a password of at most 72 bytes gets a token bound to the user if the
  password is the new one, and otherwise fails with \<open>InvalidPassword\<close> and changes nothing.
\<close>

lemma login_after_change_password:
  assumes "\<And>salt pw h pw'. bc_hash bc salt pw = Inr h \<Longrightarrow> length pw \<le> 72 \<Longrightarrow> length pw' \<le> 72 \<Longrightarrow>
             bc_verify bc pw' h = Inr (pw' = pw)"
    and "user_change_password bc salt name pw s = (Inr hdr, s')"
    and "auth_enabled s" and "length pw \<le> 72" and "length pw' \<le> 72"
  shows "if pw' = pw
         then \<exists>r s''. authenticate bc name pw' t s' = (Inr r, s'') \<and> au_token r = t \<and>
                map_of (auth_tokens s'') = (map_of (auth_tokens s'))(t \<mapsto> name)
         else authenticate bc name pw' t s' = (Inl InvalidPassword, s')"
proof -
  obtain user h where "bc_hash bc salt pw = Inr h" "map_of (users s) name = Some user"
    and s': "s' = s\<lparr>users := AList.update name (user\<lparr>user_password := h\<rparr>) (users s)\<rparr>"
    using assms(2) by (auto simp: user_change_password_def split: option.splits sum.splits)
  then have "check_password bc s' name pw' = (if pw' = pw then Inr () else Inl InvalidPassword)"
    using assms(1) [of salt pw h pw'] assms(4,5) by (simp add: check_password_def)
  moreover have "auth_enabled s'" using assms(3) s' by simp
  ultimately show ?thesis by (cases "pw' = pw") (auto simp: authenticate_def Let_def)
qed

lemma demo_bcrypt_law:
  "bc_hash demo_bcrypt salt pw = Inr h \<Longrightarrow> bc_verify demo_bcrypt pw' h = Inr (pw' = pw)"
  by (auto simp: demo_bcrypt_def dropWhile_append)

lemma login_after_change_password_witness:
  "authenticate demo_bcrypt ''ann'' ''pw'' ''t'' (snd (user_change_password demo_bcrypt 1 ''ann'' ''new'' demo_secured))
     = (Inl InvalidPassword, snd (user_change_password demo_bcrypt 1 ''ann'' ''new'' demo_secured))"
proof -
  let ?r = "user_change_password demo_bcrypt 1 ''ann'' ''new'' demo_secured"
  have "isl (fst ?r) = False" "auth_enabled demo_secured" by code_simp+
  then obtain hdr where hd: "?r = (Inr hdr, snd ?r)" "auth_enabled demo_secured"
    by (cases ?r; cases "fst ?r") auto
  show ?thesis
    using login_after_change_password [OF _ hd(1) hd(2), of "''pw''" "''t''"] demo_bcrypt_law by simp
qed

end
