(* ===== verification/Sha256.thy ===== *)
theory Sha256
  imports Etcd_Types
begin

unbundle bit_operations_syntax

section \<open>SHA-256\<close>

text \<open>
  The hash the snapshots of \<open>cave-etcd/src/store.rs\<close> are checked with. The source keeps a state,
  a buffer of less than one block and the number of bytes seen; \<open>update\<close> compresses full blocks,
  \<open>finalize\<close> pads. Words are \<open>32 word\<close>, whose addition wraps. The properties: hashing data in
  pieces gives what hashing it at once gives, and the result is the fold of the compression
  function over the blocks of the padded message.
\<close>

record sha256 =
  sha_state :: "u32 list"
  sha_buffer :: bytes
  sha_total_len :: u64

definition sha_new :: sha256 where
  "sha_new = \<lparr>sha_state = [0x6a09e667, 0xbb67ae85, 0x3c6ef372, 0xa54ff53a, 0x510e527f,
                           0x9b05688c, 0x1f83d9ab, 0x5be0cd19],
              sha_buffer = [], sha_total_len = 0\<rparr>"

text \<open>The round constants, row by row as the source lists them.\<close>

definition K :: "u32 list" where
  "K = concat
     [[0x428a2f98, 0x71374491, 0xb5c0fbcf, 0xe9b5dba5, 0x3956c25b, 0x59f111f1, 0x923f82a4],
      [0xab1c5ed5, 0xd807aa98, 0x12835b01, 0x243185be, 0x550c7dc3, 0x72be5d74, 0x80deb1fe],
      [0x9bdc06a7, 0xc19bf174, 0xe49b69c1, 0xefbe4786, 0x0fc19dc6, 0x240ca1cc, 0x2de92c6f],
      [0x4a7484aa, 0x5cb0a9dc, 0x76f988da, 0x983e5152, 0xa831c66d, 0xb00327c8, 0xbf597fc7],
      [0xc6e00bf3, 0xd5a79147, 0x06ca6351, 0x14292967, 0x27b70a85, 0x2e1b2138, 0x4d2c6dfc],
      [0x53380d13, 0x650a7354, 0x766a0abb, 0x81c2c92e, 0x92722c85, 0xa2bfe8a1, 0xa81a664b],
      [0xc24b8b70, 0xc76c51a3, 0xd192e819, 0xd6990624, 0xf40e3585, 0x106aa070, 0x19a4c116],
      [0x1e376c08, 0x2748774c, 0x34b0bcb5, 0x391c0cb3, 0x4ed8aa4a, 0x5b9cca4f, 0x682e6ff3],
      [0x748f82ee, 0x78a5636f, 0x84c87814, 0x8cc70208, 0x90befffa, 0xa4506ceb, 0xbef9a3f7],
      [0xc67178f2]]"

definition rotate_right :: "nat \<Rightarrow> u32 \<Rightarrow> u32" where
  "rotate_right n x = word_rotr n x"

definition u32_from_be_bytes :: "bytes \<Rightarrow> u32" where
  "u32_from_be_bytes bs = fold (\<lambda>b w. w * 256 + of_nat (of_char b)) bs 0"

definition u32_to_be_bytes :: "u32 \<Rightarrow> bytes" where
  "u32_to_be_bytes w = map (\<lambda>i. char_of (unat (drop_bit i w))) [24, 16, 8, 0]"

definition u64_to_be_bytes :: "u64 \<Rightarrow> bytes" where
  "u64_to_be_bytes n = map (\<lambda>i. char_of (n div 2 ^ i)) [56, 48, 40, 32, 24, 16, 8, 0]"

text \<open>The message schedule: 16 words of the block, then 48 computed ones.\<close>

definition schedule_start :: "bytes \<Rightarrow> u32 list" where
  "schedule_start block = map (\<lambda>i. u32_from_be_bytes (take 4 (drop (i * 4) block))) [0 ..< 16]"

definition schedule_word :: "u32 list \<Rightarrow> nat \<Rightarrow> u32" where
  "schedule_word w i =
     (let s0 = rotate_right 7 (w ! (i - 15)) XOR rotate_right 18 (w ! (i - 15)) XOR
               drop_bit 3 (w ! (i - 15));
          s1 = rotate_right 17 (w ! (i - 2)) XOR rotate_right 19 (w ! (i - 2)) XOR
               drop_bit 10 (w ! (i - 2))
      in w ! (i - 16) + s0 + w ! (i - 7) + s1)"

definition schedule :: "bytes \<Rightarrow> u32 list" where
  "schedule block = fold (\<lambda>i w. w @ [schedule_word w i]) [16 ..< 64] (schedule_start block)"

text \<open>One round on the eight working variables \<open>a\<close> to \<open>h\<close>.\<close>

fun sha_round :: "u32 list \<Rightarrow> nat \<Rightarrow> u32 list \<Rightarrow> u32 list" where
  "sha_round w i [a, b, c, d, e, f, g, h] =
     (let s1 = rotate_right 6 e XOR rotate_right 11 e XOR rotate_right 25 e;
          ch = (e AND f) XOR (NOT e AND g);
          t1 = h + s1 + ch + K ! i + w ! i;
          s0 = rotate_right 2 a XOR rotate_right 13 a XOR rotate_right 22 a;
          mj = (a AND b) XOR (a AND c) XOR (b AND c);
          t2 = s0 + mj
      in [t1 + t2, a, b, c, d + t1, e, f, g])"
| "sha_round w i st = st"

definition compress :: "u32 list \<Rightarrow> bytes \<Rightarrow> u32 list" where
  "compress state block =
     (let w = schedule block
      in map2 (+) state (fold (sha_round w) [0 ..< 64] state))"

text \<open>The loop of \<open>update\<close> and \<open>finalize\<close> over the full blocks of the buffer.\<close>

function compress_blocks :: "sha256 \<Rightarrow> sha256" where
  "compress_blocks self =
     (if length (sha_buffer self) \<ge> 64
      then compress_blocks
             (self\<lparr>sha_state := compress (sha_state self) (take 64 (sha_buffer self)),
                   sha_buffer := drop 64 (sha_buffer self)\<rparr>)
      else self)"
  by pat_completeness auto
termination by (relation "measure (\<lambda>self. length (sha_buffer self))") auto

declare compress_blocks.simps [simp del]

definition sha_update :: "bytes \<Rightarrow> sha256 \<Rightarrow> sha256" where
  "sha_update data self =
     (let self = self\<lparr>sha_total_len := (sha_total_len self + length data) mod 2 ^ 64\<rparr>;
          self = self\<lparr>sha_buffer := sha_buffer self @ data\<rparr>
      in compress_blocks self)"

text \<open>The padding loop: zero bytes until the length is 56 modulo 64.\<close>

function pad_zeros :: "bytes \<Rightarrow> bytes" where
  "pad_zeros buf = (if length buf mod 64 \<noteq> 56 then pad_zeros (buf @ [CHR 0x00]) else buf)"
  by pat_completeness auto
termination
proof (relation "measure (\<lambda>buf. let r = length buf mod 64 in if r \<le> 56 then 56 - r else 120 - r)", simp)
  fix buf :: bytes
  assume "length buf mod 64 \<noteq> 56"
  moreover have "length buf mod 64 < 64" by simp
  ultimately show "(buf @ [CHR 0x00], buf) \<in>
      measure (\<lambda>buf. let r = length buf mod 64 in if r \<le> 56 then 56 - r else 120 - r)"
    by (cases "length buf mod 64 = 63") (auto simp: Let_def mod_Suc)
qed

declare pad_zeros.simps [simp del]

definition finalize :: "sha256 \<Rightarrow> bytes" where
  "finalize self =
     (let bit_len = sha_total_len self * 8 mod 2 ^ 64;
          self = self\<lparr>sha_buffer := sha_buffer self @ [CHR 0x80]\<rparr>;
          self = self\<lparr>sha_buffer := pad_zeros (sha_buffer self)\<rparr>;
          self = self\<lparr>sha_buffer := sha_buffer self @ u64_to_be_bytes bit_len\<rparr>;
          self = compress_blocks self
      in concat (map u32_to_be_bytes (sha_state self)))"

definition hex_digit :: "nat \<Rightarrow> char" where
  "hex_digit d = char_of (if d < 10 then 48 + d else 87 + d)"

definition hex_byte :: "byte \<Rightarrow> string" where
  "hex_byte b = [hex_digit (of_char b div 16), hex_digit (of_char b mod 16)]"

definition sha256_hex :: "bytes \<Rightarrow> string" where
  "sha256_hex data = concat (map hex_byte (finalize (sha_update data sha_new)))"

subsection \<open>Streaming\<close>

lemma compress_blocks_append:
  "compress_blocks ((compress_blocks h)\<lparr>sha_buffer := sha_buffer (compress_blocks h) @ data\<rparr>) =
   compress_blocks (h\<lparr>sha_buffer := sha_buffer h @ data\<rparr>)"
proof (induction h rule: compress_blocks.induct)
  case (1 h)
  show ?case
  proof (cases "length (sha_buffer h) \<ge> 64")
    case True
    then show ?thesis
      using 1 by (simp add: compress_blocks.simps [of h]
          compress_blocks.simps [of "h\<lparr>sha_buffer := sha_buffer h @ data\<rparr>"])
  next
    case False
    then show ?thesis by (simp add: compress_blocks.simps [of h])
  qed
qed

lemma compress_blocks_total:
  "compress_blocks (h\<lparr>sha_total_len := n\<rparr>) = (compress_blocks h)\<lparr>sha_total_len := n\<rparr>"
  "sha_total_len (compress_blocks h) = sha_total_len h"
proof (induction h rule: compress_blocks.induct)
  case (1 h)
  have swap: "h\<lparr>sha_total_len := n, sha_state := a, sha_buffer := b\<rparr> =
      h\<lparr>sha_state := a, sha_buffer := b, sha_total_len := n\<rparr>" for a b by simp
  { case 1
    from "1.IH"(1) show ?case
      by (simp add: compress_blocks.simps [of h] compress_blocks.simps [of "h\<lparr>sha_total_len := n\<rparr>"] swap) }
  { case 2
    from "1.IH"(2) show ?case by (simp add: compress_blocks.simps [of h]) }
qed

lemma sha_update_append: "sha_update b (sha_update a h) = sha_update (a @ b) h"
proof -
  have swap: "h\<lparr>sha_total_len := n, sha_buffer := b\<rparr> = h\<lparr>sha_buffer := b, sha_total_len := n\<rparr>"
    for h :: sha256 and n b by simp
  have 1: "sha_update a h = (compress_blocks (h\<lparr>sha_buffer := sha_buffer h @ a\<rparr>))
      \<lparr>sha_total_len := (sha_total_len h + length a) mod 2 ^ 64\<rparr>" for a h
    using compress_blocks_total(1) [where h = "h\<lparr>sha_buffer := sha_buffer h @ a\<rparr>"]
    by (simp add: sha_update_def Let_def swap)
  show ?thesis
    using compress_blocks_append [of "h\<lparr>sha_buffer := sha_buffer h @ a\<rparr>" b]
    by (simp add: 1 swap compress_blocks_total mod_add_left_eq add.assoc)
qed

subsection \<open>The reference: folding over the blocks of the padded message\<close>

definition sha_pad :: "bytes \<Rightarrow> bytes" where
  "sha_pad m =
     m @ CHR 0x80 # replicate ((119 - length m mod 64) mod 64) (CHR 0x00) @
     u64_to_be_bytes (length m * 8 mod 2 ^ 64)"

definition sha_reference :: "bytes \<Rightarrow> bytes" where
  "sha_reference m =
     concat (map u32_to_be_bytes (foldl compress (sha_state sha_new) (slices 64 (sha_pad m))))"

lemma pad_zeros_eq:
  "pad_zeros buf = buf @ replicate ((120 - length buf mod 64) mod 64) (CHR 0x00)"
proof (induction buf rule: pad_zeros.induct)
  case (1 buf)
  let ?r = "length buf mod 64"
  have small: "(120 - m) mod 64 = 56 - m" if "m \<le> 56" for m :: nat
  proof -
    have "120 - m = 56 - m + 64" using that by simp
    then show ?thesis by (simp only: mod_add_self2) simp
  qed
  have pred: "56 - m = Suc (55 - m)" if "m \<le> 55" for m :: nat using that by arith
  show ?case
  proof (cases "?r = 56")
    case False
    have "(120 - ?r) mod 64 = Suc ((120 - Suc (length buf) mod 64) mod 64)"
    proof (cases "?r \<le> 55")
      case True
      then have "Suc (length buf) mod 64 = Suc ?r" by (simp add: mod_Suc)
      then show ?thesis using True small [of ?r] small [of "Suc ?r"] pred [OF True] by simp
    next
      case gt: False
      moreover have "?r < 64" by simp
      ultimately consider "?r = 57" | "?r = 58" | "?r = 59" | "?r = 60" | "?r = 61" | "?r = 62" | "?r = 63"
        using False by linarith
      then show ?thesis by cases (simp_all add: mod_Suc)
    qed
    then show ?thesis using 1 False by (simp add: pad_zeros.simps [of buf])
  qed (simp add: pad_zeros.simps [of buf])
qed

lemma compress_blocks_eq:
  fixes h
  defines "n \<equiv> 64 * (length (sha_buffer h) div 64)"
  shows "sha_state (compress_blocks h) = foldl compress (sha_state h) (slices 64 (take n (sha_buffer h)))"
    and "sha_buffer (compress_blocks h) = drop n (sha_buffer h)"
  unfolding n_def
proof (induction h rule: compress_blocks.induct)
  case (1 h)
  let ?B = "sha_buffer h" and ?n = "\<lambda>B. 64 * (length B div 64) :: nat"
  have step: "?n ?B = 64 + ?n (drop 64 ?B)" "take (?n ?B) ?B = take 64 ?B @ take (?n (drop 64 ?B)) (drop 64 ?B)"
    if "64 \<le> length ?B"
  proof -
    show n: "?n ?B = 64 + ?n (drop 64 ?B)" using that by (simp add: le_div_geq)
    show "take (?n ?B) ?B = take 64 ?B @ take (?n (drop 64 ?B)) (drop 64 ?B)"
      by (simp only: n take_add)
  qed
  { case 1
    show ?case
    proof (cases "64 \<le> length ?B")
      case True
      have "slices 64 (take 64 ?B @ ys) = take 64 ?B # slices 64 ys" for ys
        using slices_append [of 64 "take 64 ?B" ys] True
        by (auto simp: slices.simps [of 64 "take 64 ?B"])
      with True "1.IH"(1) step(2) show ?thesis by (simp add: compress_blocks.simps [of h])
    qed (simp add: compress_blocks.simps [of h]) }
  { case 2
    show ?case
    proof (cases "64 \<le> length ?B")
      case True
      with "1.IH"(2) step(1) show ?thesis by (simp add: compress_blocks.simps [of h] add.commute)
    qed (simp add: compress_blocks.simps [of h]) }
qed

lemma sha_update_new:
  "sha_state (sha_update m sha_new) =
     foldl compress (sha_state sha_new) (slices 64 (take (64 * (length m div 64)) m))"
  "sha_buffer (sha_update m sha_new) = drop (64 * (length m div 64)) m"
  "sha_total_len (sha_update m sha_new) = length m mod 2 ^ 64"
  by (simp_all add: sha_update_def compress_blocks_eq compress_blocks_total Let_def)
    (simp_all add: sha_new_def)

lemma u64_to_be_bytes_length [simp]: "length (u64_to_be_bytes n) = 8"
  by (simp add: u64_to_be_bytes_def)

lemma pad_length_dvd:
  fixes r :: nat
  assumes "r < 64"
  shows "64 dvd r + 1 + (119 - r) mod 64 + 8"
proof (cases "r \<le> 55")
  case True
  then have "119 - r = 55 - r + 64" by simp
  then have "(119 - r) mod 64 = 55 - r" by (simp only: mod_add_self2) simp
  with True show ?thesis by simp
next
  case False
  then have "119 - r < 64" by simp
  with assms False show ?thesis by simp
qed

lemma finalize_reference: "finalize (sha_update m sha_new) = sha_reference m"
proof -
  let ?n = "64 * (length m div 64)" and ?z = "(119 - length m mod 64) mod 64"
  let ?h = "sha_update m sha_new" and ?len = "u64_to_be_bytes (length m * 8 mod 2 ^ 64)"
  define tail where "tail = drop ?n m @ CHR 0x80 # replicate ?z (CHR 0x00) @ ?len"
  have r: "length m - ?n = length m mod 64" by (simp add: minus_mult_div_eq_mod)
  have "pad_zeros (drop ?n m @ [CHR 0x80]) @ ?len = tail"
  proof -
    have "(120 - Suc (length m mod 64) mod 64) mod 64 = ?z"
    proof (cases "length m mod 64 = 63")
      case False
      moreover have "length m mod 64 < 64" by simp
      ultimately have "Suc (length m mod 64) mod 64 = Suc (length m mod 64)" by simp
      then show ?thesis by simp
    qed simp
    then show ?thesis by (simp add: pad_zeros_eq r tail_def)
  qed
  then have buf: "finalize ?h = concat (map u32_to_be_bytes (sha_state
      (compress_blocks (?h\<lparr>sha_buffer := tail\<rparr>))))"
    by (simp add: finalize_def Let_def sha_update_new mod_mult_left_eq)
  have "length tail = length m mod 64 + 1 + ?z + 8" by (simp add: tail_def r)
  then have dvd: "64 dvd length tail" using pad_length_dvd [of "length m mod 64"] by simp
  then have "sha_state (compress_blocks (?h\<lparr>sha_buffer := tail\<rparr>)) =
      foldl compress (sha_state ?h) (slices 64 tail)"
    by (simp add: compress_blocks_eq dvd_mult_div_cancel)
  also have "\<dots> = foldl compress (sha_state sha_new) (slices 64 (take ?n m @ tail))"
  proof -
    have "64 dvd length (take ?n m)" by (simp add: min_absorb2)
    then show ?thesis by (simp add: slices_append sha_update_new)
  qed
  also have "take ?n m @ tail = sha_pad m"
    by (simp add: tail_def sha_pad_def)
  finally show ?thesis by (simp add: buf sha_reference_def)
qed

text \<open>
  C35: the streaming hash is SHA-256 of the concatenation. However the data is cut into pieces
  and fed to \<open>update\<close>, \<open>finalize\<close> returns the big-endian words obtained by folding the
  compression function over the 64-byte blocks of the padded message: the data, one byte 0x80,
  zero bytes up to 56 modulo 64, and the bit length in 8 bytes.
\<close>

theorem sha256_streaming: "finalize (fold sha_update pieces sha_new) = sha_reference (concat pieces)"
proof -
  have "fold sha_update ds (sha_update d sha_new) = sha_update (d @ concat ds) sha_new" for d ds
    by (induction ds arbitrary: d) (simp_all add: sha_update_append)
  moreover have "sha_update [] sha_new = sha_new"
    by (simp add: sha_update_def sha_new_def compress_blocks.simps)
  ultimately have "fold sha_update pieces sha_new = sha_update (concat pieces) sha_new"
    by (metis append_Nil)
  then show ?thesis by (simp add: finalize_reference)
qed

end
