(* ===== verification/Etcd_Snapshot.thy ===== *)
theory Etcd_Snapshot
  imports Etcd_Leases Sha256 "HOL-Library.Countable"
begin

section \<open>Snapshots\<close>

text \<open>
  The snapshot stream, its reassembly, the restore and the chunk sender of
  \<open>cave-etcd/src/store.rs\<close>. The JSON library is a parameter: \<open>to_vec\<close> of the payload, and
  \<open>from_slice\<close> together with the typed reading of the five fields the store looks at, each of
  which may be missing.
\<close>

record payload =
  pl_revision :: u64
  pl_compact_revision :: u64
  pl_kvs :: "key_value list"
  pl_leases :: "lease list"
  pl_members :: "member list"

record payload_fields =
  pf_revision :: "u64 option"
  pf_compact_revision :: "u64 option"
  pf_kvs :: "key_value list option"
  pf_leases :: "lease list option"
  pf_members :: "member list option"

record json =
  js_to_vec :: "payload \<Rightarrow> bytes option"
  js_from_slice :: "bytes \<Rightarrow> string + payload_fields"

definition SNAPSHOT_CHUNK_SIZE :: usize where
  "SNAPSHOT_CHUNK_SIZE = 32 * 1024"

definition SNAPSHOT_SENDER_CHUNK_SIZE :: usize where
  "SNAPSHOT_SENDER_CHUNK_SIZE = SNAPSHOT_CHUNK_SIZE"

declare SNAPSHOT_CHUNK_SIZE_def [code del]

subsection \<open>Stream, reassembly and restore\<close>

definition payload_of :: "kv_store \<Rightarrow> payload" where
  "payload_of self =
     \<lparr>pl_revision = current_revision self, pl_compact_revision = compacted_revision self,
      pl_kvs = sort_key kv_key (map snd (current self)),
      pl_leases = sort_key lease_id (map snd (leases self)),
      pl_members = members self\<rparr>"

definition snapshot_blob :: "json \<Rightarrow> kv_store \<Rightarrow> bytes \<times> string \<times> kv_snapshot_meta" where
  "snapshot_blob js self =
     (let p = payload_of self;
          blob = (case js_to_vec js p of Some b \<Rightarrow> b | None \<Rightarrow> []);
          checksum = sha256_hex blob
      in (blob, checksum,
          \<lparr>sm_revision = current_revision self, sm_compact_revision = compacted_revision self,
           sm_size_bytes = length blob, sm_checksum = checksum,
           sm_member_count = length (pl_members p), sm_lease_count = length (pl_leases p)\<rparr>))"

definition kv_snapshot_meta_of :: "json \<Rightarrow> kv_store \<Rightarrow> kv_snapshot_meta" where
  "kv_snapshot_meta_of js self = (let (_, _, meta) = snapshot_blob js self in meta)"

definition snapshot_stream :: "json \<Rightarrow> kv_store \<Rightarrow> stream_chunk list" where
  "snapshot_stream js self =
     (let (blob, checksum, _) = snapshot_blob js self
      in if blob = []
         then [\<lparr>sc_header = header self, sc_remaining_bytes = 0, sc_blob = [], sc_checksum = checksum\<rparr>]
         else map (\<lambda>(i, slice).
                     let consumed = (i + 1) * SNAPSHOT_CHUNK_SIZE;
                         remaining = length blob - consumed
                     in \<lparr>sc_header = header self, sc_remaining_bytes = remaining, sc_blob = slice,
                         sc_checksum = checksum\<rparr>)
                (enumerate 0 (slices SNAPSHOT_CHUNK_SIZE blob)))"

fun assemble_loop :: "string \<Rightarrow> stream_chunk list \<Rightarrow> bytes \<Rightarrow> bytes etcd_result" where
  "assemble_loop expected [] blob = Inr blob"
| "assemble_loop expected (c # cs) blob =
     (if sc_checksum c \<noteq> expected then Inl (SnapshotChecksumMismatch expected (sc_checksum c))
      else assemble_loop expected cs (blob @ sc_blob c))"

definition assemble_chunks :: "stream_chunk list \<Rightarrow> (bytes \<times> string) etcd_result" where
  "assemble_chunks chunks =
     (case chunks of
        [] \<Rightarrow> Inl (SnapshotDecode ''no chunks'')
      | c0 # _ \<Rightarrow>
          (let expected = sc_checksum c0
           in case assemble_loop expected chunks [] of
                Inl e \<Rightarrow> Inl e
              | Inr blob \<Rightarrow>
                  (let actual = sha256_hex blob
                   in if actual \<noteq> expected then Inl (SnapshotChecksumMismatch expected actual)
                      else Inr (blob, expected))))"

text \<open>The loop that puts the restored pairs into the key index and the live keys.\<close>

definition restore_kv :: "key_value \<Rightarrow> kv_store \<Rightarrow> kv_store" where
  "restore_kv kv self =
     (let self = index_push (kv_key kv) (mod_revision kv) self
      in self\<lparr>current := AList.update (kv_key kv) kv (current self)\<rparr>)"

definition restore_snapshot :: "json \<Rightarrow> bytes \<Rightarrow> string \<Rightarrow> kv_store \<Rightarrow> unit etcd_result \<times> kv_store" where
  "restore_snapshot js blob checksum self =
     (let actual = sha256_hex blob
      in if actual \<noteq> checksum then (Inl (SnapshotChecksumMismatch checksum actual), self)
         else case js_from_slice js blob of
                Inl e \<Rightarrow> (Inl (SnapshotDecode e), self)
              | Inr v \<Rightarrow>
                  (case pf_revision v of
                     None \<Rightarrow> (Inl (SnapshotDecode ''missing revision''), self)
                   | Some rv \<Rightarrow>
                       (let compact_rv = (case pf_compact_revision v of Some n \<Rightarrow> n | None \<Rightarrow> 0);
                            kvs = (case pf_kvs v of Some l \<Rightarrow> l | None \<Rightarrow> []);
                            ls = (case pf_leases v of Some l \<Rightarrow> l | None \<Rightarrow> []);
                            ms = (case pf_members v of Some l \<Rightarrow> l | None \<Rightarrow> []);
                            self = self\<lparr>current := [], key_index := [], history := [], leases := []\<rparr>;
                            self = fold restore_kv kvs self;
                            self = fold (\<lambda>l self. self\<lparr>leases := AList.update (lease_id l) l (leases self)\<rparr>)
                                     ls self;
                            self = self\<lparr>members := ms, revision := rv, compacted_revision := compact_rv\<rparr>
                        in (Inr (), self))))"

subsection \<open>The chunk sender\<close>

definition snapshot_sender_open ::
  "json \<Rightarrow> string \<Rightarrow> kv_store \<Rightarrow> (string \<times> kv_snapshot_meta \<times> snapshot_sender_state) \<times> kv_store" where
  "snapshot_sender_open js client_id self =
     (let (blob, checksum, meta) = snapshot_blob js self;
          i = show_nat (sm_revision meta) @ ''-'' @ client_id;
          total_bytes = length blob;
          state = \<lparr>ss_revision = sm_revision meta, ss_total_bytes = total_bytes, ss_sent_bytes = 0,
                   ss_checksum = checksum, ss_chunks_sent = 0, ss_completed = (total_bytes = 0)\<rparr>;
          self = self\<lparr>snapshot_senders := AList.update i state (snapshot_senders self),
                      snapshot_blobs := AList.update i blob (snapshot_blobs self)\<rparr>
      in ((i, meta, state), self))"

definition snapshot_sender_next_chunk ::
  "string \<Rightarrow> kv_store \<Rightarrow> stream_chunk option etcd_result \<times> kv_store" where
  "snapshot_sender_next_chunk i self =
     (case map_of (snapshot_senders self) i of
        None \<Rightarrow> (Inl (SnapshotDecode (''unknown snapshot id '' @ i)), self)
      | Some state \<Rightarrow>
          if ss_completed state then (Inr None, self)
          else case map_of (snapshot_blobs self) i of
                 None \<Rightarrow> (Inl (SnapshotDecode (''snapshot blob missing for '' @ i)), self)
               | Some blob \<Rightarrow>
                   (let start = ss_sent_bytes state;
                        stop = min (start + SNAPSHOT_SENDER_CHUNK_SIZE) (length blob);
                        slice = take (stop - start) (drop start blob);
                        chunk = \<lparr>sc_header = header self, sc_remaining_bytes = length blob - stop,
                                 sc_blob = slice, sc_checksum = ss_checksum state\<rparr>;
                        state = state\<lparr>ss_sent_bytes := stop, ss_chunks_sent := ss_chunks_sent state + 1\<rparr>;
                        state = (if stop = length blob then state\<lparr>ss_completed := True\<rparr> else state)
                    in (Inr (Some chunk),
                        self\<lparr>snapshot_senders := AList.update i state (snapshot_senders self)\<rparr>)))"

definition snapshot_sender_state_of :: "kv_store \<Rightarrow> string \<Rightarrow> snapshot_sender_state option" where
  "snapshot_sender_state_of self i = map_of (snapshot_senders self) i"

definition snapshot_sender_close :: "string \<Rightarrow> kv_store \<Rightarrow> kv_store" where
  "snapshot_sender_close i self =
     self\<lparr>snapshot_senders := AList.delete i (snapshot_senders self),
          snapshot_blobs := AList.delete i (snapshot_blobs self)\<rparr>"

definition snapshot_sender_iter_keys :: "kv_store \<Rightarrow> bytes list" where
  "snapshot_sender_iter_keys self = sort (map fst (current self))"

subsection \<open>Reassembly\<close>

lemma assemble_loop_iff:
  "assemble_loop e cs acc = Inr b \<longleftrightarrow>
     (\<forall>c \<in> set cs. sc_checksum c = e) \<and> b = acc @ concat (map sc_blob cs)"
  by (induction cs arbitrary: acc) auto

lemma assemble_loop_error:
  "assemble_loop e cs acc = Inl x \<Longrightarrow> \<exists>c \<in> set cs. sc_checksum c \<noteq> e \<and> x = SnapshotChecksumMismatch e (sc_checksum c)"
  by (induction cs arbitrary: acc) (auto split: if_splits)

lemma assemble_chunks_nonempty:
  "cs \<noteq> [] \<Longrightarrow> assemble_chunks cs =
     (case assemble_loop (sc_checksum (hd cs)) cs [] of
        Inl e \<Rightarrow> Inl e
      | Inr blob \<Rightarrow> if sha256_hex blob \<noteq> sc_checksum (hd cs)
          then Inl (SnapshotChecksumMismatch (sc_checksum (hd cs)) (sha256_hex blob))
          else Inr (blob, sc_checksum (hd cs)))"
  unfolding assemble_chunks_def by (cases cs) (simp_all only: list.case list.sel Let_def, simp)

lemma assemble_chunks_iff:
  "assemble_chunks cs = Inr (blob, digest) \<longleftrightarrow>
     cs \<noteq> [] \<and> (\<forall>c \<in> set cs. sc_checksum c = digest) \<and> blob = concat (map sc_blob cs) \<and>
     sha256_hex blob = digest"
proof (cases "cs = []")
  case False
  let ?e = "sc_checksum (hd cs)"
  have hd: "hd cs \<in> set cs" using False by simp
  show ?thesis
  proof (cases "assemble_loop ?e cs []")
    case (Inl x)
    then have "\<exists>c \<in> set cs. sc_checksum c \<noteq> ?e" using assemble_loop_error by blast
    then have "\<not> (\<forall>c \<in> set cs. sc_checksum c = digest)" using hd by metis
    then show ?thesis using False Inl by (simp add: assemble_chunks_nonempty)
  next
    case (Inr b)
    then have b: "\<forall>c \<in> set cs. sc_checksum c = ?e" "b = concat (map sc_blob cs)"
      using assemble_loop_iff [of ?e cs "[]" b] by simp_all
    then have "(\<forall>c \<in> set cs. sc_checksum c = digest) \<longleftrightarrow> ?e = digest" using hd by metis
    then show ?thesis using False Inr b(2) by (auto simp: assemble_chunks_nonempty)
  qed
qed (simp add: assemble_chunks_def)

lemma assemble_chunks_error:
  assumes "assemble_chunks cs = Inl e"
  shows "e = SnapshotDecode ''no chunks'' \<and> cs = [] \<or>
    (\<exists>a. e = SnapshotChecksumMismatch (sc_checksum (hd cs)) a)"
proof (cases "cs = []")
  case False
  with assms show ?thesis
    using assemble_loop_error [of "sc_checksum (hd cs)" cs "[]"]
    by (cases "assemble_loop (sc_checksum (hd cs)) cs []")
      (auto simp: assemble_chunks_nonempty split: if_splits)
qed (use assms in \<open>simp add: assemble_chunks_def\<close>)

text \<open>
  C24: chunks are accepted exactly when they can be trusted. Reassembly returns a blob and a
  checksum if and only if there is a chunk, every chunk carries that checksum, the blob is the
  concatenation of the chunks, and its SHA-256 is the checksum. In every other case the answer
  is \<open>no chunks\<close> or a checksum mismatch; and a blob whose hash is not the given checksum is
  refused by the restore, which then leaves the store as it was.
\<close>

theorem assemble_restore_checked:
  "(assemble_chunks cs = Inr (blob, digest) \<longleftrightarrow>
      cs \<noteq> [] \<and> (\<forall>c \<in> set cs. sc_checksum c = digest) \<and> blob = concat (map sc_blob cs) \<and>
      sha256_hex blob = digest) \<and>
   (\<forall>e. assemble_chunks cs = Inl e \<longrightarrow>
      e = SnapshotDecode ''no chunks'' \<and> cs = [] \<or> (\<exists>a. e = SnapshotChecksumMismatch (sc_checksum (hd cs)) a)) \<and>
   (sha256_hex blob \<noteq> digest \<longrightarrow>
      restore_snapshot js blob digest s = (Inl (SnapshotChecksumMismatch digest (sha256_hex blob)), s))"
proof (intro conjI allI impI assemble_chunks_iff)
  show "e = SnapshotDecode ''no chunks'' \<and> cs = [] \<or>
      (\<exists>a. e = SnapshotChecksumMismatch (sc_checksum (hd cs)) a)" if "assemble_chunks cs = Inl e" for e
    using that by (rule assemble_chunks_error)
  show "restore_snapshot js blob digest s = (Inl (SnapshotChecksumMismatch digest (sha256_hex blob)), s)"
    if "sha256_hex blob \<noteq> digest"
    using that by (simp add: restore_snapshot_def Let_def)
qed

definition demo_chunk :: "string \<Rightarrow> stream_chunk" where
  "demo_chunk digest = \<lparr>sc_header = \<lparr>cluster_id = 1, member_id = 1, hdr_revision = 1, raft_term = 1\<rparr>,
                     sc_remaining_bytes = 0, sc_blob = ''x'', sc_checksum = digest\<rparr>"

theorem assemble_restore_checked_witness:
  "assemble_chunks [demo_chunk ''p'', demo_chunk ''q''] \<noteq> Inr (''xx'', ''p'') \<and>
   assemble_chunks [demo_chunk (sha256_hex ''x'')] = Inr (''x'', sha256_hex ''x'')"
proof -
  note a = assemble_restore_checked [THEN conjunct1]
  show ?thesis
    using a [of "[demo_chunk ''p'', demo_chunk ''q'']" "''xx''" "''p''"]
      a [of "[demo_chunk (sha256_hex ''x'')]" "''x''" "sha256_hex ''x''"]
    by (simp add: demo_chunk_def)
qed

subsection \<open>Snapshot and restore\<close>

definition fields_of :: "payload \<Rightarrow> payload_fields" where
  "fields_of p = \<lparr>pf_revision = Some (pl_revision p), pf_compact_revision = Some (pl_compact_revision p),
                  pf_kvs = Some (pl_kvs p), pf_leases = Some (pl_leases p),
                  pf_members = Some (pl_members p)\<rparr>"

text \<open>What is relied on of the JSON library: a payload is written, and reads back as written.\<close>

definition json_roundtrip :: "json \<Rightarrow> bool" where
  "json_roundtrip js \<longleftrightarrow>
     (\<forall>p. \<exists>b. js_to_vec js p = Some b \<and> js_from_slice js b = Inr (fields_of p))"

lemma chunk_size_pos: "0 < SNAPSHOT_CHUNK_SIZE"
  by (simp add: SNAPSHOT_CHUNK_SIZE_def)

lemma snapshot_stream_assembles:
  fixes js s
  defines "blob \<equiv> fst (snapshot_blob js s)"
  shows "assemble_chunks (snapshot_stream js s) = Inr (blob, sha256_hex blob)"
proof -
  obtain meta where b: "snapshot_blob js s = (blob, sha256_hex blob, meta)"
    by (simp add: blob_def snapshot_blob_def Let_def)
  have "concat (map sc_blob (snapshot_stream js s)) = blob"
  proof (cases "blob = []")
    case False
    have "map sc_blob (snapshot_stream js s) = map snd (enumerate 0 (slices SNAPSHOT_CHUNK_SIZE blob))"
      using False by (simp add: snapshot_stream_def b Let_def case_prod_beta comp_def)
    then show ?thesis using chunk_size_pos by (simp only: map_snd_enumerate concat_slices)
  qed (simp add: snapshot_stream_def b)
  moreover have "sc_checksum c = sha256_hex blob" if "c \<in> set (snapshot_stream js s)" for c
    using that by (auto simp: snapshot_stream_def b Let_def split: if_splits)
  moreover have "snapshot_stream js s \<noteq> []"
    using chunk_size_pos
    by (auto simp: snapshot_stream_def b Let_def slices.simps [of _ blob] enumerate_eq_zip)
  ultimately show ?thesis unfolding assemble_chunks_iff by metis
qed

lemma map_of_snoc: "map_of xs k = None \<Longrightarrow> map_of (xs @ [(k, v)]) = (map_of xs)(k \<mapsto> v)"
  by (auto simp: fun_eq_iff map_add_def split: option.splits)

definition restored :: "key_value list \<Rightarrow> kv_store \<Rightarrow> kv_store \<Rightarrow> bool" where
  "restored kvs s t \<longleftrightarrow>
     map_of (current t) = map_of (map (\<lambda>kv. (kv_key kv, kv)) kvs) \<and> alist_wf (current t) \<and>
     map_of (key_index t) = map_of (map (\<lambda>kv. (kv_key kv, [mod_revision kv])) kvs) \<and>
     alist_wf (key_index t) \<and> t = s\<lparr>current := current t, key_index := key_index t\<rparr>"

lemma restore_kvs:
  assumes "distinct (map kv_key kvs)" and "current s = []" and "key_index s = []"
  shows "restored kvs s (fold restore_kv kvs s)"
  using assms(1)
proof (induction kvs rule: rev_induct)
  case Nil
  then show ?case by (simp add: restored_def assms(2,3))
next
  case (snoc kv kvs)
  let ?t = "fold restore_kv kvs s"
  have new: "kv_key kv \<notin> kv_key ` set kvs" and d: "distinct (map kv_key kvs)"
    using snoc.prems by auto
  note IH = snoc.IH [OF d, unfolded restored_def]
  have none: "map_of (map (\<lambda>kv. (kv_key kv, [mod_revision kv])) kvs) (kv_key kv) = None"
    "map_of (map (\<lambda>kv. (kv_key kv, kv)) kvs) (kv_key kv) = None"
    using new by (auto simp: map_of_eq_None_iff)
  have t: "fold restore_kv (kvs @ [kv]) s = ?t\<lparr>current := AList.update (kv_key kv) kv (current ?t),
      key_index := AList.update (kv_key kv) [mod_revision kv] (key_index ?t)\<rparr>"
    using none(1) IH by (simp add: restore_kv_def index_push_def Let_def)
  have frame: "?t = s\<lparr>current := current ?t, key_index := key_index ?t\<rparr>" using IH by blast
  have "?t\<lparr>current := c, key_index := i\<rparr> = s\<lparr>current := c, key_index := i\<rparr>" for c i
    by (subst frame) simp
  then show ?case unfolding t restored_def using none IH
    by (simp add: map_of_snoc del: map_of_append)
qed

lemma map_of_self_keyed:
  assumes "alist_wf m" and "\<And>k v. map_of m k = Some v \<Longrightarrow> f v = k" and "set xs = snd ` set m"
    and "distinct (map f xs)"
  shows "map_of (map (\<lambda>v. (f v, v)) xs) = map_of m"
proof
  fix k
  have mem: "(k, v) \<in> set m \<longleftrightarrow> map_of m k = Some v" for k v using assms(1) by simp
  have "(k, v) \<in> set (map (\<lambda>v. (f v, v)) xs) \<longleftrightarrow> (k, v) \<in> set m" for v
    using assms(2,3) mem by force
  moreover have "distinct (map fst (map (\<lambda>v. (f v, v)) xs))" using assms(4) by (simp add: comp_def)
  ultimately show "map_of (map (\<lambda>v. (f v, v)) xs) k = map_of m k"
    using assms(1) by (metis map_of_eq_Some_iff option.exhaust)
qed

lemma distinct_self_keyed:
  assumes "alist_wf m" and "\<And>k v. map_of m k = Some v \<Longrightarrow> f v = k"
  shows "distinct (map f (map snd m))"
proof -
  have "map f (map snd m) = map fst m" using assms by (auto simp: map_of_is_SomeI)
  then show ?thesis using assms(1) by (simp only:)
qed

lemma distinct_map_sort_key: "distinct (map f xs) \<Longrightarrow> distinct (map f (sort_key g xs))"
  by (simp add: distinct_map)

lemma restore_leases:
  "distinct (map lease_id ls) \<Longrightarrow>
   map_of (leases (fold (\<lambda>l s. s\<lparr>leases := AList.update (lease_id l) l (leases s)\<rparr>) ls s)) =
     map_of (leases s) ++ map_of (map (\<lambda>l. (lease_id l, l)) ls)"
  "fold (\<lambda>l s. s\<lparr>leases := AList.update (lease_id l) l (leases s)\<rparr>) ls s =
     s\<lparr>leases := leases (fold (\<lambda>l s. s\<lparr>leases := AList.update (lease_id l) l (leases s)\<rparr>) ls s)\<rparr>"
proof -
  show "distinct (map lease_id ls) \<Longrightarrow>
     map_of (leases (fold (\<lambda>l s. s\<lparr>leases := AList.update (lease_id l) l (leases s)\<rparr>) ls s)) =
     map_of (leases s) ++ map_of (map (\<lambda>l. (lease_id l, l)) ls)"
  proof (induction ls arbitrary: s)
    case (Cons l ls)
    then have "map_of (map (\<lambda>l. (lease_id l, l)) ls) (lease_id l) = None"
      by (auto simp: map_of_eq_None_iff)
    with Cons show ?case by (auto simp: fun_eq_iff map_add_def split: option.splits)
  qed simp
  show "fold (\<lambda>l s. s\<lparr>leases := AList.update (lease_id l) l (leases s)\<rparr>) ls s =
     s\<lparr>leases := leases (fold (\<lambda>l s. s\<lparr>leases := AList.update (lease_id l) l (leases s)\<rparr>) ls s)\<rparr>"
  proof (induction ls arbitrary: s)
    case (Cons l ls)
    from Cons [of "s\<lparr>leases := AList.update (lease_id l) l (leases s)\<rparr>"] show ?case by simp
  qed simp
qed

text \<open>A restored store keeps the invariant: its index has one entry per live key, its history none.\<close>

lemma restored_wf:
  assumes "mvcc_wf s" and "restored (sort_key kv_key (map snd (current s))) t0 t"
    and "map_of (current t') = map_of (current s)" and "current t' = current t"
    and "key_index t' = key_index t" and "history t' = []" and "revision t' = revision s"
  shows "mvcc_wf t'"
proof -
  note wf = mvcc_wfD [OF assms(1)] and r = assms(2) [unfolded restored_def]
  let ?kvs = "sort_key kv_key (map snd (current s))"
  have idx: "index_of t' k = (case map_of (current s) k of Some kv \<Rightarrow> [mod_revision kv] | None \<Rightarrow> [])" for k
  proof -
    have "map_of (map (\<lambda>kv. (kv_key kv, [mod_revision kv])) xs) k =
        map_option (\<lambda>kv. [mod_revision kv]) (map_of (map (\<lambda>kv. (kv_key kv, kv)) xs) k)" for xs
      by (induction xs) auto
    then have "map_of (map (\<lambda>kv. (kv_key kv, [mod_revision kv])) ?kvs) k =
        map_option (\<lambda>kv. [mod_revision kv]) (map_of (map (\<lambda>kv. (kv_key kv, kv)) ?kvs) k)" .
    also have "map_of (map (\<lambda>kv. (kv_key kv, kv)) ?kvs) k = map_of (current s) k"
      using r assms(3,4) by metis
    finally show ?thesis using r assms(5) by (simp add: index_of_def split: option.splits)
  qed
  show ?thesis
  proof (rule mvcc_wfI)
    show "alist_wf (current t')" "alist_wf (key_index t')" using r assms(4,5) by simp_all
    show "sorted_wrt (<) (index_of t' k)" for k by (simp add: idx split: option.split)
    show "r \<le> revision t'" if "r \<in> set (index_of t' k)" for k r
      using that wf(8) [of k] assms(7) by (auto simp: idx live_ok_def split: option.splits)
    show "live_ok t' k kv" if "map_of (current t') k = Some kv" for k kv
      using that wf(8) [of k kv] assms(3,6,7) by (simp add: live_ok_def idx)
    show "dead_ok t' k" for k by (simp add: dead_ok_def assms(6))
  qed (simp_all add: assms(6))
qed

lemma restore_snapshot_result:
  fixes t :: kv_store
  assumes "mvcc_wf s" and "lease_wf s" and "js_from_slice js blob = Inr (fields_of (payload_of s))"
  defines "t' \<equiv> snd (restore_snapshot js blob (sha256_hex blob) t)"
  shows "fst (restore_snapshot js blob (sha256_hex blob) t) = Inr ()"
    and "mvcc_wf t'" and "map_of (current t') = map_of (current s)"
    and "map_of (leases t') = map_of (leases s)" and "members t' = members s"
    and "revision t' = revision s" and "compacted_revision t' = compacted_revision s"
proof -
  let ?kvs = "sort_key kv_key (map snd (current s))" and ?ls = "sort_key lease_id (map snd (leases s))"
  let ?t0 = "t\<lparr>current := [], key_index := [], history := [], leases := []\<rparr>"
  let ?put = "\<lambda>l s. s\<lparr>leases := AList.update (lease_id l) l (leases s)\<rparr>"
  define t1 where "t1 = fold restore_kv ?kvs ?t0"
  define t2 where "t2 = fold ?put ?ls t1"
  have t': "restore_snapshot js blob (sha256_hex blob) t = (Inr (), t2\<lparr>members := members s,
      revision := revision s, compacted_revision := compacted_revision s\<rparr>)"
    by (simp add: restore_snapshot_def assms(3) fields_of_def payload_of_def current_revision_def
        Let_def t1_def t2_def)
  have key: "kv_key kv = k" if "map_of (current s) k = Some kv" for k kv
    using mvcc_wfD(8) [OF assms(1) that] by (simp add: live_ok_def)
  have wf: "alist_wf (current s)" "alist_wf (leases s)"
    using mvcc_wfD(1) [OF assms(1)] assms(2) by (simp_all add: lease_wf_def)
  note lid = lease_wfD(3) [OF assms(2)]
  have "distinct (map kv_key (map snd (current s)))" using wf(1) key by (rule distinct_self_keyed)
  then have "distinct (map kv_key ?kvs)" by (rule distinct_map_sort_key)
  then have r: "restored ?kvs ?t0 t1" unfolding t1_def by (rule restore_kvs) simp_all
  have t1: "t1 = ?t0\<lparr>current := current t1, key_index := key_index t1\<rparr>"
    using r unfolding restored_def by blast
  have t2: "t2 = t1\<lparr>leases := leases t2\<rparr>" unfolding t2_def by (rule restore_leases(2))
  have same: "current t2 = current t1" "key_index t2 = key_index t1" "history t2 = []"
    by (subst t2, simp, (subst t1, simp)?)+
  show cur: "map_of (current t') = map_of (current s)"
    unfolding t'_def t' using r same(1) map_of_self_keyed [where f = kv_key, OF wf(1) key, of ?kvs] \<open>distinct (map kv_key ?kvs)\<close>
    by (simp add: restored_def)
  show "mvcc_wf t'"
    by (rule restored_wf [OF assms(1) r cur]) (simp_all add: t'_def t' same)
  have "distinct (map lease_id (map snd (leases s)))" using wf(2) lid by (rule distinct_self_keyed)
  then have "distinct (map lease_id ?ls)" by (rule distinct_map_sort_key)
  moreover have "leases t1 = []" by (subst t1) simp
  ultimately show "map_of (leases t') = map_of (leases s)"
    unfolding t'_def t' using restore_leases(1) [of ?ls t1] map_of_self_keyed [where f = lease_id, OF wf(2) lid, of ?ls]
    by (simp add: t2_def)
  show "fst (restore_snapshot js blob (sha256_hex blob) t) = Inr ()" "members t' = members s"
    "revision t' = revision s" "compacted_revision t' = compacted_revision s"
    by (simp_all add: t'_def t')
qed

text \<open>A restored store has no history, so reads at a past revision find no key in it.\<close>

lemma restore_no_history:
  assumes "fst (restore_snapshot js blob digest t) = Inr ()"
  shows "get_at_revision (snd (restore_snapshot js blob digest t)) k rv = None"
proof -
  have kvs: "history (fold restore_kv kvs u) = history u" for kvs u
    by (induction kvs arbitrary: u) (simp_all add: restore_kv_def index_push_def)
  have ls: "history (fold (\<lambda>l u. u\<lparr>leases := AList.update (lease_id l) l (leases u)\<rparr>) ls u) = history u" for ls u
    by (induction ls arbitrary: u) simp_all
  have "history (snd (restore_snapshot js blob digest t)) = []"
    using assms by (auto simp: restore_snapshot_def Let_def kvs ls split: if_splits sum.splits option.splits)
  then show ?thesis by (simp add: get_at_revision_def split: option.splits)
qed

text \<open>
  C23: a snapshot moves a store. Take a store after any commands and stream its snapshot. The
  chunks reassemble; restoring the result into any other store succeeds and gives it the same
  live pairs, leases, members, revision and compacted revision, keeps the consistency of live
  keys, index and history, and makes it answer every read of the present exactly like the
  original. The past is not moved: at no revision does the restored store find a key through its
  history. The hypothesis is that the JSON library reads back what it wrote.
\<close>

theorem snapshot_restore_roundtrip:
  assumes "json_roundtrip js"
  shows "let s = run cs (new_store now)
         in \<exists>blob digest.
           assemble_chunks (snapshot_stream js s) = Inr (blob, digest) \<and>
           (let (r, t') = restore_snapshot js blob digest t
            in r = Inr () \<and> mvcc_wf t' \<and> map_of (current t') = map_of (current s) \<and>
               map_of (leases t') = map_of (leases s) \<and> members t' = members s \<and>
               revision t' = revision s \<and> compacted_revision t' = compacted_revision s \<and>
               (\<forall>req. rg_revision req = None \<longrightarrow> kv_range t' req = kv_range s req) \<and>
               (\<forall>k rv. get_at_revision t' k rv = None))"
proof -
  define s where "s = run cs (new_store now)"
  let ?blob = "fst (snapshot_blob js s)"
  have wf: "mvcc_wf s" "lease_wf s"
    unfolding s_def by (simp_all add: run_wf new_store_wf run_lease_wf new_store_lease_wf)
  obtain b where "js_to_vec js (payload_of s) = Some b" "js_from_slice js b = Inr (fields_of (payload_of s))"
    using assms(1) unfolding json_roundtrip_def by blast
  then have "js_from_slice js ?blob = Inr (fields_of (payload_of s))"
    by (simp add: snapshot_blob_def Let_def)
  note r = restore_snapshot_result [OF wf this, of t]
  let ?t = "snd (restore_snapshot js ?blob (sha256_hex ?blob) t)"
  have "kv_range ?t req = kv_range s req" if now: "rg_revision req = None" for req
  proof -
    obtain kvs kvs' where k: "kv_range ?t req = Inr (range_reply ?t req kvs')"
      "visible_sorted (map_of (current ?t)) req kvs'" "kv_range s req = Inr (range_reply s req kvs)"
      "visible_sorted (map_of (current s)) req kvs"
      using kv_range_visible [OF r(2) now] kv_range_visible [OF wf(1) now] by blast
    have "kvs' = kvs" using k(2,4) r(3) by (simp add: visible_sorted_unique)
    moreover have h: "header ?t = header s" by (simp add: header_def current_revision_def r(6))
    have "range_reply ?t req kvs = range_reply s req kvs" unfolding range_reply_def h ..
    ultimately show ?thesis using k(1,3) by simp
  qed
  with r snapshot_stream_assembles [of js s] restore_no_history [OF r(1)] show ?thesis
    unfolding Let_def s_def [symmetric]
    by (intro exI [of _ ?blob] exI [of _ "sha256_hex ?blob"]) (simp add: case_prod_beta)
qed

text \<open>A stand-in for the JSON library: the number of the payload, written in unary.\<close>

definition kv_tuple :: "key_value \<Rightarrow> bytes \<times> bytes \<times> u64 \<times> u64 \<times> u64 \<times> i64 option" where
  "kv_tuple kv = (kv_key kv, kv_value kv, create_revision kv, mod_revision kv, version kv, kv_lease kv)"

definition lease_tuple :: "lease \<Rightarrow> i64 \<times> i64 \<times> i64 \<times> string list" where
  "lease_tuple l = (lease_id l, lease_ttl l, lease_granted_at l, lease_keys l)"

definition member_tuple :: "member \<Rightarrow> u64 \<times> string \<times> string list \<times> string list \<times> bool" where
  "member_tuple m = (mb_id m, mb_name m, mb_peer_urls m, mb_client_urls m, mb_is_learner m)"

definition payload_number :: "payload \<Rightarrow> nat" where
  "payload_number p =
     to_nat (pl_revision p, pl_compact_revision p, map kv_tuple (pl_kvs p),
             map lease_tuple (pl_leases p), map member_tuple (pl_members p))"

lemma inj_tuples: "inj kv_tuple" "inj lease_tuple" "inj member_tuple"
  by (auto simp: inj_on_def kv_tuple_def lease_tuple_def member_tuple_def)

lemma inj_payload_number: "inj payload_number"
proof (rule injI)
  fix p q assume "payload_number p = payload_number q"
  then have "pl_revision p = pl_revision q" "pl_compact_revision p = pl_compact_revision q"
    "map kv_tuple (pl_kvs p) = map kv_tuple (pl_kvs q)"
    "map lease_tuple (pl_leases p) = map lease_tuple (pl_leases q)"
    "map member_tuple (pl_members p) = map member_tuple (pl_members q)"
    unfolding payload_number_def by (simp_all add: inj_eq [OF inj_to_nat])
  then show "p = q" using inj_tuples by (simp add: inj_map_eq_map payload.equality)
qed

definition demo_json :: json where
  "demo_json =
     \<lparr>js_to_vec = (\<lambda>p. Some (replicate (payload_number p) (CHR ''1''))),
      js_from_slice = (\<lambda>b. if length b \<in> range payload_number
                          then Inr (fields_of (inv payload_number (length b))) else Inl ''no payload'')\<rparr>"

lemma demo_json_roundtrip: "json_roundtrip demo_json"
  by (simp add: json_roundtrip_def demo_json_def inv_f_f [OF inj_payload_number])

theorem snapshot_restore_roundtrip_witness:
  "let s = run [CPut (demo_put ''a'' ''1'')] (new_store 0)
   in \<exists>blob digest. assemble_chunks (snapshot_stream demo_json s) = Inr (blob, digest) \<and>
        map_of (current (snd (restore_snapshot demo_json blob digest (new_store 9)))) ''a'' \<noteq> None"
proof -
  let ?s = "run [CPut (demo_put ''a'' ''1'')] (new_store 0)"
  have live: "map_of (current ?s) ''a'' \<noteq> None" by code_simp
  obtain blob digest where b: "assemble_chunks (snapshot_stream demo_json ?s) = Inr (blob, digest)"
    "map_of (current (snd (restore_snapshot demo_json blob digest (new_store 9)))) = map_of (current ?s)"
    using snapshot_restore_roundtrip [OF demo_json_roundtrip, of "[CPut (demo_put ''a'' ''1'')]" 0 "new_store 9"]
    unfolding Let_def case_prod_beta by blast
  show ?thesis
    unfolding Let_def by (intro exI [of _ blob] exI [of _ digest] conjI b(1)) (simp only: b(2) live not_False_eq_True)
qed

subsection \<open>Draining a sender\<close>

text \<open>A receiver that asks for up to \<open>n\<close> chunks and stops at the end of the stream or an error.\<close>

fun pull :: "nat \<Rightarrow> string \<Rightarrow> kv_store \<Rightarrow> stream_chunk list \<times> kv_store" where
  "pull 0 i s = ([], s)"
| "pull (Suc n) i s =
     (case snapshot_sender_next_chunk i s of
        (Inr (Some c), s) \<Rightarrow> (let (cs, s) = pull n i s in (c # cs, s))
      | (_, s) \<Rightarrow> ([], s))"

definition sending :: "string \<Rightarrow> bytes \<Rightarrow> string \<Rightarrow> nat \<Rightarrow> kv_store \<Rightarrow> bool" where
  "sending i blob digest sent s \<longleftrightarrow>
     sent \<le> length blob \<and> map_of (snapshot_blobs s) i = Some blob \<and>
     (\<exists>st. map_of (snapshot_senders s) i = Some st \<and> ss_sent_bytes st = sent \<and>
           ss_checksum st = digest \<and> (ss_completed st \<longleftrightarrow> sent = length blob))"

lemma sender_step:
  assumes "sending i blob digest sent s" and "sent < length blob"
  shows "\<exists>c s'. snapshot_sender_next_chunk i s = (Inr (Some c), s') \<and>
           sc_blob c = take SNAPSHOT_CHUNK_SIZE (drop sent blob) \<and> sc_checksum c = digest \<and>
           sc_remaining_bytes c = length blob - (sent + SNAPSHOT_CHUNK_SIZE) \<and>
           sending i blob digest (min (sent + SNAPSHOT_CHUNK_SIZE) (length blob)) s'"
proof -
  obtain st where st: "map_of (snapshot_senders s) i = Some st" "ss_sent_bytes st = sent"
    "ss_checksum st = digest" "\<not> ss_completed st" "map_of (snapshot_blobs s) i = Some blob"
    using assms by (auto simp: sending_def)
  have "take (min (sent + SNAPSHOT_CHUNK_SIZE) (length blob) - sent) (drop sent blob) =
      take SNAPSHOT_CHUNK_SIZE (drop sent blob)"
    by (cases "sent + SNAPSHOT_CHUNK_SIZE \<le> length blob") (simp_all add: min_def)
  moreover have "length blob - min (sent + SNAPSHOT_CHUNK_SIZE) (length blob) =
      length blob - (sent + SNAPSHOT_CHUNK_SIZE)" by simp
  ultimately show ?thesis
    using st by (simp add: snapshot_sender_next_chunk_def SNAPSHOT_SENDER_CHUNK_SIZE_def sending_def Let_def)
      (simp add: min_def)
qed

lemma sender_done:
  "sending i blob digest (length blob) s \<Longrightarrow> snapshot_sender_next_chunk i s = (Inr None, s)"
  by (auto simp: sending_def snapshot_sender_next_chunk_def)

lemma pull_drains:
  assumes "sending i blob digest sent s" and "length blob - sent \<le> n * SNAPSHOT_CHUNK_SIZE"
  shows "concat (map sc_blob (fst (pull n i s))) = drop sent blob \<and>
         (\<forall>c \<in> set (fst (pull n i s)). sc_checksum c = digest) \<and>
         sending i blob digest (length blob) (snd (pull n i s))"
  using assms
proof (induction n arbitrary: s sent)
  case 0
  then have "sent = length blob" by (auto simp: sending_def)
  with 0 show ?case by simp
next
  case (Suc n)
  show ?case
  proof (cases "sent < length blob")
    case True
    let ?stop = "min (sent + SNAPSHOT_CHUNK_SIZE) (length blob)"
    obtain c s' where c: "snapshot_sender_next_chunk i s = (Inr (Some c), s')"
      "sc_blob c = take SNAPSHOT_CHUNK_SIZE (drop sent blob)" "sc_checksum c = digest"
      "sending i blob digest ?stop s'"
      using sender_step [OF Suc.prems(1) True] by blast
    have "length blob - ?stop \<le> n * SNAPSHOT_CHUNK_SIZE" using Suc.prems(2) by (simp add: min_def) linarith
    note IH = Suc.IH [OF c(4) this]
    have "take SNAPSHOT_CHUNK_SIZE (drop sent blob) @ drop ?stop blob = drop sent blob"
      by (cases "sent + SNAPSHOT_CHUNK_SIZE \<le> length blob")
        (simp_all add: min_def add.commute flip: drop_drop)
    with IH c show ?thesis by (simp add: case_prod_beta Let_def)
  next
    case False
    then have "sent = length blob" using Suc.prems(1) by (auto simp: sending_def)
    with Suc.prems sender_done [of i blob digest s] show ?thesis by simp
  qed
qed

text \<open>
  C27: every opened sender delivers its snapshot. Open a sender and pull chunks. Once at least
  one more chunk has been asked for than the full chunks the snapshot has, the stream has ended:
  the chunks put together are the snapshot blob, each carries its checksum, they reassemble if
  there are any, and every further request says that the stream is over.
\<close>

theorem sender_delivers:
  assumes "snapshot_sender_open js client s = ((i, meta, st), s1)"
    and "sm_size_bytes meta div 32768 < n"
  shows "let (chunks, s2) = pull n i s1; blob = fst (snapshot_blob js s)
         in concat (map sc_blob chunks) = blob \<and>
            (\<forall>c \<in> set chunks. sc_checksum c = sm_checksum meta) \<and>
            (blob \<noteq> [] \<longrightarrow> assemble_chunks chunks = Inr (blob, sm_checksum meta)) \<and>
            snapshot_sender_next_chunk i s2 = (Inr None, s2)"
proof -
  let ?blob = "fst (snapshot_blob js s)"
  have meta: "sm_checksum meta = sha256_hex ?blob" "sm_size_bytes meta = length ?blob"
    and s1: "sending i ?blob (sha256_hex ?blob) 0 s1"
    using assms(1) by (auto simp: snapshot_sender_open_def snapshot_blob_def sending_def Let_def)
  have "length ?blob < n * 32768" using assms(2) by (simp add: meta(2) div_less_iff_less_mult)
  then have "length ?blob - 0 \<le> n * SNAPSHOT_CHUNK_SIZE" by (simp add: SNAPSHOT_CHUNK_SIZE_def)
  note p = pull_drains [OF s1 this]
  have "assemble_chunks (fst (pull n i s1)) = Inr (?blob, sm_checksum meta)" if "?blob \<noteq> []"
    using p that unfolding assemble_chunks_iff by (auto simp: meta)
  with p sender_done [of i ?blob "sha256_hex ?blob"] show ?thesis
    by (simp add: case_prod_beta meta(1))
qed

theorem sender_delivers_witness:
  "let ((i, meta, st), s1) = snapshot_sender_open demo_json ''c'' (new_store 0);
       n = sm_size_bytes meta div 32768 + 1
   in concat (map sc_blob (fst (pull n i s1))) = fst (snapshot_blob demo_json (new_store 0))"
proof -
  obtain i meta st s1 where o: "snapshot_sender_open demo_json ''c'' (new_store 0) = ((i, meta, st), s1)"
    by (metis prod.exhaust)
  from sender_delivers [OF this, of "sm_size_bytes meta div 32768 + 1"] show ?thesis
    by (simp only: o Let_def prod.case case_prod_beta less_add_one fst_conv snd_conv True_implies_equals
        simp_thms)
qed

end
