(* ===== verification/Etcd_Wal.thy ===== *)
theory Etcd_Wal
  imports Etcd_Leases
begin

section \<open>The write-ahead log\<close>

text \<open>
  \<open>cave-etcd/src/wal.rs\<close>: the framed record stream of mutations, its scan at opening, truncation
  and replay into a store. The file is the list of its bytes. A write that fails has put the
  first bytes of its data into the file: with \<open>fault = Some k\<close> the write, or the flush or sync
  after it, fails when \<open>k\<close> bytes have reached the file. The JSON encoder and the CRC-32 of \<open>crc32fast\<close> are the fields of \<open>wal_env\<close>.
\<close>

unbundle bit_operations_syntax

subsection \<open>Standard library: little-endian integers and lossy UTF-8\<close>

definition u32_to_le_bytes :: "u32 \<Rightarrow> bytes" where
  "u32_to_le_bytes w = map (\<lambda>i. char_of (unat (take_bit 8 (drop_bit i w)))) [0, 8, 16, 24]"

definition u32_from_le_bytes :: "bytes \<Rightarrow> u32" where
  "u32_from_le_bytes bs = foldr (\<lambda>b w. w * 256 + of_nat (of_char b)) bs 0"

text \<open>
  One step of the scan of \<open>String::from_utf8_lossy\<close> over byte values: the length of the sequence
  at the front and whether it is a character. Bytes behind the end read as zero.
\<close>

definition utf8_cont :: "nat \<Rightarrow> bool" where
  "utf8_cont b \<longleftrightarrow> 128 \<le> b \<and> b \<le> 191"

definition utf8_second_of_three :: "nat \<Rightarrow> nat \<Rightarrow> bool" where
  "utf8_second_of_three a b \<longleftrightarrow>
     (if a = 224 then 160 \<le> b \<and> b \<le> 191
      else if a = 237 then 128 \<le> b \<and> b \<le> 159 else utf8_cont b)"

definition utf8_second_of_four :: "nat \<Rightarrow> nat \<Rightarrow> bool" where
  "utf8_second_of_four a b \<longleftrightarrow>
     (if a = 240 then 144 \<le> b \<and> b \<le> 191
      else if a = 244 then 128 \<le> b \<and> b \<le> 143 else utf8_cont b)"

definition utf8_step :: "bytes \<Rightarrow> nat \<times> bool" where
  "utf8_step bs =
     (let g = (\<lambda>i. if i < length bs then of_char (bs ! i) else (0 :: nat));
          a = g 0; b = g 1; c = g 2; d = g 3
      in if a < 128 then (1, True)
         else if 194 \<le> a \<and> a \<le> 223 then (if utf8_cont b then (2, True) else (1, False))
         else if 224 \<le> a \<and> a \<le> 239
         then (if \<not> utf8_second_of_three a b then (1, False)
               else if utf8_cont c then (3, True) else (2, False))
         else if 240 \<le> a \<and> a \<le> 244
         then (if \<not> utf8_second_of_four a b then (1, False)
               else if \<not> utf8_cont c then (2, False)
               else if utf8_cont d then (4, True) else (3, False))
         else (1, False))"

lemma utf8_step_pos: "(n, ok) = utf8_step bs \<Longrightarrow> 0 < n"
  by (auto simp: utf8_step_def Let_def split: if_splits)

text \<open>An invalid sequence becomes the replacement character U+FFFD.\<close>

definition REPLACEMENT :: bytes where
  "REPLACEMENT = map char_of [239, 191, 189 :: nat]"

function from_utf8_lossy :: "bytes \<Rightarrow> string" where
  "from_utf8_lossy bs =
     (if bs = [] then []
      else let (n, ok) = utf8_step bs
           in (if ok then take n bs else REPLACEMENT) @ from_utf8_lossy (drop n bs))"
  by pat_completeness auto
termination
  by (relation "measure length") (auto dest: utf8_step_pos)

declare from_utf8_lossy.simps [simp del]

function utf8_valid :: "bytes \<Rightarrow> bool" where
  "utf8_valid bs =
     (if bs = [] then True
      else let (n, ok) = utf8_step bs in ok \<and> utf8_valid (drop n bs))"
  by pat_completeness auto
termination
  by (relation "measure length") (auto dest: utf8_step_pos)

declare utf8_valid.simps [simp del]

lemma from_utf8_lossy_valid: "utf8_valid bs \<Longrightarrow> from_utf8_lossy bs = bs"
proof (induction bs rule: utf8_valid.induct)
  case (1 bs)
  then show ?case
    by (auto simp: utf8_valid.simps [of bs] from_utf8_lossy.simps [of bs] split: prod.splits if_splits)
qed

subsection \<open>Records\<close>

datatype wal_op =
    WPut bytes bytes "i64 option"
  | WDelete bytes "bytes option"
  | WTxn "wal_op list"
  | WCompact i64
  | WLeaseGrant i64 i64
  | WLeaseRevoke i64

record entry_record =
  er_index :: u64
  er_term :: u64
  er_op :: wal_op

datatype wal_record =
    WMetadata u64 u64
  | WEntry entry_record
  | WState u64 u64 "u64 option"
  | WSnapshot u64 u64

datatype wal_error =
    WalIo
  | PayloadTooLarge u32
  | Corrupt u64 u32 u32
  | Encode string
  | Decode string

record wal_env =
  wal_to_vec :: "wal_record \<Rightarrow> string + bytes"
  wal_from_slice :: "bytes \<Rightarrow> string + wal_record"
  crc32 :: "bytes \<Rightarrow> u32"

definition RECORD_HEADER_LEN :: usize where
  "RECORD_HEADER_LEN = 8"

definition MAX_PAYLOAD_LEN :: u32 where
  "MAX_PAYLOAD_LEN = 8 * 1024 * 1024"

text \<open>
  A log handle: the contents of \<open>wal.log\<close> behind \<open>file\<close>, whose cursor is at the end, and the two
  counters. The directory is not part of it: every path is \<open>wal.log\<close> or its temporary sibling.
\<close>

record wal =
  wal_file :: bytes
  last_entry_index :: u64
  record_count :: u64

subsection \<open>Writing\<close>

definition write_all :: "nat option \<Rightarrow> bytes \<Rightarrow> bytes \<Rightarrow> bytes \<times> wal_error option" where
  "write_all fault out data =
     (case fault of
        Some k \<Rightarrow> (out @ take k data, Some WalIo)
      | None \<Rightarrow> (out @ data, None))"

definition write_record ::
  "wal_env \<Rightarrow> nat option \<Rightarrow> wal_record \<Rightarrow> bytes \<Rightarrow> bytes \<times> wal_error option" where
  "write_record env fault rec out =
     (case wal_to_vec env rec of
        Inl e \<Rightarrow> (out, Some (Encode e))
      | Inr payload \<Rightarrow>
          if int (length payload) > uint MAX_PAYLOAD_LEN
          then (out, Some (PayloadTooLarge (of_nat (length payload))))
          else let len = of_nat (length payload);
                   crc = crc32 env payload
               in write_all fault out (u32_to_le_bytes len @ u32_to_le_bytes crc @ payload))"

definition wal_append :: "wal_env \<Rightarrow> nat option \<Rightarrow> wal_record \<Rightarrow> wal \<Rightarrow> wal_error option \<times> wal" where
  "wal_append env fault rec self =
     (let (file, err) = write_record env fault rec (wal_file self);
          self = self\<lparr>wal_file := file\<rparr>
      in case err of
           Some e \<Rightarrow> (Some e, self)
         | None \<Rightarrow> (None, self\<lparr>record_count := record_count self + 1\<rparr>))"

definition append_entry ::
  "wal_env \<Rightarrow> nat option \<Rightarrow> u64 \<Rightarrow> wal_op \<Rightarrow> wal \<Rightarrow> (wal_error + u64) \<times> wal" where
  "append_entry env fault trm op self =
     (let index = last_entry_index self + 1;
          rec = WEntry \<lparr>er_index = index, er_term = trm, er_op = op\<rparr>;
          (file, err) = write_record env fault rec (wal_file self);
          self = self\<lparr>wal_file := file\<rparr>
      in case err of
           Some e \<Rightarrow> (Inl e, self)
         | None \<Rightarrow> (Inr index, self\<lparr>last_entry_index := index,
                                    record_count := record_count self + 1\<rparr>))"

definition next_entry_index :: "wal \<Rightarrow> u64" where
  "next_entry_index self = last_entry_index self + 1"

subsection \<open>Reading\<close>

text \<open>
  \<open>replay_file\<close> and \<open>scan_for_valid_end\<close> read one frame after the other; \<open>rest\<close> is what the
  reader has not consumed. \<open>read_exact\<close> of fewer bytes than asked for ends the loop.
\<close>

function replay_loop ::
  "wal_env \<Rightarrow> bytes \<Rightarrow> u64 \<Rightarrow> wal_record list \<Rightarrow> wal_error + wal_record list" where
  "replay_loop env rest offset out =
     (if length rest < RECORD_HEADER_LEN then Inr out
      else
        let len = u32_from_le_bytes (take 4 rest);
            crc_expected = u32_from_le_bytes (take 4 (drop 4 rest));
            body = drop RECORD_HEADER_LEN rest
        in if len > MAX_PAYLOAD_LEN then Inr out
           else if length body < unat len then Inr out
           else
             let payload = take (unat len) body;
                 crc_got = crc32 env payload
             in if crc_got \<noteq> crc_expected then Inl (Corrupt offset crc_expected crc_got)
                else case wal_from_slice env payload of
                       Inl e \<Rightarrow> Inl (Decode (''at offset '' @ show_nat offset @ '': '' @ e))
                     | Inr rec \<Rightarrow>
                         replay_loop env (drop (unat len) body)
                           (offset + RECORD_HEADER_LEN + unat len) (out @ [rec]))"
  by pat_completeness auto
termination
  by (relation "measure (\<lambda>(env, rest, offset, out). length rest)") (auto simp: RECORD_HEADER_LEN_def)

declare replay_loop.simps [simp del]

definition replay_file :: "wal_env \<Rightarrow> bytes option \<Rightarrow> wal_error + wal_record list" where
  "replay_file env file =
     (case file of None \<Rightarrow> Inr [] | Some f \<Rightarrow> replay_loop env f 0 [])"

function scan_loop ::
  "wal_env \<Rightarrow> bytes \<Rightarrow> u64 \<Rightarrow> u64 \<Rightarrow> u64 \<Rightarrow> wal_error + u64 \<times> u64 \<times> u64" where
  "scan_loop env rest last_index count good_end =
     (if length rest < RECORD_HEADER_LEN then Inr (last_index, count, good_end)
      else
        let len = u32_from_le_bytes (take 4 rest);
            crc_expected = u32_from_le_bytes (take 4 (drop 4 rest));
            body = drop RECORD_HEADER_LEN rest
        in if len > MAX_PAYLOAD_LEN then Inr (last_index, count, good_end)
           else if length body < unat len then Inr (last_index, count, good_end)
           else
             let payload = take (unat len) body;
                 crc_got = crc32 env payload
             in if crc_got \<noteq> crc_expected then Inl (Corrupt good_end crc_expected crc_got)
                else
                  let last_index =
                        (case wal_from_slice env payload of
                           Inr (WEntry e) \<Rightarrow> if er_index e > last_index then er_index e else last_index
                         | _ \<Rightarrow> last_index)
                  in scan_loop env (drop (unat len) body) last_index (count + 1)
                       (good_end + RECORD_HEADER_LEN + unat len))"
  by pat_completeness auto
termination
  by (relation "measure (\<lambda>(env, rest, _). length rest)") (auto simp: RECORD_HEADER_LEN_def)

declare scan_loop.simps [simp del]

definition scan_for_valid_end :: "wal_env \<Rightarrow> bytes option \<Rightarrow> wal_error + u64 \<times> u64 \<times> u64" where
  "scan_for_valid_end env file =
     (case file of None \<Rightarrow> Inr (0, 0, 0) | Some f \<Rightarrow> scan_loop env f 0 0 0)"

text \<open>\<open>open\<close> creates a missing file and cuts a torn frame off the end.\<close>

definition wal_open :: "wal_env \<Rightarrow> bytes option \<Rightarrow> wal_error + wal" where
  "wal_open env file =
     (let f = (case file of Some f \<Rightarrow> f | None \<Rightarrow> [])
      in case scan_for_valid_end env (Some f) of
           Inl e \<Rightarrow> Inl e
         | Inr (last_index, count, valid_end) \<Rightarrow>
             let f = (if valid_end < length f then take valid_end f else f)
             in Inr \<lparr>wal_file = f, last_entry_index = last_index, record_count = count\<rparr>)"

definition wal_replay :: "wal_env \<Rightarrow> wal \<Rightarrow> wal_error + wal_record list" where
  "wal_replay env self = replay_file env (Some (wal_file self))"

text \<open>The write of the \<open>i\<close>-th record fails as \<open>faults i\<close> says.\<close>

fun write_records ::
  "wal_env \<Rightarrow> (nat \<Rightarrow> nat option) \<Rightarrow> nat \<Rightarrow> wal_record list \<Rightarrow> bytes \<Rightarrow> wal_error + bytes" where
  "write_records env faults i [] out = Inr out"
| "write_records env faults i (r # rs) out =
     (case write_record env (faults i) r out of
        (_, Some e) \<Rightarrow> Inl e
      | (out, None) \<Rightarrow> write_records env faults (Suc i) rs out)"

text \<open>
  \<open>truncate_through\<close> rewrites the kept records into the sibling file and renames it over the log;
  an error before the rename leaves the log as it was.
\<close>

definition truncate_through ::
  "wal_env \<Rightarrow> (nat \<Rightarrow> nat option) \<Rightarrow> u64 \<Rightarrow> wal \<Rightarrow> wal_error option \<times> wal" where
  "truncate_through env faults index self =
     (case replay_file env (Some (wal_file self)) of
        Inl e \<Rightarrow> (Some e, self)
      | Inr rs \<Rightarrow>
          let kept = filter (\<lambda>r. case r of WEntry e \<Rightarrow> er_index e > index | _ \<Rightarrow> True) rs
          in case write_records env faults 0 kept [] of
               Inl e \<Rightarrow> (Some e, self)
             | Inr out \<Rightarrow>
                 (case scan_for_valid_end env (Some out) of
                    Inl e \<Rightarrow> (Some e, self)
                  | Inr (last_index, count, _) \<Rightarrow>
                      (None, \<lparr>wal_file = out, last_entry_index = last_index, record_count = count\<rparr>)))"

subsection \<open>Replay into a store\<close>

text \<open>
  Granting a lease reads the clock; \<open>clk n\<close> is the \<open>n\<close>-th reading, and the number of readings
  so far goes along with the store.
\<close>

fun apply_op :: "(nat \<Rightarrow> i64) \<Rightarrow> wal_op \<Rightarrow> nat \<times> kv_store \<Rightarrow> nat \<times> kv_store" where
  "apply_op clk (WPut key val ls) (n, s) =
     (n, snd (put \<lparr>pt_key = from_utf8_lossy key, pt_value = from_utf8_lossy val, pt_lease = ls,
                    pt_prev_kv = False\<rparr> s))"
| "apply_op clk (WDelete key range_end) (n, s) =
     (n, snd (delete_range \<lparr>dl_key = from_utf8_lossy key,
                             dl_range_end = map_option from_utf8_lossy range_end,
                             dl_prev_kv = False\<rparr> s))"
| "apply_op clk (WTxn ops) ns = fold (apply_op clk) ops ns"
| "apply_op clk (WCompact rv) (n, s) = (n, snd (compaction (nat (rv mod 2 ^ 64)) s))"
| "apply_op clk (WLeaseGrant i ttl) (n, s) =
     (n + 1, snd (lease_grant (clk n) \<lparr>lg_ttl = ttl, lg_id = Some i\<rparr> s))"
| "apply_op clk (WLeaseRevoke i) (n, s) = (n, snd (lease_revoke i s))"

definition replay_record :: "(nat \<Rightarrow> i64) \<Rightarrow> wal_record \<Rightarrow> nat \<times> kv_store \<Rightarrow> nat \<times> kv_store" where
  "replay_record clk r ns = (case r of WEntry e \<Rightarrow> apply_op clk (er_op e) ns | _ \<Rightarrow> ns)"

definition replay_into_store ::
  "wal_env \<Rightarrow> (nat \<Rightarrow> i64) \<Rightarrow> wal \<Rightarrow> nat \<times> kv_store \<Rightarrow> nat \<times> kv_store" where
  "replay_into_store env clk self ns =
     (case wal_replay env self of
        Inl _ \<Rightarrow> ns
      | Inr records \<Rightarrow> fold (replay_record clk) records ns)"

subsection \<open>Frames\<close>

lemma u32_le_bytes_length [simp]: "length (u32_to_le_bytes w) = 4"
  by (simp add: u32_to_le_bytes_def)

lemma u32_le_bytes_roundtrip [simp]: "u32_from_le_bytes (u32_to_le_bytes w) = w"
proof -
  let ?n = "unat w"
  have lt: "?n < 2 ^ 32" by (rule order_less_le_trans [OF unsigned_less]) simp
  have byte: "unat (take_bit 8 (drop_bit i w)) = ?n div 2 ^ i mod 256" for i
    using take_bit_nat_eq_self [OF lt]
    by (simp add: unsigned_take_bit_eq unsigned_drop_bit_eq take_bit_eq_mod [of 8 "_ :: nat"]
        drop_bit_eq_div [of i "_ :: nat"])
  have "u32_from_le_bytes (u32_to_le_bytes w) =
      of_nat (((?n div 256 ^ 3 mod 256 * 256 + ?n div 256 ^ 2 mod 256) * 256 + ?n div 256 mod 256) * 256
        + ?n mod 256)"
    by (simp add: u32_from_le_bytes_def u32_to_le_bytes_def byte)
  also have "((?n div 256 ^ 3 mod 256 * 256 + ?n div 256 ^ 2 mod 256) * 256 + ?n div 256 mod 256) * 256
        + ?n mod 256 = ?n"
  proof -
    have "?n div 256 ^ 3 mod 256 = ?n div 256 ^ 3" using lt by (simp add: less_mult_imp_div_less)
    moreover have "?n div 256 ^ 2 = ?n div 256 ^ 3 * 256 + ?n div 256 ^ 2 mod 256"
      using div_mult_mod_eq [of "?n div 256 ^ 2" 256] by (simp add: div_mult2_eq [symmetric])
    moreover have "?n div 256 = ?n div 256 ^ 2 * 256 + ?n div 256 mod 256"
      using div_mult_mod_eq [of "?n div 256" 256] by (simp add: div_mult2_eq [symmetric])
    ultimately show ?thesis using div_mult_mod_eq [of ?n 256] by simp
  qed
  finally show ?thesis by simp
qed

definition storable :: "wal_env \<Rightarrow> wal_record \<Rightarrow> bool" where
  "storable env r \<longleftrightarrow>
     (\<exists>p. wal_to_vec env r = Inr p \<and> int (length p) \<le> uint MAX_PAYLOAD_LEN \<and> wal_from_slice env p = Inr r)"

definition frame :: "wal_env \<Rightarrow> wal_record \<Rightarrow> bytes" where
  "frame env r =
     (case wal_to_vec env r of
        Inr p \<Rightarrow> u32_to_le_bytes (of_nat (length p)) @ u32_to_le_bytes (crc32 env p) @ p
      | Inl _ \<Rightarrow> [])"

abbreviation frames :: "wal_env \<Rightarrow> wal_record list \<Rightarrow> bytes" where
  "frames env rs \<equiv> concat (map (frame env) rs)"

lemma storable_frame:
  assumes "storable env r"
  obtains p where "frame env r = u32_to_le_bytes (of_nat (length p)) @ u32_to_le_bytes (crc32 env p) @ p"
    and "wal_from_slice env p = Inr r" and "\<not> MAX_PAYLOAD_LEN < of_nat (length p)"
    and "unat (of_nat (length p) :: u32) = length p" and "wal_to_vec env r = Inr p"
    and "int (length p) \<le> uint MAX_PAYLOAD_LEN"
proof -
  obtain p where p: "wal_to_vec env r = Inr p" "int (length p) \<le> uint MAX_PAYLOAD_LEN"
    "wal_from_slice env p = Inr r" using assms by (auto simp: storable_def)
  then have len: "length p \<le> 8388608" by (simp add: MAX_PAYLOAD_LEN_def)
  then have u: "unat (of_nat (length p) :: u32) = length p" by (simp add: unsigned_of_nat take_bit_nat_eq_self)
  moreover have "\<not> MAX_PAYLOAD_LEN < of_nat (length p)"
    using len u by (simp add: MAX_PAYLOAD_LEN_def word_less_nat_alt)
  ultimately show ?thesis using that p by (simp add: frame_def)
qed

lemma write_record_storable:
  "storable env r \<Longrightarrow> write_record env None r out = (out @ frame env r, None)"
  by (erule storable_frame) (simp add: write_record_def write_all_def Let_def)

lemma frame_pos: "storable env r \<Longrightarrow> 0 < length (frame env r)"
  by (erule storable_frame) simp

text \<open>Reading over one frame, and reading a frame that is cut short.\<close>

definition top_index :: "u64 \<Rightarrow> wal_record \<Rightarrow> u64" where
  "top_index m r = (case r of WEntry e \<Rightarrow> max m (er_index e) | _ \<Rightarrow> m)"

lemma replay_frame:
  "storable env r \<Longrightarrow>
   replay_loop env (frame env r @ rest) offset out =
     replay_loop env rest (offset + length (frame env r)) (out @ [r])"
  by (erule storable_frame)
    (simp add: replay_loop.simps [of env "_ @ _"] RECORD_HEADER_LEN_def Let_def add.assoc)

lemma scan_frame:
  "storable env r \<Longrightarrow>
   scan_loop env (frame env r @ rest) m c g =
     scan_loop env rest (top_index m r) (c + 1) (g + length (frame env r))"
  by (erule storable_frame)
    (simp add: scan_loop.simps [of env "_ @ _"] RECORD_HEADER_LEN_def top_index_def Let_def add.assoc
      split: wal_record.split)

lemma torn_frame:
  assumes "storable env r" and "n < length (frame env r)"
  shows "replay_loop env (take n (frame env r)) offset out = Inr out"
    and "scan_loop env (take n (frame env r)) m c g = Inr (m, c, g)"
proof -
  obtain p where f: "frame env r = u32_to_le_bytes (of_nat (length p)) @ u32_to_le_bytes (crc32 env p) @ p"
    and u: "unat (of_nat (length p) :: u32) = length p"
    using assms(1) by (rule storable_frame)
  let ?t = "take n (frame env r)"
  have "length (drop 8 ?t) < unat (u32_from_le_bytes (take 4 ?t))" if "8 \<le> length ?t"
    using that assms(2) u by (simp add: f)
  then show "replay_loop env ?t offset out = Inr out" and "scan_loop env ?t m c g = Inr (m, c, g)"
    by (simp_all add: replay_loop.simps [of env ?t] scan_loop.simps [of env ?t]
        RECORD_HEADER_LEN_def Let_def del: length_take length_drop take_take drop_take)
qed

text \<open>The number of frames that lie completely in the first \<open>n\<close> bytes.\<close>

fun whole :: "wal_env \<Rightarrow> nat \<Rightarrow> wal_record list \<Rightarrow> nat" where
  "whole env n [] = 0"
| "whole env n (r # rs) =
     (if n < length (frame env r) then 0 else Suc (whole env (n - length (frame env r)) rs))"

lemma whole_bounds:
  "whole env n rs \<le> length rs"
  "length (frames env (take (whole env n rs) rs)) \<le> n"
  "whole env n rs < length rs \<Longrightarrow> n < length (frames env (take (Suc (whole env n rs)) rs))"
proof -
  show "whole env n rs \<le> length rs" by (induction rs arbitrary: n) auto
  show "length (frames env (take (whole env n rs) rs)) \<le> n"
  proof (induction rs arbitrary: n)
    case (Cons r rs)
    show ?case using Cons [of "n - length (frame env r)"] by auto
  qed simp
  show "n < length (frames env (take (Suc (whole env n rs)) rs))" if "whole env n rs < length rs"
    using that
  proof (induction rs arbitrary: n)
    case (Cons r rs)
    let ?m = "n - length (frame env r)"
    show ?case
    proof (cases "n < length (frame env r)")
      case False
      then have "?m < length (frames env (take (Suc (whole env ?m rs)) rs))"
        using Cons.prems by (intro Cons.IH) simp
      with False show ?thesis by simp
    qed simp
  qed simp
qed

lemma whole_ge: "length (frames env (take j rs)) \<le> n \<Longrightarrow> j \<le> length rs \<Longrightarrow> j \<le> whole env n rs"
proof (induction rs arbitrary: n j)
  case (Cons r rs)
  then show ?case by (cases j) auto
qed simp

lemma torn_log:
  assumes "\<forall>r \<in> set rs. storable env r"
  shows "replay_loop env (take n (frames env rs)) offset out = Inr (out @ take (whole env n rs) rs)"
    and "scan_loop env (take n (frames env rs)) m c g =
           Inr (foldl top_index m (take (whole env n rs) rs), c + whole env n rs,
                g + length (frames env (take (whole env n rs) rs)))"
  using assms
proof (induction rs arbitrary: n offset out m c g)
  case Nil
  {
    case 1
    show ?case by (simp add: replay_loop.simps RECORD_HEADER_LEN_def)
  next
    case 2
    show ?case by (simp add: scan_loop.simps RECORD_HEADER_LEN_def)
  }
next
  case (Cons r rs)
  {
    case 1
    then show ?case
      using Cons.IH(1) torn_frame(1) by (simp add: replay_frame)
  next
    case 2
    then show ?case
      using Cons.IH(2) torn_frame(2) by (simp add: scan_frame)
  }
qed

subsection \<open>Recovery after a crash\<close>

lemma append_storable:
  "storable env r \<Longrightarrow>
   wal_append env None r w = (None, w\<lparr>wal_file := wal_file w @ frame env r, record_count := record_count w + 1\<rparr>)"
  by (simp add: wal_append_def write_record_storable)

lemma wal_open_torn:
  fixes n :: nat
  assumes "\<forall>r \<in> set rs. storable env r"
  defines "k \<equiv> whole env n rs"
  shows "wal_open env (Some (take n (frames env rs))) =
           Inr \<lparr>wal_file = frames env (take k rs), last_entry_index = foldl top_index 0 (take k rs),
                record_count = k\<rparr>"
proof -
  let ?f = "take n (frames env rs)" and ?g = "frames env (take k rs)"
  have split: "frames env rs = ?g @ frames env (drop k rs)"
    by (metis append_take_drop_id concat_append map_append)
  have "length ?g \<le> n" unfolding k_def by (rule whole_bounds)
  then have "take (length ?g) ?f = ?g" using split by (metis append_eq_conv_conj min.absorb1 take_take)
  then have cut: "(if length ?g < length ?f then take (length ?g) ?f else ?f) = ?g"
    by (metis not_less take_all)
  have "scan_for_valid_end env (Some ?f) = Inr (foldl top_index 0 (take k rs), k, length ?g)"
    using torn_log(2) [OF assms(1), of n 0 0 0] by (simp add: scan_for_valid_end_def k_def)
  then show ?thesis by (simp only: wal_open_def option.case Let_def sum.case prod.case cut)
qed

lemma replay_frames:
  assumes "\<forall>r \<in> set rs. storable env r"
  shows "replay_loop env (frames env rs) offset out = Inr (out @ rs)"
  using torn_log(1) [OF assms, of "length (frames env rs)" offset out]
    whole_ge [of env "length rs" rs "length (frames env rs)"] by simp

text \<open>
  C11: a crash at any byte of the log loses whole records from its end only. Cut the file behind
  any byte of a sequence of appended records: opening it succeeds, cuts off the torn rest, and
  the log then replays exactly the records that were completely in the file, in order, with the
  counters to match. No record before the cut is lost and none is made up.
\<close>

theorem wal_crash_recovery:
  assumes "\<forall>r \<in> set rs. storable env r" and "wal_open env None = Inr w"
  shows "\<exists>k w'. wal_open env (Some (take n (wal_file (foldl (\<lambda>w r. snd (wal_append env None r w)) w rs)))) = Inr w' \<and>
           k \<le> length rs \<and> wal_replay env w' = Inr (take k rs) \<and>
           record_count w' = k \<and> last_entry_index w' = foldl top_index 0 (take k rs) \<and>
           length (wal_file w') \<le> n \<and>
           (k < length rs \<longrightarrow> n < length (wal_file w' @ frame env (rs ! k)))"
proof -
  have "wal_file (foldl (\<lambda>w r. snd (wal_append env None r w)) v rs) = wal_file v @ frames env rs" for v
    using assms(1) by (induction rs arbitrary: v) (simp_all add: append_storable)
  moreover have "wal_file w = []"
    using assms(2) wal_open_torn [of "[]" env 0] by (auto simp: wal_open_def)
  ultimately have log: "wal_file (foldl (\<lambda>w r. snd (wal_append env None r w)) w rs) = frames env rs" by simp
  define k where "k = whole env n rs"
  let ?w = "\<lparr>wal_file = frames env (take k rs), last_entry_index = foldl top_index 0 (take k rs),
    record_count = k\<rparr>"
  have "wal_open env (Some (take n (frames env rs))) = Inr ?w"
    unfolding k_def by (rule wal_open_torn [OF assms(1)])
  moreover have "wal_replay env ?w = Inr (take k rs)"
  proof -
    have "\<forall>r \<in> set (take k rs). storable env r" using assms(1) by (auto dest: in_set_takeD)
    then show ?thesis by (simp add: wal_replay_def replay_file_def replay_frames)
  qed
  moreover have "n < length (wal_file ?w @ frame env (rs ! k))" if "k < length rs"
    using whole_bounds(3) [of env n rs] that by (simp add: k_def [symmetric] take_Suc_conv_app_nth)
  moreover have "k \<le> length rs" and "length (wal_file ?w) \<le> n"
    unfolding k_def using whole_bounds(1,2) [of env n rs] by simp_all
  ultimately show ?thesis
    unfolding log by (intro exI [of _ k] exI [of _ ?w]) simp
qed

subsection \<open>The store after recovery\<close>

text \<open>The records of a sequence of operations, and the log they are appended to one by one.\<close>

definition entry_of :: "u64 \<Rightarrow> nat \<Rightarrow> wal_op \<Rightarrow> wal_record" where
  "entry_of trm i op = WEntry \<lparr>er_index = i, er_term = trm, er_op = op\<rparr>"

definition entries_of :: "u64 \<Rightarrow> wal_op list \<Rightarrow> wal_record list" where
  "entries_of trm ops = map2 (entry_of trm) [1 ..< Suc (length ops)] ops"

definition log_ops :: "wal_env \<Rightarrow> u64 \<Rightarrow> wal_op list \<Rightarrow> wal \<Rightarrow> wal" where
  "log_ops env trm ops w = foldl (\<lambda>w op. snd (append_entry env None trm op w)) w ops"

lemma entries_of_snoc: "entries_of trm (ops @ [op]) = entries_of trm ops @ [entry_of trm (Suc (length ops)) op]"
  by (simp add: entries_of_def upt_Suc_append [of "Suc 0" "Suc (length ops)"] del: upt_Suc)

lemma entries_of_length [simp]: "length (entries_of trm ops) = length ops"
  by (simp add: entries_of_def del: upt_Suc)

lemma top_index_entries: "foldl top_index 0 (entries_of trm ops) = length ops"
proof (induction ops rule: rev_induct)
  case Nil
  show ?case by (simp add: entries_of_def)
next
  case (snoc op ops)
  then show ?case by (simp add: entries_of_snoc top_index_def entry_of_def)
qed

lemma replay_entries: "fold (replay_record clk) (entries_of trm ops) ns = fold (apply_op clk) ops ns"
proof (induction ops rule: rev_induct)
  case Nil
  show ?case by (simp add: entries_of_def)
next
  case (snoc op ops)
  then show ?case by (simp add: entries_of_snoc replay_record_def entry_of_def)
qed

lemma log_ops_state:
  assumes "\<forall>r \<in> set (entries_of trm ops). storable env r"
  shows "log_ops env trm ops \<lparr>wal_file = [], last_entry_index = 0, record_count = 0\<rparr> =
           \<lparr>wal_file = frames env (entries_of trm ops), last_entry_index = length ops,
            record_count = length ops\<rparr>"
  using assms
proof (induction ops rule: rev_induct)
  case Nil
  show ?case by (simp add: entries_of_def log_ops_def)
next
  case (snoc op ops)
  let ?w = "log_ops env trm ops \<lparr>wal_file = [], last_entry_index = 0, record_count = 0\<rparr>"
  have IH: "?w = \<lparr>wal_file = frames env (entries_of trm ops), last_entry_index = length ops,
      record_count = length ops\<rparr>" using snoc by (simp add: entries_of_snoc)
  have "storable env (entry_of trm (Suc (length ops)) op)" using snoc.prems by (simp add: entries_of_snoc)
  then have "snd (append_entry env None trm op ?w) =
      \<lparr>wal_file = frames env (entries_of trm (ops @ [op])), last_entry_index = Suc (length ops),
       record_count = Suc (length ops)\<rparr>"
    unfolding IH
    by (simp add: append_entry_def entries_of_snoc write_record_storable entry_of_def [symmetric] Let_def)
  then show ?case by (simp add: log_ops_def)
qed

text \<open>
  C10: a power loss at any byte keeps or loses the most recent append, never a prior one. Log a
  sequence of operations and one more, and cut the file anywhere inside the last append: the log
  opens, replaying it into a store applies exactly the earlier operations in order, with or
  without the last one, and the next entry gets the next free index. When the cut is at the end
  nothing is lost.
\<close>

theorem wal_recovered_store:
  fixes ns :: "nat \<times> kv_store"
  assumes "\<forall>r \<in> set (entries_of trm (ops @ [op])). storable env r" and "wal_open env None = Inr w"
    and "length (wal_file (log_ops env trm ops w)) \<le> n"
  shows "\<exists>w'. wal_open env (Some (take n (wal_file (log_ops env trm (ops @ [op]) w)))) = Inr w' \<and>
           (replay_into_store env clk w' ns = fold (apply_op clk) (ops @ [op]) ns \<and>
              next_entry_index w' = length ops + 2 \<or>
            n < length (wal_file (log_ops env trm (ops @ [op]) w)) \<and>
              replay_into_store env clk w' ns = fold (apply_op clk) ops ns \<and>
              next_entry_index w' = length ops + 1)"
proof -
  define rs where "rs = entries_of trm (ops @ [op])"
  define k where "k = whole env n rs"
  have w: "w = \<lparr>wal_file = [], last_entry_index = 0, record_count = 0\<rparr>"
    using assms(2) by (simp add: wal_open_def scan_for_valid_end_def scan_loop.simps RECORD_HEADER_LEN_def)
  have st: "\<forall>r \<in> set (entries_of trm ops). storable env r" using assms(1) by (simp add: entries_of_snoc)
  have all: "wal_file (log_ops env trm (ops @ [op]) w) = frames env rs"
    and prior: "length (frames env (take (length ops) rs)) \<le> n"
    using assms(3) log_ops_state [OF assms(1)] log_ops_state [OF st]
    by (simp_all add: w rs_def) (simp add: entries_of_snoc)
  let ?w = "\<lparr>wal_file = frames env (take k rs), last_entry_index = foldl top_index 0 (take k rs),
    record_count = k\<rparr>"
  have opened: "wal_open env (Some (take n (frames env rs))) = Inr ?w"
    unfolding k_def rs_def by (rule wal_open_torn [OF assms(1)])
  have "\<forall>r \<in> set (take k rs). storable env r" using assms(1) by (auto simp: rs_def dest: in_set_takeD)
  then have replay: "replay_into_store env clk ?w ns = fold (replay_record clk) (take k rs) ns"
    by (simp add: replay_into_store_def wal_replay_def replay_file_def replay_frames)
  have "length rs = Suc (length ops)" by (simp add: rs_def)
  then have "length ops \<le> k" and "k \<le> Suc (length ops)"
    unfolding k_def using whole_ge [OF prior] whole_bounds(1) [of env n rs] by simp_all
  then consider "k = length ops" | "k = Suc (length ops)" by linarith
  then show ?thesis
  proof cases
    case 1
    then have "take k rs = entries_of trm ops" by (simp add: rs_def entries_of_snoc)
    moreover have "n < length (frames env rs)"
      using whole_bounds(3) [of env n rs] 1 \<open>length rs = _\<close> by (simp add: k_def [symmetric])
    ultimately show ?thesis
      using opened replay unfolding all by (simp add: next_entry_index_def top_index_entries replay_entries)
  next
    case 2
    then have "take k rs = entries_of trm (ops @ [op])" by (simp add: rs_def)
    then show ?thesis
      using opened replay unfolding all by (simp add: next_entry_index_def top_index_entries replay_entries)
  qed
qed

subsection \<open>Truncation\<close>

lemma write_records_result:
  assumes "\<forall>r \<in> set rs. storable env r"
  shows "write_records env faults i rs out = Inr (out @ frames env rs) \<or>
         (\<exists>e. write_records env faults i rs out = Inl e) \<and> (\<exists>j. faults j \<noteq> None)"
  using assms
proof (induction rs arbitrary: i out)
  case (Cons r rs)
  show ?case
  proof (cases "faults i")
    case None
    then show ?thesis using Cons.prems Cons.IH [of "Suc i" "out @ frame env r"]
      by (simp add: write_record_storable)
  next
    case (Some k)
    from Cons.prems have "storable env r" by simp
    then obtain p where "wal_to_vec env r = Inr p" and "int (length p) \<le> uint MAX_PAYLOAD_LEN"
      by (rule storable_frame)
    with Some show ?thesis by (auto simp: write_record_def write_all_def Let_def intro: exI [of _ i])
  qed
qed simp

lemma top_index_no_entry:
  "(\<And>e. WEntry e \<notin> set rs) \<Longrightarrow> foldl top_index m rs = m"
  by (induction rs arbitrary: m) (auto simp: top_index_def split: wal_record.split)

text \<open>
  C36: truncation keeps exactly the records behind the given entry and every record that is no
  entry, in order; a failed write leaves log and counters alone. The counters are computed from
  what is left: when every entry was covered, the next entry starts again at index 1.
\<close>

theorem wal_truncate_spec:
  assumes "\<forall>r \<in> set rs. storable env r" and "wal_file w = frames env rs"
  shows "case truncate_through env faults i w of
           (Some e, w') \<Rightarrow> w' = w \<and> (\<exists>j. faults j \<noteq> None)
         | (None, w') \<Rightarrow>
             let kept = filter (\<lambda>r. case r of WEntry e \<Rightarrow> i < er_index e | _ \<Rightarrow> True) rs
             in wal_replay env w' = Inr kept \<and> record_count w' = length kept \<and>
                next_entry_index w' = foldl top_index 0 kept + 1 \<and>
                ((\<forall>e. WEntry e \<in> set rs \<longrightarrow> er_index e \<le> i) \<longrightarrow> next_entry_index w' = 1)"
proof -
  define kept where "kept = filter (\<lambda>r. case r of WEntry e \<Rightarrow> i < er_index e | _ \<Rightarrow> True) rs"
  have st: "\<forall>r \<in> set kept. storable env r" using assms(1) by (simp add: kept_def)
  have read: "replay_file env (Some (wal_file w)) = Inr rs"
    using replay_frames [OF assms(1)] by (simp add: replay_file_def assms(2))
  have "whole env (length (frames env kept)) kept = length kept"
    using whole_bounds(1) [of env "length (frames env kept)" kept]
      whole_ge [of env "length kept" kept "length (frames env kept)"] by simp
  then have scan: "scan_for_valid_end env (Some (frames env kept)) =
      Inr (foldl top_index 0 kept, length kept, length (frames env kept))"
    using torn_log(2) [OF st, of "length (frames env kept)" 0 0 0] by (simp add: scan_for_valid_end_def)
  have none: "foldl top_index 0 kept = 0" if "\<forall>e. WEntry e \<in> set rs \<longrightarrow> er_index e \<le> i"
    using that by (intro top_index_no_entry) (auto simp: kept_def not_less)
  have kept: "wal_replay env \<lparr>wal_file = frames env kept, last_entry_index = l, record_count = c\<rparr> = Inr kept"
    for l c using replay_frames [OF st] by (simp add: wal_replay_def replay_file_def)
  show ?thesis
  proof (cases "write_records env faults 0 kept []")
    case (Inl e)
    then have "\<exists>j. faults j \<noteq> None" using write_records_result [OF st, of faults 0 "[]"] by auto
    with Inl show ?thesis by (simp add: truncate_through_def kept_def [symmetric] read Let_def)
  next
    case (Inr out)
    then have "write_records env faults 0 kept [] = Inr (frames env kept)"
      using write_records_result [OF st, of faults 0 "[]"] by auto
    with none show ?thesis
      by (simp add: truncate_through_def kept_def [symmetric] read scan kept next_entry_index_def Let_def)
  qed
qed

subsection \<open>An example\<close>

definition demo_op :: wal_op where
  "demo_op = WPut ''k'' ''v'' None"

text \<open>An encoder for the entries of the example, and a checksum that counts the bytes.\<close>

definition demo_wal_env :: wal_env where
  "demo_wal_env =
     \<lparr>wal_to_vec = (\<lambda>r. if r = entry_of 1 1 demo_op then Inr ''a''
                      else if r = entry_of 1 2 demo_op then Inr ''bb'' else Inl ''unsupported''),
      wal_from_slice = (\<lambda>p. if p = ''a'' then Inr (entry_of 1 1 demo_op)
                          else if p = ''bb'' then Inr (entry_of 1 2 demo_op) else Inl ''unsupported''),
      crc32 = (\<lambda>p. of_nat (length p))\<rparr>"

lemma demo_storable:
  "storable demo_wal_env (entry_of 1 1 demo_op)" "storable demo_wal_env (entry_of 1 2 demo_op)"
  by (simp_all add: storable_def demo_wal_env_def MAX_PAYLOAD_LEN_def entry_of_def)

lemma demo_opened: "wal_open env None = Inr \<lparr>wal_file = [], last_entry_index = 0, record_count = 0\<rparr>"
  by (simp add: wal_open_def scan_for_valid_end_def scan_loop.simps RECORD_HEADER_LEN_def)

lemma demo_entries:
  "entries_of 1 [demo_op] = [entry_of 1 1 demo_op]"
  "entries_of 1 [demo_op, demo_op] = [entry_of 1 1 demo_op, entry_of 1 2 demo_op]"
  by (simp_all add: entries_of_def upt_rec numeral_2_eq_2)

lemma demo_frames: "length (frame demo_wal_env (entry_of 1 1 demo_op)) = 9"
  by (simp add: frame_def demo_wal_env_def)

theorem wal_crash_recovery_witness:
  "\<exists>k w'. wal_open demo_wal_env
       (Some (take 12 (wal_file (foldl (\<lambda>w r. snd (wal_append demo_wal_env None r w))
          \<lparr>wal_file = [], last_entry_index = 0, record_count = 0\<rparr>
          [entry_of 1 1 demo_op, entry_of 1 2 demo_op])))) = Inr w' \<and> record_count w' = k \<and> k \<le> 2"
  using wal_crash_recovery [of "[entry_of 1 1 demo_op, entry_of 1 2 demo_op]" demo_wal_env _ 12,
      OF _ demo_opened] demo_storable by fastforce

theorem wal_recovered_store_witness:
  "\<exists>w'. wal_open demo_wal_env (Some (take 12 (wal_file (log_ops demo_wal_env 1 [demo_op, demo_op]
       \<lparr>wal_file = [], last_entry_index = 0, record_count = 0\<rparr>)))) = Inr w' \<and>
     next_entry_index w' \<in> {2, 3}"
proof -
  have "length (wal_file (log_ops demo_wal_env 1 [demo_op]
      \<lparr>wal_file = [], last_entry_index = 0, record_count = 0\<rparr>)) \<le> 12"
    using log_ops_state [of 1 "[demo_op]" demo_wal_env] demo_storable demo_frames
    by (simp add: demo_entries del: One_nat_def)
  then show ?thesis
    using wal_recovered_store [of 1 "[demo_op]" demo_op demo_wal_env _ 12 undefined undefined,
        OF _ demo_opened] demo_storable
    by (auto simp: demo_entries simp del: One_nat_def)
qed

theorem wal_truncate_spec_witness:
  "next_entry_index (snd (truncate_through demo_wal_env (\<lambda>_. None) 1
     \<lparr>wal_file = frame demo_wal_env (entry_of 1 1 demo_op), last_entry_index = 1, record_count = 1\<rparr>)) = 1"
  using wal_truncate_spec [of "[entry_of 1 1 demo_op]" demo_wal_env
      "\<lparr>wal_file = frame demo_wal_env (entry_of 1 1 demo_op), last_entry_index = 1, record_count = 1\<rparr>"
      1 "\<lambda>_. None"] demo_storable
  by (auto simp: Let_def entry_of_def split: prod.splits option.splits)

text \<open>
  A write that fails part way leaves its bytes in the file and the log in use: the next append
  succeeds behind them, and opening the file then drops the acknowledged entry with the rest.
\<close>

lemma failed_append_loses_next:
  "let fresh = \<lparr>wal_file = [], last_entry_index = 0, record_count = 0\<rparr>;
       (r, w) = append_entry demo_wal_env (Some 3) 1 demo_op fresh;
       (r', w') = append_entry demo_wal_env None 1 demo_op w
   in r = Inl WalIo \<and> r' = Inr 1 \<and> wal_open demo_wal_env (Some (wal_file w')) = Inr fresh"
  by code_simp

end
