(* ===== verification/Etcd_Cluster.thy ===== *)
theory Etcd_Cluster
  imports Etcd_Reads
begin

section \<open>Members, joint configurations, commit index and linearizable reads\<close>

text \<open>
  The cluster and maintenance operations of \<open>cave-etcd/src/store.rs\<close>: alarms, the content hash,
  the member table and its joint-consensus change, the commit index from the match indices, the
  pre-vote, the leader lease, linearizable reads and learner promotion. The clock is a function
  from the number of the reading to milliseconds where an operation reads it more than once.
\<close>

subsection \<open>Alarms and the content hash\<close>

definition alarm :: "alarm_request \<Rightarrow> kv_store \<Rightarrow> alarm_response \<times> kv_store" where
  "alarm req self =
     (let hit = (\<lambda>a. al_member_id a = ar_member_id req \<and> al_alarm a = ar_alarm req);
          self = (case ar_action req of
                    AlarmGet \<Rightarrow> self
                  | AlarmActivate \<Rightarrow>
                      if \<not> list_ex hit (alarms self)
                      then self\<lparr>alarms := alarms self @
                             [\<lparr>al_member_id = ar_member_id req, al_alarm = ar_alarm req\<rparr>]\<rparr>
                      else self
                  | AlarmDeactivate \<Rightarrow> self\<lparr>alarms := filter (\<lambda>a. \<not> hit a) (alarms self)\<rparr>)
      in (\<lparr>ars_header = header self, ars_alarms = alarms self\<rparr>, self))"

definition hash_byte :: "byte \<Rightarrow> u32 \<Rightarrow> u32" where
  "hash_byte b h = h * 33 + of_nat (of_char b)"

definition kv_hash :: "kv_store \<Rightarrow> hash_response" where
  "kv_hash self =
     (let pairs = sort_key fst (map (\<lambda>(k, kv). (k, kv_value kv)) (current self));
          h = fold (\<lambda>(k, v) h. fold hash_byte (k @ v) h) pairs 5381
      in \<lparr>hr_header = header self, hr_hash = h,
          hr_compact_revision = compacted_revision self,
          hr_hash_revision = current_revision self\<rparr>)"

subsection \<open>Members\<close>

text \<open>The allocation of a member id and the record of the new member.\<close>

definition new_member :: "member_add_request \<Rightarrow> kv_store \<Rightarrow> member \<times> kv_store" where
  "new_member req self =
     (let new_id = lease_counter self + 100
      in (\<lparr>mb_id = new_id, mb_name = ''member-'' @ show_nat new_id, mb_peer_urls = ma_peer_urls req,
           mb_client_urls = [], mb_is_learner = ma_is_learner req\<rparr>,
          self\<lparr>lease_counter := lease_counter self + 1\<rparr>))"

definition member_add :: "member_add_request \<Rightarrow> kv_store \<Rightarrow> member_add_response \<times> kv_store" where
  "member_add req self =
     (let (member, self) = new_member req self;
          self = self\<lparr>members := members self @ [member]\<rparr>
      in (\<lparr>mar_header = header self, mar_member = member, mar_members = members self\<rparr>, self))"

definition members_reply :: "kv_store \<Rightarrow> members_response" where
  "members_reply self = \<lparr>mr_header = header self, mr_members = members self\<rparr>"

definition member_remove :: "u64 \<Rightarrow> kv_store \<Rightarrow> members_response etcd_result \<times> kv_store" where
  "member_remove i self =
     (let before = length (members self);
          self = self\<lparr>members := filter (\<lambda>m. mb_id m \<noteq> i) (members self)\<rparr>
      in if length (members self) = before then (Inl (MemberNotFound i), self)
         else (Inr (members_reply self), self))"

text \<open>The update of the first member with a given id, as \<open>iter_mut().find\<close> gives it.\<close>

fun update_member :: "u64 \<Rightarrow> (member \<Rightarrow> member) \<Rightarrow> member list \<Rightarrow> member list" where
  "update_member i f [] = []"
| "update_member i f (m # ms) = (if mb_id m = i then f m # ms else m # update_member i f ms)"

definition member_update ::
  "u64 \<Rightarrow> string list \<Rightarrow> kv_store \<Rightarrow> members_response etcd_result \<times> kv_store" where
  "member_update i urls self =
     (case find (\<lambda>m. mb_id m = i) (members self) of
        None \<Rightarrow> (Inl (MemberNotFound i), self)
      | Some _ \<Rightarrow>
          (let self = self\<lparr>members := update_member i (\<lambda>m. m\<lparr>mb_peer_urls := urls\<rparr>) (members self)\<rparr>
           in (Inr (members_reply self), self)))"

definition member_list :: "kv_store \<Rightarrow> members_response" where
  "member_list self = members_reply self"

definition member_promote :: "u64 \<Rightarrow> kv_store \<Rightarrow> members_response etcd_result \<times> kv_store" where
  "member_promote i self =
     (case find (\<lambda>m. mb_id m = i) (members self) of
        None \<Rightarrow> (Inl (MemberNotFound i), self)
      | Some m \<Rightarrow>
          if \<not> mb_is_learner m then (Inl (MemberNotLearner i), self)
          else
            let self = self\<lparr>members := update_member i (\<lambda>m. m\<lparr>mb_is_learner := False\<rparr>) (members self)\<rparr>
            in (Inr (members_reply self), self))"

definition voter_ids :: "kv_store \<Rightarrow> u64 list" where
  "voter_ids self = map mb_id (filter (\<lambda>m. \<not> mb_is_learner m) (members self))"

definition learner_ids :: "kv_store \<Rightarrow> u64 list" where
  "learner_ids self = map mb_id (filter mb_is_learner (members self))"

text \<open>The loop that applies the additions and collects the new ids.\<close>

fun add_members :: "member_add_request list \<Rightarrow> kv_store \<Rightarrow> u64 list \<times> kv_store" where
  "add_members [] self = ([], self)"
| "add_members (add # adds) self =
     (let (m, self) = new_member add self;
          self = self\<lparr>members := members self @ [m]\<rparr>;
          (ids, self) = add_members adds self
      in (mb_id m # ids, self))"

definition enter_joint ::
  "enter_joint_request \<Rightarrow> kv_store \<Rightarrow> enter_joint_response etcd_result \<times> kv_store" where
  "enter_joint req self =
     (if joint self \<noteq> None then (Inl JointConfigInProgress, self)
      else
        let outgoing = voter_ids self;
            (added_ids, self) = add_members (ej_adds req) self;
            incoming = outgoing @
              map snd (filter (\<lambda>(add, _). \<not> ma_is_learner add) (zip (ej_adds req) added_ids));
            incoming = filter (\<lambda>i. i \<notin> set (ej_removes req)) incoming
        in if incoming = [] then (Inl WouldBreakQuorum, self)
           else
             let new_joint = \<lparr>jc_outgoing = outgoing, jc_incoming = incoming,
                              jc_learners = learner_ids self\<rparr>;
                 self = self\<lparr>joint := Some new_joint\<rparr>
             in (Inr \<lparr>ejr_header = header self, ejr_joint = new_joint, ejr_members = members self\<rparr>,
                 self))"

definition kv_leave_joint :: "kv_store \<Rightarrow> members_response etcd_result \<times> kv_store" where
  "kv_leave_joint self =
     (case joint self of
        None \<Rightarrow> (Inl NoJointConfig, self)
      | Some cfg \<Rightarrow>
          (let self = self\<lparr>joint := None\<rparr>;
               keep = set (jc_incoming cfg) \<union> set (jc_learners cfg);
               self = self\<lparr>members := filter (\<lambda>m. mb_id m \<in> keep) (members self)\<rparr>
           in (Inr (members_reply self), self)))"

definition quorum_size_for :: "usize \<Rightarrow> usize" where
  "quorum_size_for n = (if n = 0 then 1 else n div 2 + 1)"

definition voting_member_count :: "kv_store \<Rightarrow> usize" where
  "voting_member_count self = length (filter (\<lambda>m. \<not> mb_is_learner m) (members self))"

definition quorum_size :: "kv_store \<Rightarrow> usize" where
  "quorum_size self =
     (case joint self of
        Some cfg \<Rightarrow> max (quorum_size_for (length (jc_outgoing cfg)))
                      (quorum_size_for (length (jc_incoming cfg)))
      | None \<Rightarrow> quorum_size_for (voting_member_count self))"

subsection \<open>Role, term and commit index\<close>

definition set_raft_role :: "raft_role \<Rightarrow> kv_store \<Rightarrow> kv_store" where
  "set_raft_role role self = self\<lparr>kv_role := role\<rparr>"

definition bump_term :: "kv_store \<Rightarrow> u64 \<times> kv_store" where
  "bump_term self = (kv_term self + 1, self\<lparr>kv_term := kv_term self + 1\<rparr>)"

definition set_applied_index :: "u64 \<Rightarrow> kv_store \<Rightarrow> kv_store" where
  "set_applied_index idx self = self\<lparr>kv_applied_index := idx\<rparr>"

definition advance_commit_index :: "u64 \<Rightarrow> kv_store \<Rightarrow> kv_store" where
  "advance_commit_index idx self =
     (let prev = kv_commit_index self;
          self = self\<lparr>kv_commit_index := max prev idx\<rparr>;
          new = max idx prev;
          trigger = auto_leave_joint_at_index self
      in if trigger > 0 \<and> new \<ge> trigger \<and> joint self \<noteq> None
         then (snd (kv_leave_joint self))\<lparr>auto_leave_joint_at_index := 0\<rparr>
         else self)"

definition record_match_index :: "u64 \<Rightarrow> u64 \<Rightarrow> kv_store \<Rightarrow> kv_store" where
  "record_match_index i idx self = self\<lparr>kv_match_index := AList.update i idx (kv_match_index self)\<rparr>"

definition match_of :: "kv_store \<Rightarrow> u64 \<Rightarrow> u64" where
  "match_of self i = (case map_of (kv_match_index self) i of Some n \<Rightarrow> n | None \<Rightarrow> 0)"

definition commit_via_match_index :: "kv_store \<Rightarrow> u64 option" where
  "commit_via_match_index self =
     (let voters = voter_ids self
      in if voters = [] then None
         else let indexes = sort (map (match_of self) voters);
                  q = quorum_size_for (length voters)
              in Some (indexes ! (length indexes - q)))"

definition arm_auto_leave_joint :: "u64 \<Rightarrow> kv_store \<Rightarrow> kv_store" where
  "arm_auto_leave_joint trigger self = self\<lparr>auto_leave_joint_at_index := trigger\<rparr>"

definition pending_auto_leave_joint :: "kv_store \<Rightarrow> u64 option" where
  "pending_auto_leave_joint self =
     (let v = auto_leave_joint_at_index self in if v = 0 then None else Some v)"

subsection \<open>Leader lease and pre-vote\<close>

text \<open>
  Signed 64-bit arithmetic of the release build: a result outside the range wraps around. The cast
  of an unsigned 64-bit number keeps its bits.
\<close>

definition wrap_i64 :: "int \<Rightarrow> i64" where
  "wrap_i64 x = (x + 2 ^ 63) mod 2 ^ 64 - 2 ^ 63"

definition as_i64 :: "u64 \<Rightarrow> i64" where
  "as_i64 n = wrap_i64 (int n)"

lemma wrap_i64_id: "- (2 ^ 63) \<le> x \<Longrightarrow> x < 2 ^ 63 \<Longrightarrow> wrap_i64 x = x"
  by (simp add: wrap_i64_def)

lemma wrap_i64_bounds: "- (2 ^ 63) \<le> wrap_i64 x" "wrap_i64 x < 2 ^ 63"
  using pos_mod_bound [of "2 ^ 64" "x + 2 ^ 63"] pos_mod_sign [of "2 ^ 64" "x + 2 ^ 63"]
  by (simp_all add: wrap_i64_def)

definition refresh_leader_lease :: "i64 \<Rightarrow> kv_store \<Rightarrow> kv_store" where
  "refresh_leader_lease now self = self\<lparr>leader_lease_granted_at := now\<rparr>"

definition set_leader_lease_ttl_ms :: "u64 \<Rightarrow> kv_store \<Rightarrow> kv_store" where
  "set_leader_lease_ttl_ms ttl self = self\<lparr>leader_lease_ttl_ms := ttl\<rparr>"

definition leader_lease_active :: "i64 \<Rightarrow> kv_store \<Rightarrow> bool" where
  "leader_lease_active now self =
     (if kv_role self \<noteq> RLeader then False
      else wrap_i64 (now - leader_lease_granted_at self) \<le> as_i64 (leader_lease_ttl_ms self))"

definition pre_vote :: "i64 \<Rightarrow> u64 \<Rightarrow> kv_store \<Rightarrow> pre_vote_result" where
  "pre_vote now candidate_term self =
     (let cur = kv_term self
      in if candidate_term < cur
         then \<lparr>pv_granted = False, pv_term = cur,
               pv_reason = ''candidate term '' @ show_nat candidate_term @
                           '' below local term '' @ show_nat cur\<rparr>
         else if leader_lease_active now self
         then \<lparr>pv_granted = False, pv_term = cur, pv_reason = ''leader lease still valid''\<rparr>
         else \<lparr>pv_granted = True, pv_term = cur,
               pv_reason = ''leader unreachable; pre-vote granted''\<rparr>)"

definition local_member_id :: u64 where
  "local_member_id = 1"

text \<open>
  The loop that asks the peers. The closure that answers may keep state, so it is a function of
  the number of the call and the term.
\<close>

fun count_grants :: "(nat \<Rightarrow> u64 \<Rightarrow> pre_vote_result) \<Rightarrow> u64 \<Rightarrow> nat \<Rightarrow> member list \<Rightarrow> usize \<Rightarrow> usize" where
  "count_grants peer_pre_vote candidate_term n [] grants = grants"
| "count_grants peer_pre_vote candidate_term n (m # ms) grants =
     (if mb_is_learner m \<or> mb_id m = local_member_id
      then count_grants peer_pre_vote candidate_term n ms grants
      else let r = peer_pre_vote n candidate_term
           in count_grants peer_pre_vote candidate_term (n + 1) ms
                (if pv_granted r then grants + 1 else grants))"

definition step_pre_candidate ::
  "(nat \<Rightarrow> u64 \<Rightarrow> pre_vote_result) \<Rightarrow> kv_store \<Rightarrow> bool \<times> kv_store" where
  "step_pre_candidate peer_pre_vote self =
     (let self = set_raft_role RPreCandidate self;
          q = quorum_size_for (voting_member_count self);
          grants = count_grants peer_pre_vote (kv_term self + 1) 0 (members self) 1
      in if grants \<ge> q
         then let (_, self) = bump_term self in (True, set_raft_role RCandidate self)
         else (False, set_raft_role RFollower self))"

subsection \<open>Health and linearizable reads\<close>

definition mark_member_healthy :: "u64 \<Rightarrow> i64 \<Rightarrow> kv_store \<Rightarrow> kv_store" where
  "mark_member_healthy i now_ms self =
     self\<lparr>member_health := AList.update i now_ms (member_health self)\<rparr>"

definition healthy_member_count :: "i64 \<Rightarrow> kv_store \<Rightarrow> usize" where
  "healthy_member_count now self =
     (let ttl = as_i64 (leader_lease_ttl_ms self);
          healthy = 1 + length (filter (\<lambda>(i, t). i \<noteq> local_member_id \<and> wrap_i64 (now - t) \<le> ttl)
                                  (member_health self))
      in min healthy (length (members self)))"

definition quorum_healthy :: "i64 \<Rightarrow> kv_store \<Rightarrow> bool" where
  "quorum_healthy now self = (healthy_member_count now self \<ge> quorum_size self)"

definition read_index :: "i64 \<Rightarrow> kv_store \<Rightarrow> read_index_result etcd_result" where
  "read_index now self =
     (if kv_role self \<noteq> RLeader then Inl (EtcdNotLeader (kv_term self) None)
      else Inr \<lparr>ri_read_index = kv_commit_index self, ri_applied_index = kv_applied_index self,
                ri_via_leader_lease = leader_lease_active now self\<rparr>)"

text \<open>
  The waiting loop, with the number of the next clock reading. It ends because an iteration
  that neither breaks nor fails sets the applied index to the index waited for.
\<close>

function wait_applied ::
  "(nat \<Rightarrow> i64) \<Rightarrow> nat \<Rightarrow> u64 \<Rightarrow> i64 \<Rightarrow> kv_store \<Rightarrow> unit etcd_result \<times> kv_store" where
  "wait_applied clock n target deadline self =
     (if kv_applied_index self \<ge> target then (Inr (), self)
      else if clock n > deadline
      then (Inl (ReadIndexTimeout target (kv_applied_index self)), self)
      else wait_applied clock (n + 1) target deadline (set_applied_index target self))"
  by pat_completeness auto
termination
  by (relation "measure (\<lambda>(_, _, target, _, self). target - kv_applied_index self)")
    (auto simp: set_applied_index_def)

declare wait_applied.simps [simp del]

definition linearizable_read ::
  "(nat \<Rightarrow> i64) \<Rightarrow> range_request \<Rightarrow> u64 \<Rightarrow> kv_store \<Rightarrow> range_response etcd_result \<times> kv_store" where
  "linearizable_read clock req timeout_ms self =
     (case read_index (clock 0) self of
        Inl e \<Rightarrow> (Inl e, self)
      | Inr r \<Rightarrow>
          if \<not> quorum_healthy (clock 1) self
          then (Inl (QuorumLost (quorum_size self) (healthy_member_count (clock 2) self)), self)
          else
            let deadline = wrap_i64 (clock 2 + as_i64 timeout_ms)
            in case wait_applied clock 3 (ri_read_index r) deadline self of
                 (Inl e, self) \<Rightarrow> (Inl e, self)
               | (Inr _, self) \<Rightarrow> (kv_range self req, self))"

subsection \<open>Learners and background tasks\<close>

definition LEARNER_READY_LAG_THRESHOLD :: u64 where
  "LEARNER_READY_LAG_THRESHOLD = 10"

definition record_learner_index :: "u64 \<Rightarrow> u64 \<Rightarrow> kv_store \<Rightarrow> kv_store" where
  "record_learner_index i idx self = self\<lparr>learner_index := AList.update i idx (learner_index self)\<rparr>"

definition check_learner_promotion :: "kv_store \<Rightarrow> u64 \<Rightarrow> learner_readiness etcd_result" where
  "check_learner_promotion self i =
     (case find (\<lambda>m. mb_id m = i) (members self) of
        None \<Rightarrow> Inl (MemberNotFound i)
      | Some m \<Rightarrow>
          if \<not> mb_is_learner m then Inl (MemberNotLearner i)
          else
            let leader = kv_commit_index self;
                learner = (case map_of (learner_index self) i of Some n \<Rightarrow> n | None \<Rightarrow> 0);
                ready_lag = leader - learner
            in Inr \<lparr>lr_member_id = i, lr_leader_index = leader, lr_learner_index = learner,
                    lr_ready_lag = ready_lag,
                    lr_ready = (ready_lag \<le> LEARNER_READY_LAG_THRESHOLD)\<rparr>)"

definition ready_learners :: "kv_store \<Rightarrow> learner_readiness list" where
  "ready_learners self =
     filter lr_ready
       (List.map_filter (\<lambda>m. case check_learner_promotion self (mb_id m) of
                               Inr r \<Rightarrow> Some r | Inl _ \<Rightarrow> None)
          (filter mb_is_learner (members self)))"

definition shutdown_background_tasks :: "kv_store \<Rightarrow> kv_store" where
  "shutdown_background_tasks self = self\<lparr>bg_cancel := True\<rparr>"

subsection \<open>The commit index\<close>

lemma sorted_count_ge:
  assumes "sorted (xs :: nat list)" and "p < length xs"
  shows "length xs - p \<le> length (filter (\<lambda>x. xs ! p \<le> x) xs)"
    and "xs ! p < j \<Longrightarrow> length (filter (\<lambda>x. j \<le> x) xs) < length xs - p"
proof -
  have split: "length (filter P xs) = length (filter P (take p xs)) + length (filter P (drop p xs))" for P
    by (metis append_take_drop_id filter_append length_append)
  have "filter (\<lambda>x. xs ! p \<le> x) (drop p xs) = drop p xs"
    using assms by (auto simp: filter_id_conv in_set_conv_nth sorted_nth_mono)
  then show "length xs - p \<le> length (filter (\<lambda>x. xs ! p \<le> x) xs)" by (simp add: split)
  assume j: "xs ! p < j"
  have "x \<le> xs ! p" if "x \<in> set (take p xs)" for x
    using that assms by (auto simp: in_set_conv_nth sorted_nth_mono)
  with j have "filter (\<lambda>x. j \<le> x) (take p xs) = []" by (force simp: filter_empty_conv)
  moreover have "length (filter (\<lambda>x. j \<le> x) (drop p xs)) < length (drop p xs)"
    using j assms(2) by (intro length_filter_less [of "xs ! p"]) (auto simp flip: Cons_nth_drop_Suc)
  ultimately show "length (filter (\<lambda>x. j \<le> x) xs) < length xs - p" by (simp add: split)
qed

lemma quorum_size_for_bounds: "n \<noteq> 0 \<Longrightarrow> 0 < quorum_size_for n \<and> quorum_size_for n \<le> n"
  by (auto simp: quorum_size_for_def)

text \<open>
  The commit index computed from the match indices is the greatest one a strict majority of
  the voters has reached. There is none exactly when there are no voters. Otherwise a quorum of
  voters has a match index at or above it, and for every greater index fewer than a quorum has.
\<close>

lemma commit_via_match_index_greatest:
  "case commit_via_match_index s of
     None \<Rightarrow> voter_ids s = []
   | Some i \<Rightarrow> voter_ids s \<noteq> [] \<and>
       quorum_size_for (length (voter_ids s)) \<le> length (filter (\<lambda>v. i \<le> match_of s v) (voter_ids s)) \<and>
       (\<forall>j > i. length (filter (\<lambda>v. j \<le> match_of s v) (voter_ids s)) <
          quorum_size_for (length (voter_ids s)))"
proof (cases "voter_ids s = []")
  case True
  then show ?thesis by (simp add: commit_via_match_index_def)
next
  case False
  let ?n = "length (voter_ids s)" and ?xs = "sort (map (match_of s) (voter_ids s))"
  let ?q = "quorum_size_for ?n"
  have p: "?n - ?q < length ?xs" "?n - (?n - ?q) = ?q"
    using False quorum_size_for_bounds [of ?n] by auto
  have count: "length (filter (\<lambda>x. j \<le> x) ?xs) = length (filter (\<lambda>v. j \<le> match_of s v) (voter_ids s))" for j
    by (simp add: filter_sort filter_map comp_def)
  have "commit_via_match_index s = Some (?xs ! (?n - ?q))"
    using False by (simp add: commit_via_match_index_def Let_def)
  then show ?thesis
    using False sorted_count_ge [of ?xs "?n - ?q"] p by (simp add: count)
qed

definition demo_members3 :: kv_store where
  "demo_members3 =
     snd (member_add \<lparr>ma_peer_urls = [], ma_is_learner = False\<rparr>
       (snd (member_add \<lparr>ma_peer_urls = [], ma_is_learner = False\<rparr> (new_store 0))))"

definition demo_matched :: kv_store where
  "demo_matched = record_match_index 101 5 (record_match_index 1 7 demo_members3)"

lemma commit_via_match_index_greatest_witness:
  "voter_ids demo_matched = [1, 101, 102] \<and> commit_via_match_index demo_matched = Some 5 \<and>
   length (filter (\<lambda>v. 6 \<le> match_of demo_matched v) (voter_ids demo_matched)) < 2"
proof -
  have v: "voter_ids demo_matched = [1, 101, 102]"
    by (simp add: voter_ids_def demo_matched_def demo_members3_def member_add_def new_member_def
        record_match_index_def new_store_def initial_members_def Let_def)
  have m: "match_of demo_matched 1 = 7" "match_of demo_matched 101 = 5" "match_of demo_matched 102 = 0"
    by (simp_all add: match_of_def demo_matched_def demo_members3_def member_add_def new_member_def
        record_match_index_def new_store_def Let_def)
  have c: "commit_via_match_index demo_matched = Some 5"
    by (simp add: commit_via_match_index_def v m m(1) [unfolded One_nat_def] quorum_size_for_def Let_def)
  have "length (filter (\<lambda>v. 6 \<le> match_of demo_matched v) (voter_ids demo_matched)) <
      quorum_size_for (length (voter_ids demo_matched))"
    using commit_via_match_index_greatest [of demo_matched] unfolding c option.case
    by (elim conjE allE [of _ 6] impE) simp_all
  moreover have "quorum_size_for (length (voter_ids demo_matched)) = 2"
    by (simp add: v quorum_size_for_def)
  ultimately show ?thesis using v c by simp
qed

subsection \<open>Linearizable reads\<close>

lemma wait_applied_result:
  "wait_applied clock n target deadline s =
     (if kv_applied_index s \<ge> target then (Inr (), s)
      else if clock n > deadline then (Inl (ReadIndexTimeout target (kv_applied_index s)), s)
      else (Inr (), set_applied_index target s))"
  by (simp add: wait_applied.simps [of _ n] wait_applied.simps [of _ "Suc n"] set_applied_index_def)

lemma kv_range_applied [simp]: "kv_range (s\<lparr>kv_applied_index := n\<rparr>) req = kv_range s req"
  by (simp add: kv_range_def range_reply_def range_at_revision_def get_at_revision_def header_def
      current_revision_def Let_def cong: option.case_cong if_cong)

text \<open>
  C33: a linearizable read always returns, and in one of four ways. Not on the leader:
  \<open>NotLeader\<close>. Without a healthy quorum: \<open>QuorumLost\<close>. If the applied index is behind the
  commit index and the clock is past the deadline at the first check: \<open>ReadIndexTimeout\<close>, where the
  deadline is the sum of clock and timeout in 64 bits, so a huge timeout that wraps it around
  counts as over. In every other case it answers like a plain read of the store, and by then
  everything committed at the start of the read is applied. The three failures change nothing.
\<close>

theorem linearizable_read_returns:
  "let (r, s') = linearizable_read clock req timeout s
   in if kv_role s \<noteq> RLeader then r = Inl (EtcdNotLeader (kv_term s) None) \<and> s' = s
      else if healthy_member_count (clock 1) s < quorum_size s
      then r = Inl (QuorumLost (quorum_size s) (healthy_member_count (clock 2) s)) \<and> s' = s
      else if kv_applied_index s < kv_commit_index s \<and> clock 3 > wrap_i64 (clock 2 + as_i64 timeout)
      then r = Inl (ReadIndexTimeout (kv_commit_index s) (kv_applied_index s)) \<and> s' = s
      else r = kv_range s req \<and> kv_commit_index s \<le> kv_applied_index s' \<and>
           kv_applied_index s' = max (kv_applied_index s) (kv_commit_index s) \<and>
           kv_commit_index s' = kv_commit_index s"
  by (auto simp: linearizable_read_def read_index_def quorum_healthy_def wait_applied_result
      set_applied_index_def Let_def not_le max_def)

subsection \<open>The member table and joint configurations\<close>

definition members_wf :: "kv_store \<Rightarrow> bool" where
  "members_wf s \<longleftrightarrow>
     distinct (map mb_id (members s)) \<and>
     (\<forall>m \<in> set (members s). mb_id m < lease_counter s + 100) \<and>
     (\<forall>cfg. joint s = Some cfg \<longrightarrow> jc_incoming cfg \<noteq> [])"

datatype cluster_cmd =
    MAdd member_add_request
  | MRemove u64
  | MUpdate u64 "string list"
  | MPromote u64
  | MEnter enter_joint_request
  | MLeave
  | MArm u64
  | MCommit u64
  | MGrant i64 lease_grant_request

fun cluster_exec :: "cluster_cmd \<Rightarrow> kv_store \<Rightarrow> kv_store" where
  "cluster_exec (MAdd r) s = snd (member_add r s)"
| "cluster_exec (MRemove i) s = snd (member_remove i s)"
| "cluster_exec (MUpdate i urls) s = snd (member_update i urls s)"
| "cluster_exec (MPromote i) s = snd (member_promote i s)"
| "cluster_exec (MEnter r) s = snd (enter_joint r s)"
| "cluster_exec MLeave s = snd (kv_leave_joint s)"
| "cluster_exec (MArm n) s = arm_auto_leave_joint n s"
| "cluster_exec (MCommit n) s = advance_commit_index n s"
| "cluster_exec (MGrant now r) s = snd (lease_grant now r s)"

fun fresh_members :: "member_add_request list \<Rightarrow> nat \<Rightarrow> member list" where
  "fresh_members [] n = []"
| "fresh_members (add # adds) n =
     \<lparr>mb_id = n + 100, mb_name = ''member-'' @ show_nat (n + 100), mb_peer_urls = ma_peer_urls add,
      mb_client_urls = [], mb_is_learner = ma_is_learner add\<rparr> # fresh_members adds (n + 1)"

lemma add_members_eq:
  "add_members adds s =
     (map mb_id (fresh_members adds (lease_counter s)),
      s\<lparr>lease_counter := lease_counter s + length adds,
        members := members s @ fresh_members adds (lease_counter s)\<rparr>)"
  by (induction adds arbitrary: s) (simp_all add: new_member_def Let_def)

lemma fresh_member_ids: "map mb_id (fresh_members adds n) = [n + 100 ..< n + 100 + length adds]"
proof (induction adds arbitrary: n)
  case (Cons add adds)
  from Cons [of "n + 1"] show ?case by (simp add: upt_conv_Cons ac_simps del: upt_Suc)
qed simp

lemma fresh_voters_zip:
  "map snd (filter (\<lambda>(add, _). \<not> ma_is_learner add) (zip adds (map mb_id (fresh_members adds n)))) =
   map mb_id (filter (\<lambda>m. \<not> mb_is_learner m) (fresh_members adds n))"
  by (induction adds arbitrary: n) auto

lemma update_member_simps:
  assumes "\<And>m. mb_id (f m) = mb_id m"
  shows "map mb_id (update_member i f ms) = map mb_id ms"
    and "mb_id ` set (update_member i f ms) = mb_id ` set ms"
proof -
  show "map mb_id (update_member i f ms) = map mb_id ms" by (induction ms) (auto simp: assms)
  then show "mb_id ` set (update_member i f ms) = mb_id ` set ms" by (metis set_map)
qed

text \<open>The invariant speaks of the ids, the counter and the joint configuration alone.\<close>

lemma members_wf_ids:
  "members_wf s \<longleftrightarrow>
     distinct (map mb_id (members s)) \<and>
     (\<forall>i \<in> set (map mb_id (members s)). i < lease_counter s + 100) \<and>
     (\<forall>cfg. joint s = Some cfg \<longrightarrow> jc_incoming cfg \<noteq> [])"
  by (simp add: members_wf_def)

lemma add_members_wf:
  assumes "members_wf s"
  shows "members_wf (snd (add_members adds s))"
proof -
  have old: "i < lease_counter s + 100" if "i \<in> mb_id ` set (members s)" for i
    using assms that by (auto simp: members_wf_def)
  have new: "mb_id ` set (fresh_members adds (lease_counter s)) =
      {lease_counter s + 100 ..< lease_counter s + 100 + length adds}"
    by (metis fresh_member_ids set_map set_upt)
  let ?new = "{lease_counter s + 100 ..< lease_counter s + 100 + length adds}"
  have "mb_id ` set (members s) \<inter> ?new = {}" using old by fastforce
  moreover have "\<forall>i \<in> mb_id ` set (members s) \<union> ?new. i < lease_counter s + length adds + 100"
    using old by fastforce
  ultimately show ?thesis
    using assms unfolding members_wf_ids
    by (simp add: add_members_eq fresh_member_ids del: set_map) (simp add: new image_Un)
qed

text \<open>Operations that only remove members, or keep all ids.\<close>

lemma members_wf_shrink:
  assumes "members_wf s" and "distinct (map mb_id (members s'))"
    and "mb_id ` set (members s') \<subseteq> mb_id ` set (members s)"
    and "lease_counter s \<le> lease_counter s'" and "joint s' \<in> {joint s, None}"
  shows "members_wf s'"
  using assms unfolding members_wf_def by fastforce

definition incoming_of :: "enter_joint_request \<Rightarrow> kv_store \<Rightarrow> u64 list" where
  "incoming_of req s =
     filter (\<lambda>i. i \<notin> set (ej_removes req))
       (voter_ids s @ map mb_id (filter (\<lambda>m. \<not> mb_is_learner m)
          (fresh_members (ej_adds req) (lease_counter s))))"

definition joint_of :: "enter_joint_request \<Rightarrow> kv_store \<Rightarrow> joint_config" where
  "joint_of req s = \<lparr>jc_outgoing = voter_ids s, jc_incoming = incoming_of req s,
                     jc_learners = learner_ids (snd (add_members (ej_adds req) s))\<rparr>"

lemma enter_joint_cases:
  assumes "joint s = None"
  shows "incoming_of req s = [] \<Longrightarrow>
      enter_joint req s = (Inl WouldBreakQuorum, snd (add_members (ej_adds req) s))"
    and "incoming_of req s \<noteq> [] \<Longrightarrow>
      snd (enter_joint req s) = (snd (add_members (ej_adds req) s))\<lparr>joint := Some (joint_of req s)\<rparr>"
    and "incoming_of req s \<noteq> [] \<Longrightarrow> \<exists>r. fst (enter_joint req s) = Inr r \<and> ejr_joint r = joint_of req s"
  using assms unfolding incoming_of_def joint_of_def
  by (simp_all add: enter_joint_def add_members_eq fresh_voters_zip Let_def)

lemma leave_joint_wf:
  assumes "members_wf s"
  shows "members_wf (snd (kv_leave_joint s))"
  by (rule members_wf_shrink [OF assms])
    (use assms in \<open>auto simp: kv_leave_joint_def members_wf_def distinct_map_filter Let_def
      split: option.split\<close>)

lemma member_ops_wf:
  assumes "members_wf s"
  shows "members_wf (snd (member_remove i s))"
    and "members_wf (snd (member_update i urls s))"
    and "members_wf (snd (member_promote i s))"
    and "members_wf (snd (lease_grant now r s))"
proof -
  have d: "distinct (map mb_id (members s))" using assms by (simp add: members_wf_def)
  show "members_wf (snd (member_remove i s))"
    by (rule members_wf_shrink [OF assms]) (use d in \<open>auto simp: member_remove_def distinct_map_filter Let_def\<close>)
  show "members_wf (snd (member_update i urls s))"
    by (rule members_wf_shrink [OF assms])
      (use d in \<open>simp_all add: member_update_def update_member_simps Let_def split: option.split\<close>)
  show "members_wf (snd (member_promote i s))"
    by (rule members_wf_shrink [OF assms])
      (use d in \<open>simp_all add: member_promote_def update_member_simps Let_def split: option.split\<close>)
  show "members_wf (snd (lease_grant now r s))"
    by (rule members_wf_shrink [OF assms])
      (use d in \<open>simp_all add: lease_grant_def Let_def split: option.split\<close>)
qed

lemma cluster_exec_wf:
  assumes "members_wf s"
  shows "members_wf (cluster_exec c s)"
proof (cases c)
  case (MAdd r)
  have "snd (member_add r s) = snd (add_members [r] s)" by (simp add: member_add_def case_prod_beta Let_def)
  with assms MAdd show ?thesis by (simp only: cluster_exec.simps add_members_wf)
next
  case (MEnter req)
  show ?thesis
  proof (cases "joint s")
    case None
    note e = enter_joint_cases [OF None, of req]
    show ?thesis
    proof (cases "incoming_of req s = []")
      case True
      with e(1) add_members_wf [OF assms] MEnter show ?thesis by simp
    next
      case False
      with e(2) add_members_wf [OF assms, of "ej_adds req"] MEnter show ?thesis
        by (simp add: members_wf_ids joint_of_def)
    qed
  qed (use assms MEnter in \<open>simp add: enter_joint_def\<close>)
next
  case MLeave
  with assms show ?thesis by (simp add: leave_joint_wf)
next
  case (MCommit n)
  have "members_wf (s\<lparr>kv_commit_index := m\<rparr>)" for m using assms by (simp add: members_wf_def)
  from leave_joint_wf [OF this] this MCommit show ?thesis
    by (simp add: advance_commit_index_def Let_def members_wf_def)
next
  case (MArm n)
  with assms show ?thesis by (simp add: arm_auto_leave_joint_def members_wf_def)
qed (use assms in \<open>simp_all add: member_ops_wf\<close>)

lemma distinct_ids_inj:
  "distinct (map mb_id ms) \<Longrightarrow> m \<in> set ms \<Longrightarrow> m' \<in> set ms \<Longrightarrow> mb_id m = mb_id m' \<Longrightarrow> m = m'"
  by (metis distinct_map inj_onD)

text \<open>Leaving a joint configuration: what is kept of the voters and the learners.\<close>

lemma leave_joint_voters:
  assumes "distinct (map mb_id (members s))" and "joint s = Some cfg"
    and "jc_learners cfg = learner_ids s"
  shows "voter_ids (snd (kv_leave_joint s)) = filter (\<lambda>i. i \<in> set (jc_incoming cfg)) (voter_ids s)"
    and "learner_ids (snd (kv_leave_joint s)) = learner_ids s"
proof -
  let ?keep = "\<lambda>m. mb_id m \<in> set (jc_incoming cfg) \<union> set (learner_ids s)"
  have ms: "members (snd (kv_leave_joint s)) = filter ?keep (members s)"
    using assms(2,3) by (simp add: kv_leave_joint_def Let_def)
  have l: "mb_id m \<in> set (learner_ids s) \<longleftrightarrow> mb_is_learner m" if "m \<in> set (members s)" for m
    using that distinct_ids_inj [OF assms(1) that] by (auto simp: learner_ids_def)
  have "filter (\<lambda>m. \<not> mb_is_learner m) (filter ?keep (members s)) =
      filter (\<lambda>m. mb_id m \<in> set (jc_incoming cfg)) (filter (\<lambda>m. \<not> mb_is_learner m) (members s))"
    unfolding filter_filter using l by (intro filter_cong) auto
  then show "voter_ids (snd (kv_leave_joint s)) = filter (\<lambda>i. i \<in> set (jc_incoming cfg)) (voter_ids s)"
    by (simp only: voter_ids_def ms) (simp add: filter_map comp_def)
  have "filter mb_is_learner (filter ?keep (members s)) = filter mb_is_learner (members s)"
    unfolding filter_filter using l by (intro filter_cong) auto
  then show "learner_ids (snd (kv_leave_joint s)) = learner_ids s" by (simp add: learner_ids_def ms)
qed

text \<open>
  C34: after any member, joint-configuration, commit-index and lease-grant calls on a fresh
  store, the member table is well formed: no two members share an id, every id is below the next
  one to be given out, and a pending joint configuration has an incoming voter. Restoring a
  snapshot is not among these calls: it replaces the table and leaves the counter of ids alone.
\<close>

theorem member_table_wf: "members_wf (fold cluster_exec cs (new_store now))"
proof -
  have "members_wf s \<Longrightarrow> members_wf (fold cluster_exec cs s)" for s
    by (induction cs arbitrary: s) (simp_all add: cluster_exec_wf)
  moreover have "members_wf (new_store now)"
    by (simp add: members_wf_def new_store_def initial_members_def)
  ultimately show ?thesis by blast
qed

text \<open>
  A joint configuration change, from entering to leaving. If the change is accepted, the
  outgoing voters are the old ones; after leaving, the voters are exactly the old and the newly
  added voters without the removed ids, in order, there is at least one of them, and the
  learners are the old ones and the newly added ones.
\<close>

lemma joint_change:
  assumes "members_wf s" and "enter_joint req s = (Inr r, s1)"
  shows "let s2 = snd (kv_leave_joint s1); new = fresh_members (ej_adds req) (lease_counter s)
         in jc_outgoing (ejr_joint r) = voter_ids s \<and> joint s1 = Some (ejr_joint r) \<and>
            voter_ids s2 = filter (\<lambda>i. i \<notin> set (ej_removes req))
              (voter_ids s @ map mb_id (filter (\<lambda>m. \<not> mb_is_learner m) new)) \<and>
            voter_ids s2 = jc_incoming (ejr_joint r) \<and> voter_ids s2 \<noteq> [] \<and>
            learner_ids s2 = learner_ids s @ map mb_id (filter mb_is_learner new) \<and>
            joint s2 = None"
proof -
  let ?new = "fresh_members (ej_adds req) (lease_counter s)"
  have j: "joint s = None" using assms(2) by (auto simp: enter_joint_def split: if_splits)
  then have inc: "incoming_of req s \<noteq> []"
    using enter_joint_cases(1) [OF j, of req] assms(2) by auto
  have s1: "s1 = (snd (add_members (ej_adds req) s))\<lparr>joint := Some (joint_of req s)\<rparr>"
    and r: "ejr_joint r = joint_of req s"
    using enter_joint_cases(2,3) [OF j inc] assms(2) by auto
  have v1: "voter_ids s1 = voter_ids s @ map mb_id (filter (\<lambda>m. \<not> mb_is_learner m) ?new)"
    and l1: "learner_ids s1 = learner_ids s @ map mb_id (filter mb_is_learner ?new)"
    by (simp_all add: s1 add_members_eq voter_ids_def learner_ids_def)
  have d: "distinct (map mb_id (members s1))"
    using add_members_wf [OF assms(1), of "ej_adds req"] by (simp add: s1 members_wf_def)
  have js: "joint s1 = Some (joint_of req s)" "jc_learners (joint_of req s) = learner_ids s1"
    by (simp_all add: s1 joint_of_def learner_ids_def)
  have "voter_ids (snd (kv_leave_joint s1)) = filter (\<lambda>i. i \<in> set (incoming_of req s)) (voter_ids s1)"
    using leave_joint_voters(1) [OF d js] by (simp add: joint_of_def)
  also have "\<dots> = incoming_of req s"
    unfolding incoming_of_def v1 by (rule filter_cong) auto
  finally have v2: "voter_ids (snd (kv_leave_joint s1)) = incoming_of req s" .
  have "joint (snd (kv_leave_joint s1)) = None" by (simp add: kv_leave_joint_def js(1) Let_def)
  with v2 inc leave_joint_voters(2) [OF d js] js(1) r l1 show ?thesis
    by (simp add: joint_of_def incoming_of_def)
qed

definition demo_change :: enter_joint_request where
  "demo_change = \<lparr>ej_adds = [\<lparr>ma_peer_urls = [], ma_is_learner = False\<rparr>,
                             \<lparr>ma_peer_urls = [], ma_is_learner = True\<rparr>], ej_removes = [1]\<rparr>"

lemma joint_change_witness:
  "let s2 = snd (kv_leave_joint (snd (enter_joint demo_change (new_store 0))))
   in members_wf (new_store 0) \<and> voter_ids s2 = [101] \<and> learner_ids s2 = [102]"
proof -
  have wf: "members_wf (new_store 0)" by (simp add: members_wf_def new_store_def initial_members_def)
  have j: "joint (new_store 0) = None" by (simp add: new_store_def)
  have v: "voter_ids (new_store 0) = [1]" "learner_ids (new_store 0) = []" "lease_counter (new_store 0) = 1"
    by (simp_all add: voter_ids_def learner_ids_def new_store_def initial_members_def)
  then have "incoming_of demo_change (new_store 0) = [101]"
    by (simp add: incoming_of_def demo_change_def)
  then obtain r where "enter_joint demo_change (new_store 0) =
      (Inr r, snd (enter_joint demo_change (new_store 0)))"
    using enter_joint_cases(3) [OF j, of demo_change] by (metis list.distinct(1) prod.collapse)
  from joint_change [OF wf this] wf show ?thesis by (simp add: v demo_change_def Let_def)
qed

end
