(* ===== verification/Etcd_Joint_Quorum.thy ===== *)
theory Etcd_Joint_Quorum
  imports Etcd_Cluster
begin

section \<open>The commit index of a joint configuration\<close>

text \<open>
  \<open>cave-etcd/src/raft_joint_quorum.rs\<close>: the index a majority of voters has acknowledged, and the
  one that a majority of both configurations of a joint change has.
\<close>

definition U64_MAX :: u64 where
  "U64_MAX = 2 ^ 64 - 1"

declare U64_MAX_def [code del]

definition acked :: "(u64 \<times> u64) list \<Rightarrow> u64 \<Rightarrow> u64" where
  "acked match_idx i = (case map_of match_idx i of Some m \<Rightarrow> m | None \<Rightarrow> 0)"

definition majority_committed_index :: "u64 list \<Rightarrow> (u64 \<times> u64) list \<Rightarrow> u64" where
  "majority_committed_index voters match_idx =
     (if voters = [] then U64_MAX
      else let indices = rev (sort (map (acked match_idx) voters));
               quorum = length voters div 2 + 1
           in indices ! (quorum - 1))"

definition joint_committed_index :: "u64 list \<Rightarrow> u64 list \<Rightarrow> (u64 \<times> u64) list \<Rightarrow> u64" where
  "joint_committed_index c_old c_new match_idx =
     (let committed_old = majority_committed_index c_old match_idx;
          committed_new = majority_committed_index c_new match_idx
      in min committed_old committed_new)"

text \<open>A configuration without voters stands in nobody's way.\<close>

definition majority_has :: "u64 list \<Rightarrow> (u64 \<times> u64) list \<Rightarrow> u64 \<Rightarrow> bool" where
  "majority_has vs m i \<longleftrightarrow>
     vs = [] \<or> length vs < 2 * length (filter (\<lambda>v. i \<le> acked m v) vs)"

lemma length_filter_mono:
  "(i :: nat) \<le> j \<Longrightarrow> length (filter (\<lambda>x. j \<le> x) xs) \<le> length (filter (\<lambda>x. i \<le> x) xs)"
  by (induction xs) auto

lemma majority_committed_iff:
  assumes "i \<le> U64_MAX"
  shows "i \<le> majority_committed_index vs m \<longleftrightarrow> majority_has vs m i"
proof (cases "vs = []")
  case False
  let ?xs = "sort (map (acked m) vs)" and ?n = "length vs" and ?q = "length vs div 2 + 1"
  have q: "?q \<le> ?n" using False by (cases vs) auto
  then have p: "?n - ?q < length ?xs" "?n - (?n - ?q) = ?q" by simp_all
  have "majority_committed_index vs m = ?xs ! (?n - ?q)"
    using False q by (simp add: majority_committed_index_def rev_nth Let_def)
  moreover have "length (filter (\<lambda>x. j \<le> x) ?xs) = length (filter (\<lambda>v. j \<le> acked m v) vs)" for j
    by (simp add: filter_sort filter_map comp_def)
  moreover have "i \<le> ?xs ! (?n - ?q) \<longleftrightarrow> ?q \<le> length (filter (\<lambda>x. i \<le> x) ?xs)"
  proof
    assume "i \<le> ?xs ! (?n - ?q)"
    then have "length (filter (\<lambda>x. ?xs ! (?n - ?q) \<le> x) ?xs) \<le> length (filter (\<lambda>x. i \<le> x) ?xs)"
      by (rule length_filter_mono)
    with sorted_count_ge(1) [of ?xs "?n - ?q"] p show "?q \<le> length (filter (\<lambda>x. i \<le> x) ?xs)" by simp
  next
    assume "?q \<le> length (filter (\<lambda>x. i \<le> x) ?xs)"
    with sorted_count_ge(2) [of ?xs "?n - ?q" i] p show "i \<le> ?xs ! (?n - ?q)"
      by (intro leI notI) simp
  qed
  ultimately show ?thesis using False by (auto simp: majority_has_def)
qed (use assms in \<open>simp add: majority_committed_index_def majority_has_def\<close>)

text \<open>
  An index is at or below the joint commit index exactly when a strict majority of the
  outgoing voters and a strict majority of the incoming voters have acknowledged it, where voters
  without an acknowledgement count as having none and a configuration without voters agrees to
  everything.
\<close>

lemma joint_committed_index_iff:
  assumes "i \<le> U64_MAX"
  shows "i \<le> joint_committed_index c_old c_new m \<longleftrightarrow> majority_has c_old m i \<and> majority_has c_new m i"
  using majority_committed_iff [OF assms] by (simp add: joint_committed_index_def Let_def)

lemma joint_committed_index_iff_witness:
  "3 \<le> joint_committed_index [1, 2, 3] [3, 4] [(1, 5), (3, 3), (4, 7)] \<and>
   \<not> 4 \<le> joint_committed_index [1, 2, 3] [3, 4] [(1, 5), (3, 3), (4, 7)]"
  using joint_committed_index_iff [of 3 "[1, 2, 3]" "[3, 4]" "[(1, 5), (3, 3), (4, 7)]"]
    joint_committed_index_iff [of 4 "[1, 2, 3]" "[3, 4]" "[(1, 5), (3, 3), (4, 7)]"]
  by (simp add: U64_MAX_def majority_has_def acked_def)

end
