(* ===== verification/Etcd_Concurrency.thy ===== *)
theory Etcd_Concurrency
  imports Etcd_Types
begin

section \<open>Locks and elections\<close>

text \<open>
  \<open>cave-etcd/src/concurrency.rs\<close>: the mutex, the read-write mutex and the election. Each is a queue
  of leases ordered by the revision they registered at, and a counter that hands out revisions.
  The counter is an atomic of its own, outside the lock of the queue, so an operation that draws
  a revision and then registers is two steps: \<open>next_rev\<close>, and the part under the lock (the
  functions with \<open>_at\<close>).
\<close>

datatype concurrency_error =
    NotOwner
  | WouldBlock
  | ConcLeaseNotFound i64
  | ConcNotLeader
  | NoLeader

text \<open>\<open>find\<close> and \<open>remove\<close> on the queue.\<close>

definition rev_of_lease :: "('e \<Rightarrow> i64) \<Rightarrow> i64 \<Rightarrow> (u64 \<times> 'e) list \<Rightarrow> u64 option" where
  "rev_of_lease lease i q = map_option fst (find (\<lambda>(_, e). lease e = i) q)"

definition bt_remove :: "u64 \<Rightarrow> (u64 \<times> 'e) list \<Rightarrow> (u64 \<times> 'e) list" where
  "bt_remove k q = filter (\<lambda>(k', _). k' \<noteq> k) q"

definition revs_of_lease :: "('e \<Rightarrow> i64) \<Rightarrow> i64 \<Rightarrow> (u64 \<times> 'e) list \<Rightarrow> u64 list" where
  "revs_of_lease lease i q = map fst (filter (\<lambda>(_, e). lease e = i) q)"

subsection \<open>The mutex\<close>

record mutex_entry =
  me_lease_id :: i64
  me_create_revision :: u64

record dist_mutex =
  mx_prefix :: string
  mx_revision :: u64
  mx_queue :: "(u64 \<times> mutex_entry) list"

definition mutex_new :: "string \<Rightarrow> dist_mutex" where
  "mutex_new p = \<lparr>mx_prefix = p, mx_revision = 0, mx_queue = []\<rparr>"

definition mutex_next_rev :: "dist_mutex \<Rightarrow> u64 \<times> dist_mutex" where
  "mutex_next_rev self = (mx_revision self + 1, self\<lparr>mx_revision := mx_revision self + 1\<rparr>)"

definition lock_at :: "u64 \<Rightarrow> i64 \<Rightarrow> dist_mutex \<Rightarrow> (concurrency_error + u64) \<times> dist_mutex" where
  "lock_at rv lease self =
     (case rev_of_lease me_lease_id lease (mx_queue self) of
        Some existing_rev \<Rightarrow> (Inr existing_rev, self)
      | None \<Rightarrow>
          let self = self\<lparr>mx_queue := bt_insert rv \<lparr>me_lease_id = lease, me_create_revision = rv\<rparr>
                                        (mx_queue self)\<rparr>;
              head = fst (hd (mx_queue self))
          in if head = rv then (Inr rv, self) else (Inl WouldBlock, self))"

definition lock :: "i64 \<Rightarrow> dist_mutex \<Rightarrow> (concurrency_error + u64) \<times> dist_mutex" where
  "lock lease self = (let (rv, self) = mutex_next_rev self in lock_at rv lease self)"

definition try_lock :: "i64 \<Rightarrow> dist_mutex \<Rightarrow> (concurrency_error + u64) \<times> dist_mutex" where
  "try_lock lease self =
     (if mx_queue self \<noteq> [] then (Inl WouldBlock, self)
      else let (rv, self) = mutex_next_rev self
           in (Inr rv, self\<lparr>mx_queue := bt_insert rv \<lparr>me_lease_id = lease, me_create_revision = rv\<rparr>
                                         (mx_queue self)\<rparr>))"

definition unlock :: "i64 \<Rightarrow> dist_mutex \<Rightarrow> (concurrency_error + unit) \<times> dist_mutex" where
  "unlock lease self =
     (case rev_of_lease me_lease_id lease (mx_queue self) of
        None \<Rightarrow> (Inl NotOwner, self)
      | Some rv \<Rightarrow> (Inr (), self\<lparr>mx_queue := bt_remove rv (mx_queue self)\<rparr>))"

definition mutex_expire_lease :: "i64 \<Rightarrow> dist_mutex \<Rightarrow> dist_mutex" where
  "mutex_expire_lease lease self =
     self\<lparr>mx_queue := fold bt_remove (revs_of_lease me_lease_id lease (mx_queue self)) (mx_queue self)\<rparr>"

definition is_owner :: "i64 \<Rightarrow> dist_mutex \<Rightarrow> bool" where
  "is_owner lease self \<longleftrightarrow>
     (case mx_queue self of [] \<Rightarrow> None | (_, e) # _ \<Rightarrow> Some (me_lease_id e)) = Some lease"

definition mutex_queue_len :: "dist_mutex \<Rightarrow> usize" where
  "mutex_queue_len self = length (mx_queue self)"

definition mutex_snapshot :: "dist_mutex \<Rightarrow> mutex_entry list" where
  "mutex_snapshot self = map snd (mx_queue self)"

fun show_hex :: "nat \<Rightarrow> string" where
  "show_hex n =
     (let d = n mod 16; c = char_of (if d < 10 then 48 + d else 87 + d)
      in if n < 16 then [c] else show_hex (n div 16) @ [c])"

declare show_hex.simps [simp del]

text \<open>\<open>{:x}\<close> prints the 64 bits of the signed lease id.\<close>

definition mutex_key :: "dist_mutex \<Rightarrow> string option" where
  "mutex_key self =
     (case mx_queue self of
        [] \<Rightarrow> None
      | (_, e) # _ \<Rightarrow> Some (mx_prefix self @ ''/'' @ show_hex (nat (me_lease_id e mod 2 ^ 64))))"

subsection \<open>The read-write mutex\<close>

record dist_rw_mutex =
  rw_prefix :: string
  rw_readers :: "(u64 \<times> i64) list"
  rw_writers :: "(u64 \<times> i64) list"
  rw_rev :: u64

definition rw_new :: "string \<Rightarrow> dist_rw_mutex" where
  "rw_new p = \<lparr>rw_prefix = p, rw_readers = [], rw_writers = [], rw_rev = 0\<rparr>"

definition rw_next_rev :: "dist_rw_mutex \<Rightarrow> u64 \<times> dist_rw_mutex" where
  "rw_next_rev self = (rw_rev self + 1, self\<lparr>rw_rev := rw_rev self + 1\<rparr>)"

definition rlock_at :: "u64 \<Rightarrow> i64 \<Rightarrow> dist_rw_mutex \<Rightarrow> (concurrency_error + u64) \<times> dist_rw_mutex" where
  "rlock_at rv lease self =
     (let blocked = (case rw_writers self of [] \<Rightarrow> False | (w, _) # _ \<Rightarrow> w < rv);
          self = self\<lparr>rw_readers := bt_insert rv lease (rw_readers self)\<rparr>
      in if blocked then (Inl WouldBlock, self) else (Inr rv, self))"

definition rlock :: "i64 \<Rightarrow> dist_rw_mutex \<Rightarrow> (concurrency_error + u64) \<times> dist_rw_mutex" where
  "rlock lease self = (let (rv, self) = rw_next_rev self in rlock_at rv lease self)"

definition wlock_at :: "u64 \<Rightarrow> i64 \<Rightarrow> dist_rw_mutex \<Rightarrow> (concurrency_error + u64) \<times> dist_rw_mutex" where
  "wlock_at rv lease self =
     (let blocked = (rw_readers self \<noteq> [] \<or> list_ex (\<lambda>(w, _). w < rv) (rw_writers self));
          self = self\<lparr>rw_writers := bt_insert rv lease (rw_writers self)\<rparr>
      in if blocked then (Inl WouldBlock, self) else (Inr rv, self))"

definition wlock :: "i64 \<Rightarrow> dist_rw_mutex \<Rightarrow> (concurrency_error + u64) \<times> dist_rw_mutex" where
  "wlock lease self = (let (rv, self) = rw_next_rev self in wlock_at rv lease self)"

definition runlock :: "i64 \<Rightarrow> dist_rw_mutex \<Rightarrow> (concurrency_error + unit) \<times> dist_rw_mutex" where
  "runlock lease self =
     (case rev_of_lease id lease (rw_readers self) of
        None \<Rightarrow> (Inl NotOwner, self)
      | Some rv \<Rightarrow> (Inr (), self\<lparr>rw_readers := bt_remove rv (rw_readers self)\<rparr>))"

definition wunlock :: "i64 \<Rightarrow> dist_rw_mutex \<Rightarrow> (concurrency_error + unit) \<times> dist_rw_mutex" where
  "wunlock lease self =
     (case rev_of_lease id lease (rw_writers self) of
        None \<Rightarrow> (Inl NotOwner, self)
      | Some rv \<Rightarrow> (Inr (), self\<lparr>rw_writers := bt_remove rv (rw_writers self)\<rparr>))"

definition reader_count :: "dist_rw_mutex \<Rightarrow> usize" where
  "reader_count self = length (rw_readers self)"

definition writer_count :: "dist_rw_mutex \<Rightarrow> usize" where
  "writer_count self = length (rw_writers self)"

definition has_writer :: "dist_rw_mutex \<Rightarrow> bool" where
  "has_writer self \<longleftrightarrow> writer_count self > 0"

definition rw_expire_lease :: "i64 \<Rightarrow> dist_rw_mutex \<Rightarrow> dist_rw_mutex" where
  "rw_expire_lease lease self =
     (let self = self\<lparr>rw_readers := fold bt_remove (revs_of_lease id lease (rw_readers self)) (rw_readers self)\<rparr>
      in self\<lparr>rw_writers := fold bt_remove (revs_of_lease id lease (rw_writers self)) (rw_writers self)\<rparr>)"

subsection \<open>The election\<close>

record election_candidate =
  ec_lease_id :: i64
  ec_value :: bytes
  ec_create_revision :: u64

record dist_election =
  el_prefix :: string
  el_rev :: u64
  el_queue :: "(u64 \<times> election_candidate) list"

definition election_new :: "string \<Rightarrow> dist_election" where
  "election_new p = \<lparr>el_prefix = p, el_rev = 0, el_queue = []\<rparr>"

definition election_next_rev :: "dist_election \<Rightarrow> u64 \<times> dist_election" where
  "election_next_rev self = (el_rev self + 1, self\<lparr>el_rev := el_rev self + 1\<rparr>)"

definition campaign_at :: "u64 \<Rightarrow> i64 \<Rightarrow> bytes \<Rightarrow> dist_election \<Rightarrow> (u64 \<times> bool) \<times> dist_election" where
  "campaign_at rv lease val self =
     (let was_empty = (el_queue self = [])
      in ((rv, was_empty),
          self\<lparr>el_queue := bt_insert rv \<lparr>ec_lease_id = lease, ec_value = val, ec_create_revision = rv\<rparr>
                             (el_queue self)\<rparr>))"

definition election_campaign :: "i64 \<Rightarrow> bytes \<Rightarrow> dist_election \<Rightarrow> (u64 \<times> bool) \<times> dist_election" where
  "election_campaign lease val self = (let (rv, self) = election_next_rev self in campaign_at rv lease val self)"

definition proclaim :: "i64 \<Rightarrow> bytes \<Rightarrow> dist_election \<Rightarrow> (concurrency_error + unit) \<times> dist_election" where
  "proclaim lease val self =
     (case el_queue self of
        [] \<Rightarrow> (Inl NoLeader, self)
      | (ldr, ent) # q \<Rightarrow>
          if ec_lease_id ent \<noteq> lease then (Inl ConcNotLeader, self)
          else (Inr (), self\<lparr>el_queue := (ldr, ent\<lparr>ec_value := val\<rparr>) # q\<rparr>))"

definition head_lease_of :: "dist_election \<Rightarrow> i64 option" where
  "head_lease_of self = (case el_queue self of [] \<Rightarrow> None | (_, c) # _ \<Rightarrow> Some (ec_lease_id c))"

definition resign :: "i64 \<Rightarrow> dist_election \<Rightarrow> (concurrency_error + i64 option) \<times> dist_election" where
  "resign lease self =
     (case el_queue self of
        [] \<Rightarrow> (Inl NoLeader, self)
      | (leader_rev, c) # _ \<Rightarrow>
          if ec_lease_id c \<noteq> lease then (Inl ConcNotLeader, self)
          else let self = self\<lparr>el_queue := bt_remove leader_rev (el_queue self)\<rparr>
               in (Inr (head_lease_of self), self))"

definition election_leader :: "dist_election \<Rightarrow> election_candidate option" where
  "election_leader self = (case el_queue self of [] \<Rightarrow> None | (_, c) # _ \<Rightarrow> Some c)"

definition election_is_leader :: "i64 \<Rightarrow> dist_election \<Rightarrow> bool" where
  "election_is_leader lease self \<longleftrightarrow> map_option ec_lease_id (election_leader self) = Some lease"

definition election_expire_lease :: "i64 \<Rightarrow> dist_election \<Rightarrow> i64 option \<times> dist_election" where
  "election_expire_lease lease self =
     (let prev_leader_lease = head_lease_of self;
          self = self\<lparr>el_queue := fold bt_remove (revs_of_lease ec_lease_id lease (el_queue self)) (el_queue self)\<rparr>;
          new_leader_lease = head_lease_of self
      in (if new_leader_lease \<noteq> prev_leader_lease then new_leader_lease else None, self))"

definition observe :: "dist_election \<Rightarrow> election_candidate list" where
  "observe self = map snd (el_queue self)"

definition election_queue_len :: "dist_election \<Rightarrow> usize" where
  "election_queue_len self = length (el_queue self)"

subsection \<open>Queues of leases in general\<close>

text \<open>
  What the mutex and the election share. The state has a queue of entries, each with a lease, and
  a counter. Commands keep the queue ordered and at or below the counter, drop entries only of
  leases they name as leaving, and add entries only behind the counter they found.
\<close>

definition queue_ok :: "(u64 \<times> 'e) list \<Rightarrow> u64 \<Rightarrow> bool" where
  "queue_ok q n \<longleftrightarrow> bt_wf q \<and> (\<forall>k \<in> fst ` set q. k \<le> n)"

definition front_lease :: "('e \<Rightarrow> i64) \<Rightarrow> (u64 \<times> 'e) list \<Rightarrow> i64 option" where
  "front_lease lease q = (case q of [] \<Rightarrow> None | (_, e) # _ \<Rightarrow> Some (lease e))"

definition places :: "('e \<Rightarrow> i64) \<Rightarrow> (u64 \<times> 'e) list \<Rightarrow> (u64 \<times> i64) set" where
  "places lease q = (\<lambda>(k, e). (k, lease e)) ` set q"

lemma places_empty [simp]: "places lease [] = {}"
  by (simp add: places_def)

lemma front_lease_least:
  assumes "bt_wf q"
  shows "front_lease lease q = Some i \<longleftrightarrow>
           (\<exists>k. (k, i) \<in> places lease q \<and> (\<forall>(k', _) \<in> places lease q. k \<le> k'))"
  using assms by (cases q) (force simp: front_lease_def places_def)+

locale lease_queue =
  fixes queue :: "'s \<Rightarrow> (u64 \<times> 'e) list" and lease :: "'e \<Rightarrow> i64" and counter :: "'s \<Rightarrow> u64"
    and exec :: "'c \<Rightarrow> 's \<Rightarrow> 's" and leaving :: "'c \<Rightarrow> i64 set"
  assumes exec_ok: "queue_ok (queue s) (counter s) \<Longrightarrow> queue_ok (queue (exec c s)) (counter (exec c s))"
    and exec_keeps: "queue_ok (queue s) (counter s) \<Longrightarrow> i \<notin> leaving c \<Longrightarrow>
      (k, i) \<in> places lease (queue s) \<Longrightarrow> (k, i) \<in> places lease (queue (exec c s))"
    and exec_adds: "queue_ok (queue s) (counter s) \<Longrightarrow>
      (k, i) \<in> places lease (queue (exec c s)) \<Longrightarrow> (k, i) \<in> places lease (queue s) \<or> counter s < k"
begin

lemma run_ok: "queue_ok (queue s) (counter s) \<Longrightarrow> queue_ok (queue (fold exec cs s)) (counter (fold exec cs s))"
  by (induction cs arbitrary: s) (simp_all add: exec_ok)

lemma exec_front:
  assumes ok: "queue_ok (queue s) (counter s)" and front: "front_lease lease (queue s) = Some i"
    and stays: "i \<notin> leaving c"
  shows "front_lease lease (queue (exec c s)) = Some i"
proof -
  have wf: "bt_wf (queue s)" "bt_wf (queue (exec c s))"
    using ok exec_ok [OF ok, of c] by (simp_all add: queue_ok_def)
  obtain k where k: "(k, i) \<in> places lease (queue s)" and least: "\<And>k' j. (k', j) \<in> places lease (queue s) \<Longrightarrow> k \<le> k'"
    using front by (auto simp: front_lease_least [OF wf(1)])
  have "k \<le> counter s" using ok k by (auto simp: queue_ok_def places_def)
  then have "k \<le> k'" if "(k', j) \<in> places lease (queue (exec c s))" for k' j
    using exec_adds [OF ok that] least by fastforce
  moreover have "(k, i) \<in> places lease (queue (exec c s))" by (rule exec_keeps [OF ok stays k])
  ultimately show ?thesis by (auto simp: front_lease_least [OF wf(2)])
qed

lemma run_front:
  "queue_ok (queue s) (counter s) \<Longrightarrow> front_lease lease (queue s) = Some i \<Longrightarrow>
   \<forall>c \<in> set cs. i \<notin> leaving c \<Longrightarrow> front_lease lease (queue (fold exec cs s)) = Some i"
  by (induction cs arbitrary: s) (simp_all add: exec_ok exec_front)

end

subsection \<open>The operations on queues\<close>

lemma queue_insert: "queue_ok q n \<Longrightarrow> bt_insert (n + 1) e q = q @ [(n + 1, e)]"
  by (intro bt_insert_last) (auto simp: queue_ok_def le_imp_less_Suc)

lemma queue_ok_snoc: "queue_ok q n \<Longrightarrow> queue_ok (q @ [(n + 1, e)]) (n + 1)"
  by (auto simp: queue_ok_def sorted_wrt_append le_imp_less_Suc)

lemma queue_ok_later: "queue_ok q n \<Longrightarrow> queue_ok q (n + 1)"
  by (auto simp: queue_ok_def)

lemma queue_ok_filter: "queue_ok q n \<Longrightarrow> queue_ok (filter P q) n"
  by (auto simp: queue_ok_def)

lemma queue_ok_empty [simp]: "queue_ok [] n"
  by (simp add: queue_ok_def)

lemma rev_of_lease_SomeD:
  "rev_of_lease lease i q = Some k \<Longrightarrow> \<exists>e. (k, e) \<in> set q \<and> lease e = i"
  by (auto simp: rev_of_lease_def find_Some_iff) (metis nth_mem)

lemma rev_of_lease_None: "rev_of_lease lease i q = None \<longleftrightarrow> (\<forall>k. (k, i) \<notin> places lease q)"
  by (force simp: rev_of_lease_def find_None_iff places_def)

lemma places_remove:
  assumes "bt_wf q" and "rev_of_lease lease i q = Some k"
  shows "places lease (bt_remove k q) = places lease q - {(k, i)}"
proof -
  obtain e where e: "(k, e) \<in> set q" "lease e = i" using rev_of_lease_SomeD [OF assms(2)] by blast
  have "e' = e" if "(k, e') \<in> set q" for e'
    using that e(1) bt_wf_distinct [OF assms(1)] by (metis map_of_is_SomeI option.inject)
  with e(2) show ?thesis by (auto simp: places_def bt_remove_def)
qed

lemma remove_revs_of_lease:
  assumes "bt_wf q"
  shows "fold bt_remove (revs_of_lease lease i q) q = filter (\<lambda>(_, e). lease e \<noteq> i) q"
proof -
  have "fold bt_remove ks q = filter (\<lambda>(k, _). k \<notin> set ks) q" for ks and q :: "(u64 \<times> 'a) list"
    by (induction ks arbitrary: q) (auto simp: bt_remove_def intro!: filter_cong)
  moreover have "k \<in> set (revs_of_lease lease i q) \<longleftrightarrow> lease e = i" if "(k, e) \<in> set q" for k e
  proof -
    have same: "e' = e" if "(k, e') \<in> set q" for e'
      using that \<open>(k, e) \<in> set q\<close> bt_wf_distinct [OF assms] by (metis map_of_is_SomeI option.inject)
    show ?thesis
    proof
      assume "k \<in> set (revs_of_lease lease i q)"
      then obtain e' where "(k, e') \<in> set q" and "lease e' = i" by (auto simp: revs_of_lease_def)
      with same show "lease e = i" by blast
    next
      assume "lease e = i"
      with that have "(k, e) \<in> set (filter (\<lambda>(_, e). lease e = i) q)" by simp
      then have "fst (k, e) \<in> fst ` set (filter (\<lambda>(_, e). lease e = i) q)" by (rule imageI)
      then show "k \<in> set (revs_of_lease lease i q)" by (simp add: revs_of_lease_def)
    qed
  qed
  ultimately show ?thesis by (auto intro!: filter_cong)
qed

lemma places_filter_lease:
  "places lease (filter (\<lambda>(_, e). lease e \<noteq> i) q) = {p \<in> places lease q. snd p \<noteq> i}"
  by (auto simp: places_def)

lemma places_append: "places lease (q @ [(k, e)]) = insert (k, lease e) (places lease q)"
  by (auto simp: places_def)

text \<open>The ways a command changes queue and counter; \<open>L\<close> are the leases that it makes leave.\<close>

inductive queue_move ::
  "('e \<Rightarrow> i64) \<Rightarrow> i64 set \<Rightarrow> (u64 \<times> 'e) list \<Rightarrow> u64 \<Rightarrow> (u64 \<times> 'e) list \<Rightarrow> u64 \<Rightarrow> bool"
  for lease :: "'e \<Rightarrow> i64" and L :: "i64 set" where
  stay: "n \<le> n' \<Longrightarrow> queue_move lease L q n q n'"
| join: "queue_move lease L q n (q @ [(n + 1, e)]) (n + 1)"
| leave: "rev_of_lease lease i q = Some k \<Longrightarrow> i \<in> L \<Longrightarrow> queue_move lease L q n (bt_remove k q) n"
| expire: "i \<in> L \<Longrightarrow> queue_move lease L q n (filter (\<lambda>(_, e). lease e \<noteq> i) q) n"
| change: "lease e' = lease e \<Longrightarrow> queue_move lease L ((k, e) # q) n ((k, e') # q) n"

lemma queue_move_ok: "queue_move lease L q n q' n' \<Longrightarrow> queue_ok q n \<Longrightarrow> queue_ok q' n'"
proof (induction rule: queue_move.induct)
  case (stay n n' q)
  then show ?case by (force simp: queue_ok_def)
next
  case (join q n e)
  then show ?case by (rule queue_ok_snoc)
next
  case (leave i q k n)
  then show ?case by (simp add: bt_remove_def queue_ok_filter)
next
  case (expire i q n)
  then show ?case by (simp add: queue_ok_filter)
next
  case (change e' e k q n)
  then show ?case by (simp add: queue_ok_def)
qed

lemma queue_move_keeps:
  "queue_move lease L q n q' n' \<Longrightarrow> queue_ok q n \<Longrightarrow> i \<notin> L \<Longrightarrow> (k, i) \<in> places lease q \<Longrightarrow>
   (k, i) \<in> places lease q'"
proof (induction rule: queue_move.induct)
  case (leave j q k' n)
  then show ?case by (auto simp: places_remove queue_ok_def)
next
  case (join q n e)
  then show ?case unfolding places_append by simp
next
  case (expire j q n)
  then show ?case unfolding places_filter_lease by auto
next
  case (change e' e k' q n)
  then show ?case by (simp add: places_def)
qed simp_all

lemma queue_move_adds:
  "queue_move lease L q n q' n' \<Longrightarrow> queue_ok q n \<Longrightarrow> (k, i) \<in> places lease q' \<Longrightarrow>
   (k, i) \<in> places lease q \<or> n < k"
proof (induction rule: queue_move.induct)
  case (leave j q k' n)
  then show ?case by (simp add: places_remove queue_ok_def)
next
  case (join q n e)
  then show ?case unfolding places_append by auto
next
  case (expire j q n)
  then show ?case unfolding places_filter_lease by simp
next
  case (change e' e k' q n)
  then show ?case by (simp add: places_def)
qed simp_all

lemma lease_queueI:
  assumes "\<And>c s. queue_ok (queue s) (counter s) \<Longrightarrow>
    queue_move lease (leaving c) (queue s) (counter s) (queue (exec c s)) (counter (exec c s))"
  shows "lease_queue queue lease counter exec leaving"
proof (unfold_locales, goal_cases)
  case (1 s c)
  from queue_move_ok [OF assms [OF 1] 1] show ?case .
next
  case (2 s i c k)
  from queue_move_keeps [OF assms [OF 2(1)] 2(1,2,3)] show ?case .
next
  case (3 s k i c)
  from queue_move_adds [OF assms [OF 3(1)] 3(1,2)] show ?case .
qed

subsection \<open>Mutual exclusion\<close>

text \<open>Whole calls, each run without another in between.\<close>

datatype mutex_cmd = MLock i64 | MTryLock i64 | MUnlock i64 | MExpire i64

fun mutex_exec :: "mutex_cmd \<Rightarrow> dist_mutex \<Rightarrow> dist_mutex" where
  "mutex_exec (MLock i) m = snd (lock i m)"
| "mutex_exec (MTryLock i) m = snd (try_lock i m)"
| "mutex_exec (MUnlock i) m = snd (unlock i m)"
| "mutex_exec (MExpire i) m = mutex_expire_lease i m"

fun mutex_leaving :: "mutex_cmd \<Rightarrow> i64 set" where
  "mutex_leaving (MUnlock i) = {i}"
| "mutex_leaving (MExpire i) = {i}"
| "mutex_leaving _ = {}"

lemma mutex_exec_move:
  assumes ok: "queue_ok (mx_queue m) (mx_revision m)"
  shows "queue_move me_lease_id (mutex_leaving c) (mx_queue m) (mx_revision m)
           (mx_queue (mutex_exec c m)) (mx_revision (mutex_exec c m))"
proof (cases c)
  case (MLock i)
  then show ?thesis using queue_insert [OF ok]
    by (auto simp: lock_def lock_at_def mutex_next_rev_def Let_def stay
        intro: join [unfolded Suc_eq_plus1 [symmetric]] split: option.split)
next
  case (MTryLock i)
  then show ?thesis using join [of me_lease_id "{}" "[]"]
    by (auto simp: try_lock_def mutex_next_rev_def stay)
next
  case (MUnlock i)
  then show ?thesis by (auto simp: unlock_def stay intro: leave split: option.split)
next
  case (MExpire i)
  have "mx_queue (mutex_expire_lease i m) = filter (\<lambda>(_, e). me_lease_id e \<noteq> i) (mx_queue m)"
    using ok by (simp add: mutex_expire_lease_def remove_revs_of_lease queue_ok_def)
  moreover have "mx_revision (mutex_expire_lease i m) = mx_revision m" by (simp add: mutex_expire_lease_def)
  ultimately show ?thesis using MExpire by (simp add: expire)
qed

interpretation mq: lease_queue mx_queue me_lease_id mx_revision mutex_exec mutex_leaving
  by (rule lease_queueI) (rule mutex_exec_move)

lemma is_owner_front: "is_owner i m \<longleftrightarrow> front_lease me_lease_id (mx_queue m) = Some i"
  by (simp add: is_owner_def front_lease_def)

lemma mutex_new_ok: "queue_ok (mx_queue (mutex_new p)) (mx_revision (mutex_new p))"
  by (simp add: mutex_new_def)

text \<open>
  When calls of \<open>lock\<close> run without another call in between, the owner keeps the mutex through any
  operations until it unlocks or its lease expires.
\<close>

lemma mutex_owner_stable_serial:
  assumes "is_owner i (fold mutex_exec cs (mutex_new p))"
    and "\<forall>c \<in> set ds. c \<noteq> MUnlock i \<and> c \<noteq> MExpire i"
  shows "is_owner j (fold mutex_exec ds (fold mutex_exec cs (mutex_new p))) \<longleftrightarrow> j = i"
proof -
  have "i \<notin> mutex_leaving c" if "c \<in> set ds" for c using assms(2) that by (cases c) auto
  then show ?thesis
    using mq.run_front [OF mq.run_ok [OF mutex_new_ok], of cs p i ds] assms(1)
    by (auto simp: is_owner_front)
qed

subsection \<open>Interleaved calls\<close>

text \<open>
  \<open>lock\<close> draws its revision before it takes the lock of the queue, so between the two any steps of
  other calls may happen. The state of a run holds the calls under way, each with the revision it
  drew. The other operations hold the lock from start to end and are one step.
\<close>

record mutex_run =
  mr_mutex :: dist_mutex
  under_way :: "(u64 \<times> i64) list"

datatype mutex_step =
    Draw i64
  | Enter u64 i64
  | TryLock i64
  | Unlock i64
  | Expire i64

fun step_mutex :: "mutex_step \<Rightarrow> mutex_run \<Rightarrow> mutex_run" where
  "step_mutex (Draw i) s =
     (let (rv, m) = mutex_next_rev (mr_mutex s) in s\<lparr>mr_mutex := m, under_way := (rv, i) # under_way s\<rparr>)"
| "step_mutex (Enter rv i) s =
     (if (rv, i) \<in> set (under_way s)
      then s\<lparr>mr_mutex := snd (lock_at rv i (mr_mutex s)), under_way := filter (\<lambda>c. c \<noteq> (rv, i)) (under_way s)\<rparr>
      else s)"
| "step_mutex (TryLock i) s = s\<lparr>mr_mutex := snd (try_lock i (mr_mutex s))\<rparr>"
| "step_mutex (Unlock i) s = s\<lparr>mr_mutex := snd (unlock i (mr_mutex s))\<rparr>"
| "step_mutex (Expire i) s = s\<lparr>mr_mutex := mutex_expire_lease i (mr_mutex s)\<rparr>"

definition mutex_start :: "string \<Rightarrow> mutex_run" where
  "mutex_start p = \<lparr>mr_mutex = mutex_new p, under_way = []\<rparr>"

text \<open>Revisions are drawn once: no two entries of the queue and the calls under way share one.\<close>

definition revs_ok :: "mutex_run \<Rightarrow> bool" where
  "revs_ok s \<longleftrightarrow>
     bt_wf (mx_queue (mr_mutex s)) \<and> distinct (map fst (under_way s)) \<and>
     (\<forall>k \<in> fst ` set (mx_queue (mr_mutex s)). k \<le> mx_revision (mr_mutex s)) \<and>
     (\<forall>k \<in> fst ` set (under_way s). k \<le> mx_revision (mr_mutex s)) \<and>
     fst ` set (mx_queue (mr_mutex s)) \<inter> fst ` set (under_way s) = {}"

text \<open>A lease is ahead of everyone: first in the queue, and before all calls under way.\<close>

definition ahead :: "u64 \<Rightarrow> i64 \<Rightarrow> mutex_run \<Rightarrow> bool" where
  "ahead k i s \<longleftrightarrow>
     (k, i) \<in> places me_lease_id (mx_queue (mr_mutex s)) \<and>
     (\<forall>k' \<in> fst ` set (mx_queue (mr_mutex s)). k \<le> k') \<and> (\<forall>k' \<in> fst ` set (under_way s). k < k')"

lemma fst_places [simp]: "fst ` places lease q = fst ` set q"
  by (force simp: places_def)

lemma ahead_owner:
  assumes "revs_ok s" and "ahead k i s"
  shows "is_owner j (mr_mutex s) \<longleftrightarrow> j = i"
proof -
  have wf: "bt_wf (mx_queue (mr_mutex s))" using assms(1) by (simp add: revs_ok_def)
  have "k \<le> k'" if "(k', i') \<in> places me_lease_id (mx_queue (mr_mutex s))" for k' i'
    using assms(2) that by (force simp: ahead_def places_def)
  then have "front_lease me_lease_id (mx_queue (mr_mutex s)) = Some i"
    using assms(2) unfolding front_lease_least [OF wf] ahead_def by blast
  then show ?thesis by (auto simp: is_owner_front)
qed

lemma under_way_rest:
  assumes "distinct (map fst u)" and "(k, i) \<in> set u"
  shows "fst ` set (filter (\<lambda>c. c \<noteq> (k, i)) u) = fst ` set u - {k}"
proof -
  have "j = i" if "(k, j) \<in> set u" for j
    using that assms by (metis map_of_is_SomeI option.inject)
  then show ?thesis by force
qed

lemma places_enter:
  "bt_wf q \<Longrightarrow> k \<notin> fst ` set q \<Longrightarrow>
   places me_lease_id (bt_insert k e q) = insert (k, me_lease_id e) (places me_lease_id q)"
proof (induction q)
  case (Cons x q)
  then show ?case by (cases x) (auto simp: places_def)
qed (simp add: places_def)

lemma leave_queue:
  assumes "bt_wf (mx_queue m)"
  shows "mx_revision (snd (unlock i m)) = mx_revision m" "mx_revision (mutex_expire_lease i m) = mx_revision m"
    and "bt_wf (mx_queue (snd (unlock i m)))" "bt_wf (mx_queue (mutex_expire_lease i m))"
    and "fst ` set (mx_queue (snd (unlock i m))) \<subseteq> fst ` set (mx_queue m)"
    and "fst ` set (mx_queue (mutex_expire_lease i m)) \<subseteq> fst ` set (mx_queue m)"
    and "j \<noteq> i \<Longrightarrow> (k, j) \<in> places me_lease_id (mx_queue m) \<Longrightarrow>
      (k, j) \<in> places me_lease_id (mx_queue (snd (unlock i m)))"
    and "j \<noteq> i \<Longrightarrow> (k, j) \<in> places me_lease_id (mx_queue m) \<Longrightarrow>
      (k, j) \<in> places me_lease_id (mx_queue (mutex_expire_lease i m))"
  using assms places_remove [OF assms]
  by (auto simp: unlock_def mutex_expire_lease_def remove_revs_of_lease places_filter_lease
      bt_remove_def [of _ "mx_queue m"] split: option.splits)

lemma lock_at_queue:
  assumes "bt_wf (mx_queue m)" and "rv \<notin> fst ` set (mx_queue m)"
  shows "mx_revision (snd (lock_at rv i m)) = mx_revision m" "bt_wf (mx_queue (snd (lock_at rv i m)))"
    and "fst ` set (mx_queue (snd (lock_at rv i m))) \<subseteq> insert rv (fst ` set (mx_queue m))"
    and "places me_lease_id (mx_queue m) \<subseteq> places me_lease_id (mx_queue (snd (lock_at rv i m)))"
  using assms by (auto simp: lock_at_def Let_def places_enter split: option.splits)

lemma revs_okD:
  assumes "revs_ok s"
  shows "bt_wf (mx_queue (mr_mutex s))" "distinct (map fst (under_way s))"
    and "k \<in> fst ` set (mx_queue (mr_mutex s)) \<Longrightarrow> k \<le> mx_revision (mr_mutex s)"
    and "k \<in> fst ` set (under_way s) \<Longrightarrow> k \<le> mx_revision (mr_mutex s)"
    and "k \<in> fst ` set (under_way s) \<Longrightarrow> k \<notin> fst ` set (mx_queue (mr_mutex s))"
  using assms unfolding revs_ok_def by auto

lemma revs_okI:
  assumes "bt_wf (mx_queue (mr_mutex s))" and "distinct (map fst (under_way s))"
    and "\<And>k. k \<in> fst ` set (mx_queue (mr_mutex s)) \<Longrightarrow> k \<le> mx_revision (mr_mutex s)"
    and "\<And>k. k \<in> fst ` set (under_way s) \<Longrightarrow> k \<le> mx_revision (mr_mutex s)"
    and "\<And>k. k \<in> fst ` set (under_way s) \<Longrightarrow> k \<notin> fst ` set (mx_queue (mr_mutex s))"
  shows "revs_ok s"
  unfolding revs_ok_def using assms by (intro conjI ballI) (assumption | blast)+

lemma revs_ok_shrink:
  assumes "revs_ok s" and "bt_wf (mx_queue m)" and "mx_revision m = mx_revision (mr_mutex s)"
    and "fst ` set (mx_queue m) \<subseteq> fst ` set (mx_queue (mr_mutex s))"
  shows "revs_ok (s\<lparr>mr_mutex := m\<rparr>)"
proof (rule revs_okI, goal_cases)
  case (3 k)
  then have "k \<in> fst ` set (mx_queue (mr_mutex s))" using assms(4) by auto
  then show ?case using revs_okD(3) [OF assms(1)] assms(3) by simp
next
  case (4 k)
  then show ?case using revs_okD(4) [OF assms(1), of k] assms(3) by simp
next
  case (5 k)
  then have "k \<notin> fst ` set (mx_queue (mr_mutex s))" using revs_okD(5) [OF assms(1), of k] by simp
  then show ?case using assms(4) by auto
qed (use assms revs_okD(2) in simp_all)

lemma revs_ok_draw: "revs_ok s \<Longrightarrow> revs_ok (step_mutex (Draw i) s)"
proof (rule revs_okI, goal_cases)
  case 2
  then have "mx_revision (mr_mutex s) + 1 \<notin> fst ` set (under_way s)"
    using revs_okD(4) [OF 2, of "mx_revision (mr_mutex s) + 1"] by fastforce
  with 2 show ?case by (simp add: mutex_next_rev_def revs_okD(2))
next
  case (3 k)
  then show ?case using revs_okD(3) [of s k] by (simp add: mutex_next_rev_def)
next
  case (4 k)
  then have "k = mx_revision (mr_mutex s) + 1 \<or> k \<in> fst ` set (under_way s)"
    by (auto simp: mutex_next_rev_def)
  then have "k \<le> mx_revision (mr_mutex s) + 1" using revs_okD(4) [OF 4(1), of k] by linarith
  then show ?case by (simp add: mutex_next_rev_def)
next
  case (5 k)
  then consider "k = mx_revision (mr_mutex s) + 1" | "k \<in> fst ` set (under_way s)"
    by (auto simp: mutex_next_rev_def)
  then have "k \<notin> fst ` set (mx_queue (mr_mutex s))"
    using revs_okD(3) [OF 5(1), of k] revs_okD(5) [OF 5(1), of k] by cases auto
  then show ?case by (simp add: mutex_next_rev_def)
qed (simp add: mutex_next_rev_def revs_okD)

lemma revs_ok_enter:
  assumes ok: "revs_ok s" and call: "(rv, i) \<in> set (under_way s)"
  shows "revs_ok (step_mutex (Enter rv i) s)"
proof -
  have rv: "rv \<in> fst ` set (under_way s)" using call by force
  note q = lock_at_queue [OF revs_okD(1) [OF ok] revs_okD(5) [OF ok rv], of i]
  note rest = under_way_rest [OF revs_okD(2) [OF ok] call]
  show ?thesis
  proof (rule revs_okI, goal_cases)
    case 2
    show ?case using call revs_okD(2) [OF ok] by (simp add: distinct_map_filter)
  next
    case (3 k)
    then have "k = rv \<or> k \<in> fst ` set (mx_queue (mr_mutex s))" using call q(3) by auto
    then show ?case using call q(1) revs_okD(3,4) [OF ok] rv by auto
  next
    case (4 k)
    then have "k \<in> fst ` set (under_way s)" using call rest by auto
    then show ?case using call q(1) revs_okD(4) [OF ok] by simp
  next
    case (5 k)
    then have "k \<in> fst ` set (under_way s) - {rv}" using call rest by simp
    then show ?case using call q(3) revs_okD(5) [OF ok, of k] by auto
  qed (use call q(2) in simp)
qed

lemma revs_ok_try: "revs_ok s \<Longrightarrow> revs_ok (step_mutex (TryLock i) s)"
proof (cases "mx_queue (mr_mutex s) = []")
  case True
  assume ok: "revs_ok s"
  show ?thesis
  proof (rule revs_okI, goal_cases)
    case (4 k)
    then show ?case using True revs_okD(4) [OF ok, of k] by (simp add: try_lock_def mutex_next_rev_def)
  next
    case (5 k)
    then show ?case using True revs_okD(4) [OF ok, of k] by (auto simp: try_lock_def mutex_next_rev_def)
  qed (use True revs_okD(2) [OF ok] in \<open>simp_all add: try_lock_def mutex_next_rev_def\<close>)
qed (simp add: try_lock_def)

lemma revs_ok_step:
  assumes "revs_ok s"
  shows "revs_ok (step_mutex c s)"
proof (cases c)
  case (Enter rv i)
  with assms revs_ok_enter [of s rv i] show ?thesis by fastforce
qed (use assms leave_queue [OF revs_okD(1) [OF assms]] in
    \<open>simp_all add: revs_ok_draw revs_ok_try revs_ok_shrink del: step_mutex.simps(1,3)\<close>)

lemma ahead_step:
  assumes ok: "revs_ok s" and a: "ahead k i s" and stays: "c \<noteq> Unlock i" "c \<noteq> Expire i"
  shows "ahead k i (step_mutex c s)"
proof -
  have k: "(k, i) \<in> places me_lease_id (mx_queue (mr_mutex s))"
    and queue: "\<And>k'. k' \<in> fst ` set (mx_queue (mr_mutex s)) \<Longrightarrow> k \<le> k'"
    and calls: "\<And>k'. k' \<in> fst ` set (under_way s) \<Longrightarrow> k < k'"
    using a unfolding ahead_def by blast+
  have in_queue: "k \<in> fst ` set (mx_queue (mr_mutex s))" using k by (force simp: places_def)
  note leave = leave_queue [OF revs_okD(1) [OF ok]]
  show ?thesis
  proof (cases c)
    case (Draw j)
    have "k < mx_revision (mr_mutex s) + 1" using revs_okD(3) [OF ok in_queue] by simp
    with Draw k queue calls show ?thesis by (auto simp: ahead_def mutex_next_rev_def)
  next
    case (Enter rv j)
    show ?thesis
    proof (cases "(rv, j) \<in> set (under_way s)")
      case True
      then have rv: "rv \<in> fst ` set (under_way s)" by force
      note q = lock_at_queue [OF revs_okD(1) [OF ok] revs_okD(5) [OF ok rv], of j]
      have "k \<le> k'" if "k' \<in> fst ` set (mx_queue (snd (lock_at rv j (mr_mutex s))))" for k'
        using subsetD [OF q(3) that] queue [of k'] calls [OF rv] by force
      moreover have "k < k'" if "k' \<in> fst ` set (filter (\<lambda>c. c \<noteq> (rv, j)) (under_way s))" for k'
        using that calls [of k'] by auto
      ultimately show ?thesis unfolding ahead_def using True Enter q(4) k by auto
    qed (use Enter a in simp)
  next
    case (TryLock j)
    have "mx_queue (mr_mutex s) \<noteq> []" using in_queue by auto
    with TryLock a show ?thesis by (simp add: ahead_def try_lock_def)
  next
    case (Unlock j)
    then have "(k, i) \<in> places me_lease_id (mx_queue (mr_mutex (step_mutex c s)))"
      using leave(7) [of i j k] stays k by auto
    moreover have "k \<le> k'" if "k' \<in> fst ` set (mx_queue (mr_mutex (step_mutex c s)))" for k'
      using that Unlock leave(5) [of j] queue [of k'] by auto
    ultimately show ?thesis using Unlock calls unfolding ahead_def by simp
  next
    case (Expire j)
    then have "(k, i) \<in> places me_lease_id (mx_queue (mr_mutex (step_mutex c s)))"
      using leave(8) [of i j k] stays k by auto
    moreover have "k \<le> k'" if "k' \<in> fst ` set (mx_queue (mr_mutex (step_mutex c s)))" for k'
      using that Expire leave(6) [of j] queue [of k'] by auto
    ultimately show ?thesis using Expire calls unfolding ahead_def by simp
  qed
qed

lemma ahead_run:
  "revs_ok s \<Longrightarrow> ahead k i s \<Longrightarrow> \<forall>c \<in> set ds. c \<noteq> Unlock i \<and> c \<noteq> Expire i \<Longrightarrow>
   revs_ok (fold step_mutex ds s) \<and> ahead k i (fold step_mutex ds s)"
  by (induction ds arbitrary: s) (simp_all add: revs_ok_step ahead_step)

lemma revs_ok_run: "revs_ok (fold step_mutex cs (mutex_start p))"
proof -
  have "revs_ok s \<Longrightarrow> revs_ok (fold step_mutex cs s)" for s
    by (induction cs arbitrary: s) (simp_all add: revs_ok_step)
  then show ?thesis by (simp add: mutex_start_def mutex_new_def revs_ok_def)
qed

text \<open>
  C14: when the owner of a mutex keeps it, with calls of \<open>lock\<close> interleaved in any way. After any
  steps on a new mutex at most one lease is the owner. If no call that drew its revision before
  the owner is still under way, the owner stays the only owner through any further steps, lock
  calls begun, finished or repeated by others included, until it unlocks or its lease expires.
\<close>

theorem mutex_owner_stable:
  assumes "s = fold step_mutex cs (mutex_start p)" and "is_owner i (mr_mutex s)"
    and "\<forall>(rv, _) \<in> set (under_way s). fst (hd (mx_queue (mr_mutex s))) < rv"
    and "\<forall>c \<in> set ds. c \<noteq> Unlock i \<and> c \<noteq> Expire i"
  shows "is_owner j (mr_mutex (fold step_mutex ds s)) \<longleftrightarrow> j = i"
proof -
  have ok: "revs_ok s" unfolding assms(1) by (rule revs_ok_run)
  obtain k e q where q: "mx_queue (mr_mutex s) = (k, e) # q" "me_lease_id e = i"
    using assms(2) by (auto simp: is_owner_def split: list.splits prod.splits)
  have "ahead k i s"
    using q assms(3) revs_okD(1) [OF ok] by (force simp: ahead_def places_def)
  from ahead_run [OF ok this assms(4)] show ?thesis by (blast dest: ahead_owner)
qed

theorem mutex_owner_stable_witness:
  "let s = fold step_mutex [Draw 7, Enter 1 7, Draw 8] (mutex_start ''p'')
   in under_way s = [(2, 8)] \<and>
      is_owner 7 (mr_mutex (fold step_mutex [Draw 9, Enter 3 9, Enter 2 8, Unlock 9, TryLock 5] s))"
proof -
  let ?s = "fold step_mutex [Draw 7, Enter 1 7, Draw 8] (mutex_start ''p'')"
  have "is_owner 7 (mr_mutex ?s)" and u: "under_way ?s = [(2, 8)]"
    and "fst (hd (mx_queue (mr_mutex ?s))) = 1" by code_simp+
  then show ?thesis
    using mutex_owner_stable [OF refl, of 7 "[Draw 7, Enter 1 7, Draw 8]" "''p''"
        "[Draw 9, Enter 3 9, Enter 2 8, Unlock 9, TryLock 5]" 7]
    unfolding Let_def by (simp only: u) simp
qed

text \<open>
  C37: \<open>lock\<close> can say yes to a lease that does not own the mutex, in two ways. Two calls that draw
  their revisions before either registers both succeed when the later revision registers first:
  both leases are told that they hold the lock. And a lease that was told to wait is told yes
  when it calls again, while the other lease still owns the lock.
\<close>

theorem lock_grants_two:
  assumes "i \<noteq> j"
  shows "(let m = mutex_new p; (r, m) = mutex_next_rev m; (r', m) = mutex_next_rev m;
              (a', m) = lock_at r' j m; (a, m) = lock_at r i m
          in a' = Inr r' \<and> a = Inr r \<and> is_owner i m \<and> \<not> is_owner j m) \<and>
         (let m = mutex_new p; (a, m) = lock i m; (b, m) = lock j m; (b', m) = lock j m
          in a = Inr 1 \<and> b = Inl WouldBlock \<and> b' = Inr 2 \<and> is_owner i m \<and> \<not> is_owner j m)"
  using assms
  by (simp add: lock_def lock_at_def mutex_next_rev_def mutex_new_def rev_of_lease_def is_owner_def Let_def)

theorem lock_grants_two_witness:
  "let m = mutex_new ''p''; (a, m) = lock 7 m; (b, m) = lock 8 m; (b', m) = lock 8 m
   in a = Inr 1 \<and> b' = Inr 2 \<and> is_owner 7 m"
  using lock_grants_two [of 7 8 "''p''"] by (simp add: Let_def case_prod_unfold)

subsection \<open>Leadership\<close>

datatype election_cmd = ECampaign i64 bytes | EProclaim i64 bytes | EResign i64 | EExpire i64

fun election_exec :: "election_cmd \<Rightarrow> dist_election \<Rightarrow> dist_election" where
  "election_exec (ECampaign i v) s = snd (election_campaign i v s)"
| "election_exec (EProclaim i v) s = snd (proclaim i v s)"
| "election_exec (EResign i) s = snd (resign i s)"
| "election_exec (EExpire i) s = snd (election_expire_lease i s)"

fun election_leaving :: "election_cmd \<Rightarrow> i64 set" where
  "election_leaving (EResign i) = {i}"
| "election_leaving (EExpire i) = {i}"
| "election_leaving _ = {}"

lemma election_exec_move:
  assumes ok: "queue_ok (el_queue s) (el_rev s)"
  shows "queue_move ec_lease_id (election_leaving c) (el_queue s) (el_rev s)
           (el_queue (election_exec c s)) (el_rev (election_exec c s))"
proof (cases c)
  case (ECampaign i v)
  then show ?thesis using queue_insert [OF ok]
    by (simp add: election_campaign_def campaign_at_def election_next_rev_def Let_def
        join [unfolded Suc_eq_plus1 [symmetric]])
next
  case (EProclaim i v)
  then show ?thesis by (auto simp: proclaim_def stay intro: change split: list.split)
next
  case (EResign i)
  show ?thesis
  proof (cases "el_queue s")
    case Nil
    with EResign show ?thesis by (simp add: resign_def stay)
  next
    case (Cons x q)
    obtain k e where x: "x = (k, e)" by (cases x)
    show ?thesis
    proof (cases "ec_lease_id e = i")
      case True
      with Cons x have "rev_of_lease ec_lease_id i (el_queue s) = Some k" by (simp add: rev_of_lease_def)
      then have "queue_move ec_lease_id {i} (el_queue s) (el_rev s) (bt_remove k (el_queue s)) (el_rev s)"
        by (rule leave) simp
      moreover have "el_queue (snd (resign i s)) = bt_remove k (el_queue s)"
        and "el_rev (snd (resign i s)) = el_rev s" using Cons x True by (simp_all add: resign_def Let_def)
      ultimately show ?thesis using EResign by simp
    next
      case False
      with EResign Cons x show ?thesis by (simp add: resign_def stay)
    qed
  qed
next
  case (EExpire i)
  have "el_queue (snd (election_expire_lease i s)) = filter (\<lambda>(_, e). ec_lease_id e \<noteq> i) (el_queue s)"
    using ok by (simp add: election_expire_lease_def remove_revs_of_lease queue_ok_def Let_def)
  moreover have "el_rev (snd (election_expire_lease i s)) = el_rev s"
    by (simp add: election_expire_lease_def Let_def)
  ultimately show ?thesis using EExpire by (simp add: expire)
qed

interpretation eq: lease_queue el_queue ec_lease_id el_rev election_exec election_leaving
  by (rule lease_queueI) (rule election_exec_move)

text \<open>
  When calls run one after another, the leader of an election leads until it resigns or its lease
  expires.
\<close>

lemma election_leader_stable:
  assumes "election_is_leader i (fold election_exec cs (election_new p))"
    and "\<forall>c \<in> set ds. c \<noteq> EResign i \<and> c \<noteq> EExpire i"
  shows "election_is_leader j (fold election_exec ds (fold election_exec cs (election_new p))) \<longleftrightarrow> j = i"
proof -
  have front: "election_is_leader k s \<longleftrightarrow> front_lease ec_lease_id (el_queue s) = Some k" for k s
    by (auto simp: election_is_leader_def election_leader_def front_lease_def split: list.split)
  have "i \<notin> election_leaving c" if "c \<in> set ds" for c using assms(2) that by (cases c) auto
  moreover have "queue_ok (el_queue (election_new p)) (el_rev (election_new p))" by (simp add: election_new_def)
  ultimately show ?thesis
    using eq.run_front [OF eq.run_ok, of "election_new p" cs i ds] assms(1) by (auto simp: front)
qed

subsection \<open>Readers and writers\<close>

text \<open>
  A writer is granted the lock only when nobody is registered, a reader only when no writer is. A
  registered writer that was told to wait blocks everybody, itself included: calling again never
  succeeds until the entry is removed.
\<close>

lemma rw_grants:
  assumes "queue_ok (rw_writers m) (rw_rev m)"
  shows "fst (wlock i m) = (if rw_readers m = [] \<and> rw_writers m = [] then Inr (rw_rev m + 1) else Inl WouldBlock)"
    and "fst (rlock i m) = (if rw_writers m = [] then Inr (rw_rev m + 1) else Inl WouldBlock)"
  using assms
  by (cases "rw_writers m",
      auto simp: wlock_def wlock_at_def rlock_def rlock_at_def rw_next_rev_def queue_ok_def Let_def)+

end
