(* ===== verification/Etcd_Lease_Ids.thy ===== *)
theory Etcd_Lease_Ids
  imports Etcd_Types
begin

section \<open>The generator of lease ids\<close>

text \<open>
  \<open>cave-etcd/src/lease_id_gen.rs\<close>: the SplitMix64 generator on 64-bit words, whose arithmetic wraps
  as \<open>wrapping_add\<close> and \<open>wrapping_mul\<close> do, and the allocation of an id that is not taken.
\<close>

unbundle bit_operations_syntax

type_synonym w64 = "64 word"

definition MAX_LEASE_ID_RETRIES :: nat where
  "MAX_LEASE_ID_RETRIES = 5"

record lease_id_generator =
  boot_token :: w64
  gen_counter :: w64
  fixed_queue :: "i64 list"

definition lease_ids_new :: "w64 \<Rightarrow> lease_id_generator" where
  "lease_ids_new tok = \<lparr>boot_token = tok, gen_counter = 0, fixed_queue = []\<rparr>"

definition enqueue_fixed :: "i64 \<Rightarrow> lease_id_generator \<Rightarrow> lease_id_generator" where
  "enqueue_fixed i self = self\<lparr>fixed_queue := fixed_queue self @ [i]\<rparr>"

definition splitmix64 :: "w64 \<Rightarrow> w64" where
  "splitmix64 seed =
     (let z = seed + 0x9E3779B97F4A7C15;
          z = (z XOR drop_bit 30 z) * 0xBF58476D1CE4E5B9;
          z = (z XOR drop_bit 27 z) * 0x94D049BB133111EB
      in z XOR drop_bit 31 z)"

text \<open>\<open>Vec::pop\<close> takes the last of the fixed ids.\<close>

definition lease_ids_next :: "lease_id_generator \<Rightarrow> i64 \<times> lease_id_generator" where
  "lease_ids_next self =
     (if fixed_queue self \<noteq> []
      then (last (fixed_queue self), self\<lparr>fixed_queue := butlast (fixed_queue self)\<rparr>)
      else let n = gen_counter self;
               self = self\<lparr>gen_counter := n + 1\<rparr>;
               raw = splitmix64 (boot_token self + n);
               masked = uint (raw AND 0x7FFFFFFFFFFFFFFF)
           in (if masked = 0 then 1 else masked, self))"

fun allocate_loop :: "nat \<Rightarrow> (i64 \<Rightarrow> bool) \<Rightarrow> lease_id_generator \<Rightarrow> i64 option \<times> lease_id_generator" where
  "allocate_loop 0 is_taken self = (None, self)"
| "allocate_loop (Suc n) is_taken self =
     (let (candidate, self) = lease_ids_next self
      in if \<not> is_taken candidate then (Some candidate, self) else allocate_loop n is_taken self)"

text \<open>\<open>None\<close> is the error \<open>LeaseIdRetryExhausted\<close>.\<close>

definition allocate :: "(i64 \<Rightarrow> bool) \<Rightarrow> lease_id_generator \<Rightarrow> i64 option \<times> lease_id_generator" where
  "allocate is_taken self = allocate_loop MAX_LEASE_ID_RETRIES is_taken self"

subsection \<open>The generator does not repeat\<close>

lemma drop_bit_eq_self:
  fixes d :: w64
  assumes "drop_bit n d = d" and "0 < n"
  shows "d = 0"
proof (rule ccontr)
  assume "d \<noteq> 0"
  then have "0 < unat d" by (simp add: unat_gt_0)
  moreover have "1 < (2 :: nat) ^ n" by (rule one_less_power) (simp_all add: assms(2))
  ultimately have "unat d div 2 ^ n < unat d" by (intro div_less_dividend)
  moreover have "unat (drop_bit n d) = unat d div 2 ^ n" by (simp add: unat_drop_bit_eq drop_bit_eq_div [of n "_ :: nat"])
  ultimately show False using assms(1) by simp
qed

lemma xor_shift_inj:
  fixes x y :: w64
  assumes "x XOR drop_bit n x = y XOR drop_bit n y" and "0 < n"
  shows "x = y"
proof -
  have "drop_bit n (x XOR y) = x XOR y"
  proof (rule bit_eqI)
    fix k
    have "bit (x XOR drop_bit n x) k = bit (y XOR drop_bit n y) k" by (simp only: assms(1))
    then show "bit (drop_bit n (x XOR y)) k = bit (x XOR y) k"
      by (auto simp: bit_xor_iff bit_drop_bit_eq)
  qed
  then have "x XOR y = 0" by (rule drop_bit_eq_self [OF _ assms(2)])
  then have "bit x k = bit y k" for k using bit_xor_iff [of x y k] by simp
  then show ?thesis by (rule bit_eqI)
qed

lemma mult_inj:
  fixes x y c d :: w64
  assumes "x * c = y * c" and "c * d = 1"
  shows "x = y"
proof -
  have "x * c * d = y * c * d" by (simp only: assms(1))
  then show ?thesis by (simp only: mult.assoc assms(2) mult_1_right)
qed

lemma splitmix64_inj: "inj splitmix64"
proof (rule injI)
  fix x y
  assume eq: "splitmix64 x = splitmix64 y"
  define u where "u z = (let z = z + 0x9E3779B97F4A7C15 in (z XOR drop_bit 30 z) * 0xBF58476D1CE4E5B9)" for z :: w64
  define v where "v z = (let z = u z in (z XOR drop_bit 27 z) * 0x94D049BB133111EB)" for z
  have "splitmix64 z = v z XOR drop_bit 31 (v z)" for z
    by (simp add: splitmix64_def u_def v_def Let_def)
  with eq have "v x XOR drop_bit 31 (v x) = v y XOR drop_bit 31 (v y)" by (simp only:)
  then have "v x = v y" by (rule xor_shift_inj) simp
  then have "u x XOR drop_bit 27 (u x) = u y XOR drop_bit 27 (u y)"
    unfolding v_def Let_def by (rule mult_inj [where d = 3573116690164977347]) simp
  then have "u x = u y" by (rule xor_shift_inj) simp
  then have "(x + 0x9E3779B97F4A7C15) XOR drop_bit 30 (x + 0x9E3779B97F4A7C15) =
      (y + 0x9E3779B97F4A7C15) XOR drop_bit 30 (y + 0x9E3779B97F4A7C15)"
    unfolding u_def Let_def by (rule mult_inj [where d = 10871156337175269513]) simp
  then have "x + 0x9E3779B97F4A7C15 = y + 0x9E3779B97F4A7C15" by (rule xor_shift_inj) simp
  then show "x = y" by simp
qed

subsection \<open>Drawing and allocating\<close>

text \<open>The id drawn from a word of the sequence.\<close>

definition draw :: "w64 \<Rightarrow> i64" where
  "draw w = (let masked = uint (splitmix64 w AND 0x7FFFFFFFFFFFFFFF) in if masked = 0 then 1 else masked)"

lemma masked_mod: "uint (raw AND 0x7FFFFFFFFFFFFFFF) = uint (raw :: w64) mod 2 ^ 63"
proof -
  have "(0x7FFFFFFFFFFFFFFF :: w64) = mask 63" by (simp add: mask_eq_exp_minus_1)
  then have "raw AND 0x7FFFFFFFFFFFFFFF = take_bit 63 raw" by (simp only: take_bit_eq_mask)
  then show ?thesis by (simp only: unsigned_take_bit_eq) (simp add: take_bit_eq_mod)
qed

lemma draw_bounds: "0 < draw w" "draw w < 2 ^ 63"
  using pos_mod_sign [of "2 ^ 63" "uint (splitmix64 w)"] pos_mod_bound [of "2 ^ 63" "uint (splitmix64 w)"]
  by (auto simp: draw_def masked_mod Let_def)

lemma next_draw:
  "fixed_queue g = [] \<Longrightarrow> lease_ids_next g = (draw (boot_token g + gen_counter g), g\<lparr>gen_counter := gen_counter g + 1\<rparr>)"
  by (simp add: lease_ids_next_def draw_def Let_def)

lemma allocate_loop_find:
  "fixed_queue g = [] \<Longrightarrow>
   fst (allocate_loop n taken g) =
     find (\<lambda>i. \<not> taken i) (map (\<lambda>k. draw (boot_token g + (gen_counter g + of_nat k))) [0 ..< n])"
proof (induction n arbitrary: g)
  case (Suc n)
  let ?g = "g\<lparr>gen_counter := gen_counter g + 1\<rparr>" and ?d = "draw (boot_token g + gen_counter g)"
  have "allocate_loop (Suc n) taken g =
      (if \<not> taken ?d then (Some ?d, ?g) else allocate_loop n taken ?g)"
    by (simp add: next_draw [OF Suc.prems])
  moreover have "map (\<lambda>k. draw (boot_token g + (gen_counter g + of_nat k))) [0 ..< Suc n] =
      ?d # map (\<lambda>k. draw (boot_token ?g + (gen_counter ?g + of_nat k))) [0 ..< n]"
    by (simp add: upt_conv_Cons map_Suc_upt [symmetric] comp_def add.assoc del: upt_Suc)
  ultimately show ?case using Suc.IH [of ?g] Suc.prems by simp
qed simp

lemma draw_repeats:
  assumes "i \<noteq> 1"
  shows "card {w. draw w = i} \<le> 2"
proof -
  have "{w. draw w = i} \<subseteq> {w. splitmix64 w \<in> {word_of_int i, word_of_int (i + 2 ^ 63)}}"
  proof
    fix w
    assume "w \<in> {w. draw w = i}"
    then have low: "uint (splitmix64 w) mod 2 ^ 63 = i"
      using assms by (auto simp: draw_def masked_mod Let_def split: if_splits)
    have "uint (splitmix64 w) < 2 ^ 64" by (rule order_less_le_trans [OF unsigned_less]) simp
    then have "uint (splitmix64 w) div 2 ^ 63 < 2" by (simp add: div_less_iff_less_mult)
    moreover have "0 \<le> uint (splitmix64 w) div 2 ^ 63" by (simp add: pos_imp_zdiv_nonneg_iff)
    ultimately have "uint (splitmix64 w) div 2 ^ 63 \<in> {0, 1}" by auto
    then have "uint (splitmix64 w) = i \<or> uint (splitmix64 w) = i + 2 ^ 63"
      using low div_mult_mod_eq [of "uint (splitmix64 w)" "2 ^ 63"] by auto
    then show "w \<in> {w. splitmix64 w \<in> {word_of_int i, word_of_int (i + 2 ^ 63)}}"
      by (metis insertCI mem_Collect_eq word_of_int_uint)
  qed
  then have "card {w. draw w = i} \<le> card {w. splitmix64 w \<in> {word_of_int i, word_of_int (i + 2 ^ 63)}}"
    by (intro card_mono) simp
  also have "\<dots> \<le> card {word_of_int i :: w64, word_of_int (i + 2 ^ 63)}"
    by (intro card_inj_on_le [OF inj_on_subset [OF splitmix64_inj]]) auto
  also have "\<dots> \<le> 2" by (simp add: card_insert_if)
  finally show ?thesis .
qed

text \<open>
  What the generator hands out. Without fixed ids, allocation returns the first of its next five
  draws that is not taken, and fails exactly when all five are taken; every id is positive and fits
  into 63 bits. Draws hardly repeat: of the \<open>2 ^ 64\<close> states of the counter at most two
  draw the same id, apart from the id 1.
\<close>

lemma lease_id_allocation:
  assumes "fixed_queue g = []" and "i \<noteq> 1"
  defines "ids \<equiv> map (\<lambda>k. draw (boot_token g + (gen_counter g + of_nat k))) [0 ..< 5]"
  shows "fst (allocate taken g) = find (\<lambda>i. \<not> taken i) ids \<and>
         (\<forall>i \<in> set ids. 0 < i \<and> i < 2 ^ 63) \<and> card {w. draw w = i} \<le> 2"
  using allocate_loop_find [OF assms(1), of 5 taken] draw_bounds draw_repeats [OF assms(2)]
  by (auto simp: allocate_def MAX_LEASE_ID_RETRIES_def ids_def)

lemma lease_id_allocation_witness:
  "fst (allocate (\<lambda>i. False) (lease_ids_new 7)) = Some (draw 7) \<and> draw 7 \<noteq> 0"
  using lease_id_allocation [of "lease_ids_new 7" 2 "\<lambda>i. False"] draw_bounds(1) [of 7]
  by (simp add: lease_ids_new_def upt_rec)

end
