(* ===== verification/Etcd_Quota.thy ===== *)
theory Etcd_Quota
  imports Etcd_Types
begin

section \<open>Quotas of tenants\<close>

text \<open>
  \<open>cave-etcd/src/quota.rs\<close>: accounting of keys and bytes per key prefix. Counters are 64-bit words,
  whose addition wraps as in the release build.
\<close>

type_synonym count = "64 word"

record usage_snapshot =
  us_keys :: count
  us_bytes :: count

record quota_limits =
  max_keys :: count
  max_bytes :: count

definition quota_unbounded :: quota_limits where
  "quota_unbounded = \<lparr>max_keys = - 1, max_bytes = - 1\<rparr>"

datatype quota_decision =
    Allow
  | DenyMaxKeys count count
  | DenyMaxBytes count count

definition is_allow :: "quota_decision \<Rightarrow> bool" where
  "is_allow d \<longleftrightarrow> (case d of Allow \<Rightarrow> True | _ \<Rightarrow> False)"

record tenant_state =
  ts_usage :: usage_snapshot
  ts_limits :: "quota_limits option"

record quota_tracker =
  tenants :: "(bytes \<times> tenant_state) list"
  default_limits :: "quota_limits option"
  qt_global_usage :: usage_snapshot

definition usage_default :: usage_snapshot where
  "usage_default = \<lparr>us_keys = 0, us_bytes = 0\<rparr>"

definition tenant_default :: tenant_state where
  "tenant_default = \<lparr>ts_usage = usage_default, ts_limits = None\<rparr>"

definition quota_new :: quota_tracker where
  "quota_new = \<lparr>tenants = [], default_limits = None, qt_global_usage = usage_default\<rparr>"

definition set_default_limits :: "quota_limits \<Rightarrow> quota_tracker \<Rightarrow> quota_tracker" where
  "set_default_limits l self = self\<lparr>default_limits := Some l\<rparr>"

definition register_tenant :: "bytes \<Rightarrow> quota_limits \<Rightarrow> quota_tracker \<Rightarrow> quota_tracker" where
  "register_tenant p limits self =
     (let t = (case map_of (tenants self) p of Some t \<Rightarrow> t | None \<Rightarrow> tenant_default)
      in self\<lparr>tenants := bt_insert p (t\<lparr>ts_limits := Some limits\<rparr>) (tenants self)\<rparr>)"

definition unregister_tenant :: "bytes \<Rightarrow> quota_tracker \<Rightarrow> usage_snapshot option \<times> quota_tracker" where
  "unregister_tenant p self =
     (map_option ts_usage (map_of (tenants self) p),
      self\<lparr>tenants := filter (\<lambda>(q, _). q \<noteq> p) (tenants self)\<rparr>)"

text \<open>\<open>starts_with\<close>, and \<open>max_by_key\<close>, which keeps the last of equal elements.\<close>

definition starts_with :: "bytes \<Rightarrow> bytes \<Rightarrow> bool" where
  "starts_with key p \<longleftrightarrow> take (length p) key = p"

definition longest :: "bytes list \<Rightarrow> bytes option" where
  "longest ps =
     fold (\<lambda>p best. case best of None \<Rightarrow> Some p | Some b \<Rightarrow> if length p \<ge> length b then Some p else Some b)
       ps None"

definition match_prefix :: "quota_tracker \<Rightarrow> bytes \<Rightarrow> bytes option" where
  "match_prefix g key = longest (filter (starts_with key) (map fst (tenants g)))"

definition account :: "quota_tracker \<Rightarrow> bytes \<Rightarrow> usage_snapshot \<times> quota_limits option" where
  "account g key =
     (case match_prefix g key of
        Some p \<Rightarrow>
          let t = the (map_of (tenants g) p)
          in (ts_usage t, case ts_limits t of Some l \<Rightarrow> Some l | None \<Rightarrow> default_limits g)
      | None \<Rightarrow> (qt_global_usage g, default_limits g))"

definition check_put :: "quota_tracker \<Rightarrow> bytes \<Rightarrow> count \<Rightarrow> quota_decision" where
  "check_put g key n =
     (let (us, limits) = account g key
      in case limits of
           None \<Rightarrow> Allow
         | Some l \<Rightarrow>
             if us_keys us + 1 > max_keys l then DenyMaxKeys (us_keys us) (max_keys l)
             else if us_bytes us + n > max_bytes l then DenyMaxBytes (us_bytes us) (max_bytes l)
             else Allow)"

definition charge :: "count \<Rightarrow> usage_snapshot \<Rightarrow> usage_snapshot" where
  "charge n u = u\<lparr>us_keys := us_keys u + 1, us_bytes := us_bytes u + n\<rparr>"

definition saturating_sub :: "count \<Rightarrow> count \<Rightarrow> count" where
  "saturating_sub a b = (if a < b then 0 else a - b)"

definition refund :: "count \<Rightarrow> usage_snapshot \<Rightarrow> usage_snapshot" where
  "refund n u = u\<lparr>us_keys := saturating_sub (us_keys u) 1, us_bytes := saturating_sub (us_bytes u) n\<rparr>"

definition update_usage :: "(usage_snapshot \<Rightarrow> usage_snapshot) \<Rightarrow> bytes \<Rightarrow> quota_tracker \<Rightarrow> quota_tracker" where
  "update_usage f key g =
     (let g = g\<lparr>qt_global_usage := f (qt_global_usage g)\<rparr>
      in case match_prefix g key of
           None \<Rightarrow> g
         | Some p \<Rightarrow> g\<lparr>tenants := map (\<lambda>(q, t). (q, if q = p then t\<lparr>ts_usage := f (ts_usage t)\<rparr> else t))
                                    (tenants g)\<rparr>)"

definition record_put :: "bytes \<Rightarrow> count \<Rightarrow> quota_tracker \<Rightarrow> quota_tracker" where
  "record_put key n self = update_usage (charge n) key self"

definition record_delete :: "bytes \<Rightarrow> count \<Rightarrow> quota_tracker \<Rightarrow> quota_tracker" where
  "record_delete key n self = update_usage (refund n) key self"

definition usage_for :: "quota_tracker \<Rightarrow> bytes \<Rightarrow> usage_snapshot" where
  "usage_for self p = (case map_of (tenants self) p of Some t \<Rightarrow> ts_usage t | None \<Rightarrow> usage_default)"

definition global_usage :: "quota_tracker \<Rightarrow> usage_snapshot" where
  "global_usage self = qt_global_usage self"

subsection \<open>Which tenant a key belongs to\<close>

lemma starts_with_unique: "starts_with key p \<Longrightarrow> starts_with key q \<Longrightarrow> length p = length q \<Longrightarrow> p = q"
  by (simp add: starts_with_def)

lemma longest_fold:
  "fold (\<lambda>p best. case best of None \<Rightarrow> Some p | Some b \<Rightarrow> if length p \<ge> length b then Some p else Some b)
     ps (Some b) = Some r \<Longrightarrow> r \<in> insert b (set ps) \<and> length b \<le> length r \<and> (\<forall>p \<in> set ps. length p \<le> length r)"
  by (induction ps arbitrary: b) (fastforce split: if_splits)+

lemma fold_longest_Some:
  "\<exists>r. fold (\<lambda>p best. case best of None \<Rightarrow> Some p | Some b \<Rightarrow> if length p \<ge> length b then Some p else Some b)
     ps (Some b) = Some r"
  by (induction ps arbitrary: b) simp_all

lemma longest_None: "longest ps = None \<longleftrightarrow> ps = []"
proof (cases ps)
  case (Cons p qs)
  then show ?thesis using fold_longest_Some [of qs p] by (auto simp: longest_def)
qed (simp add: longest_def)

lemma longest_Some: "longest ps = Some r \<Longrightarrow> r \<in> set ps \<and> (\<forall>p \<in> set ps. length p \<le> length r)"
  by (cases ps) (auto simp: longest_def dest: longest_fold)

lemma match_prefix_None: "match_prefix g key = None \<longleftrightarrow> (\<forall>p \<in> fst ` set (tenants g). \<not> starts_with key p)"
  by (auto simp: match_prefix_def longest_None filter_empty_conv)

lemma match_prefix_Some:
  "match_prefix g key = Some p \<longleftrightarrow>
     p \<in> fst ` set (tenants g) \<and> starts_with key p \<and>
     (\<forall>q \<in> fst ` set (tenants g). starts_with key q \<longrightarrow> length q \<le> length p)"  (is "?l \<longleftrightarrow> ?r")
proof
  assume ?l
  then have "p \<in> set (filter (starts_with key) (map fst (tenants g)))"
    and "\<forall>q \<in> set (filter (starts_with key) (map fst (tenants g))). length q \<le> length p"
    unfolding match_prefix_def by (blast dest: longest_Some)+
  then show ?r by simp
next
  assume r: ?r
  then obtain q where q: "match_prefix g key = Some q"
    using match_prefix_None [of g key] by (cases "match_prefix g key") auto
  then have "q \<in> fst ` set (tenants g)" and "starts_with key q" and "length p \<le> length q"
    using r longest_Some [of "filter (starts_with key) (map fst (tenants g))" q]
    by (simp_all add: match_prefix_def)
  with r have "q = p" by (metis le_antisym starts_with_unique)
  with q show ?l by simp
qed

subsection \<open>The limits are kept\<close>

text \<open>
  A write that asks first, and a sequence of them with the list of those let through. Asking and
  recording are two calls with a lock each; here nobody comes in between.
\<close>

definition guarded_put :: "bytes \<times> count \<Rightarrow> quota_tracker \<times> (bytes \<times> count) list \<Rightarrow> quota_tracker \<times> (bytes \<times> count) list" where
  "guarded_put w gl =
     (case (w, gl) of ((key, n), (g, done)) \<Rightarrow>
        if is_allow (check_put g key n) then (record_put key n g, done @ [(key, n)]) else (g, done))"

definition belongs :: "quota_tracker \<Rightarrow> bytes \<Rightarrow> bytes \<times> count \<Rightarrow> bool" where
  "belongs g p w \<longleftrightarrow> match_prefix g (fst w) = Some p"

lemma update_usage_keys [simp]: "map fst (tenants (update_usage f key g)) = map fst (tenants g)"
  by (simp add: update_usage_def Let_def comp_def case_prod_unfold split: option.split)

lemma match_prefix_update [simp]: "match_prefix (update_usage f key g) = match_prefix g"
  by (simp add: match_prefix_def fun_eq_iff)

lemma map_of_map_if:
  "map_of (map (\<lambda>(q, t). (q, if q = p then h t else t)) m) q =
     (if q = p then map_option h (map_of m q) else map_of m q)"
  by (induction m) auto

lemma update_usage_tenant:
  "map_of (tenants (update_usage f key g)) p =
     (if match_prefix g key = Some p then map_option (\<lambda>t. t\<lparr>ts_usage := f (ts_usage t)\<rparr>) (map_of (tenants g) p)
      else map_of (tenants g) p)"
proof -
  have "match_prefix (g\<lparr>qt_global_usage := u\<rparr>) key = match_prefix g key" for u by (simp add: match_prefix_def)
  then show ?thesis
    by (auto simp: update_usage_def map_of_map_if Let_def split: option.split)
qed

text \<open>
  The account of tenant \<open>p\<close> with limits \<open>l\<close> shows what was let through and stays within the limits.
\<close>

definition account_ok :: "bytes \<Rightarrow> quota_limits \<Rightarrow> quota_tracker \<times> (bytes \<times> count) list \<Rightarrow> bool" where
  "account_ok p l gl \<longleftrightarrow>
     (\<exists>t. map_of (tenants (fst gl)) p = Some t \<and> ts_limits t = Some l \<and>
        unat (us_keys (ts_usage t)) = length (filter (belongs (fst gl) p) (snd gl)) \<and>
        unat (us_bytes (ts_usage t)) = sum_list (map (unat \<circ> snd) (filter (belongs (fst gl) p) (snd gl))) \<and>
        us_keys (ts_usage t) \<le> max_keys l \<and> us_bytes (ts_usage t) \<le> max_bytes l)"

lemma guarded_put_ok:
  assumes ok: "account_ok p l gl" and room: "unat (snd w) + unat (max_bytes l) < 2 ^ 64"
    and bounded: "max_keys l \<noteq> - 1"
  shows "account_ok p l (guarded_put w gl) \<and> match_prefix (fst (guarded_put w gl)) = match_prefix (fst gl)"
proof -
  obtain key n where w: "w = (key, n)" by (cases w)
  obtain g ws where gl: "gl = (g, ws)" by (cases gl)
  obtain t where t: "map_of (tenants g) p = Some t" "ts_limits t = Some l"
    "unat (us_keys (ts_usage t)) = length (filter (belongs g p) ws)"
    "unat (us_bytes (ts_usage t)) = sum_list (map (unat \<circ> snd) (filter (belongs g p) ws))"
    "us_keys (ts_usage t) \<le> max_keys l" "us_bytes (ts_usage t) \<le> max_bytes l"
    using ok by (auto simp: account_ok_def gl)
  have same: "belongs (update_usage f k g) p = belongs g p" for f k by (simp add: belongs_def fun_eq_iff)
  show ?thesis
  proof (cases "is_allow (check_put g key n)")
    case False
    then show ?thesis using ok by (simp add: guarded_put_def w gl)
  next
    case True
    then have step: "guarded_put w gl = (record_put key n g, ws @ [(key, n)])" by (simp add: guarded_put_def w gl)
    show ?thesis
    proof (cases "match_prefix g key = Some p")
      case False
      then show ?thesis
        unfolding step
        using t by (simp add: account_ok_def record_put_def update_usage_tenant same, simp add: belongs_def gl)
    next
      case mine: True
      have fit: "us_keys (ts_usage t) + 1 \<le> max_keys l" "us_bytes (ts_usage t) + n \<le> max_bytes l"
        using True mine t(1,2) by (auto simp: check_put_def account_def is_allow_def not_less split: if_splits)
      have "us_keys (ts_usage t) \<noteq> - 1" using t(5) bounded word_order.extremum_unique by metis
      then have k: "unat (us_keys (ts_usage t) + 1) = unat (us_keys (ts_usage t)) + 1"
        by (metis Suc_eq_plus1 add.commute unat_plus_simple unatSuc add_eq_0_iff)
      have "unat (us_bytes (ts_usage t)) \<le> unat (max_bytes l)" using t(6) by (simp add: word_le_nat_alt)
      then have "unat (us_bytes (ts_usage t)) + unat n < 2 ^ 64" using room w by simp
      then have b: "unat (us_bytes (ts_usage t) + n) = unat (us_bytes (ts_usage t)) + unat n"
        by (simp add: unat_word_ariths)
      show ?thesis
        unfolding step
        using t fit mine k b
        by (simp add: account_ok_def record_put_def update_usage_tenant same charge_def, simp add: belongs_def gl)
    qed
  qed
qed

lemma guarded_puts_ok:
  assumes "account_ok p l gl" and "\<forall>w \<in> set ws. unat (snd w) + unat (max_bytes l) < 2 ^ 64"
    and "max_keys l \<noteq> - 1"
  shows "account_ok p l (fold guarded_put ws gl) \<and> match_prefix (fst (fold guarded_put ws gl)) = match_prefix (fst gl)"
  using assms
proof (induction ws arbitrary: gl)
  case (Cons w ws)
  then have "account_ok p l (guarded_put w gl) \<and> match_prefix (fst (guarded_put w gl)) = match_prefix (fst gl)"
    by (intro guarded_put_ok) simp_all
  with Cons show ?case by simp
qed simp

text \<open>
  C21: a quota holds. Let a tenant start with an empty account and let every write ask first
  and be recorded before the next one asks. Of any sequence of writes, those that are let through and have the tenant's prefix as the longest
  registered one are at most as many as the tenant may have keys and carry at most as many bytes as
  it may have, and the account of the tenant shows exactly these numbers. The bytes of a write and
  the limit must fit into 64 bits together: the check adds them with wrap-around.
\<close>

theorem quota_kept:
  assumes "map_of (tenants g) p = Some \<lparr>ts_usage = usage_default, ts_limits = Some l\<rparr>"
    and "\<forall>w \<in> set ws. unat (snd w) + unat (max_bytes l) < 2 ^ 64" and "max_keys l \<noteq> - 1"
  shows "let (g', done) = fold guarded_put ws (g, []);
             mine = filter (\<lambda>w. match_prefix g (fst w) = Some p) done
         in length mine \<le> unat (max_keys l) \<and> sum_list (map (unat \<circ> snd) mine) \<le> unat (max_bytes l) \<and>
            unat (us_keys (usage_for g' p)) = length mine \<and>
            unat (us_bytes (usage_for g' p)) = sum_list (map (unat \<circ> snd) mine)"
proof -
  have "account_ok p l (g, [])"
    using assms(1) by (simp add: account_ok_def usage_default_def)
  from guarded_puts_ok [OF this assms(2,3)]
  have ok: "account_ok p l (fold guarded_put ws (g, []))"
    and same: "match_prefix (fst (fold guarded_put ws (g, []))) = match_prefix g" by simp_all
  have "belongs (fst (fold guarded_put ws (g, []))) p = (\<lambda>w. match_prefix g (fst w) = Some p)"
    by (simp add: belongs_def fun_eq_iff same)
  with ok show ?thesis
    by (auto simp: account_ok_def usage_for_def word_le_nat_alt case_prod_unfold Let_def)
qed

definition demo_quota :: quota_tracker where
  "demo_quota = register_tenant ''/a'' \<lparr>max_keys = 2, max_bytes = 10\<rparr> quota_new"

theorem quota_kept_witness:
  "length (filter (\<lambda>w. match_prefix demo_quota (fst w) = Some ''/a'')
     (snd (fold guarded_put [(''/a1'', 4), (''/a2'', 7), (''/a3'', 6), (''/a4'', 0)] (demo_quota, [])))) \<le> 2"
proof -
  have "map_of (tenants demo_quota) ''/a'' =
      Some \<lparr>ts_usage = usage_default, ts_limits = Some \<lparr>max_keys = 2, max_bytes = 10\<rparr>\<rparr>"
    by (simp add: demo_quota_def register_tenant_def quota_new_def tenant_default_def)
  moreover have "(2 :: count) \<noteq> - 1" by simp
  ultimately show ?thesis
    using quota_kept [of demo_quota "''/a''" "\<lparr>max_keys = 2, max_bytes = 10\<rparr>"
        "[(''/a1'', 4), (''/a2'', 7), (''/a3'', 6), (''/a4'', 0)]"]
    by (simp add: case_prod_unfold Let_def)
qed

end
