(* ===== verification/Kernel_Lease.thy ===== *)
theory Kernel_Lease
  imports Prelude
begin

section \<open>Named leases of the kernel\<close>

text \<open>
  \<open>cave-kernel/src/lease.rs\<close>: the table of named leases. A \<open>SystemTime\<close> is a number of nanoseconds
  since the epoch, negative before it, a \<open>Duration\<close> a natural number of nanoseconds. At the end
  the contract that a client relies on, as a locale, and the table as an instance of it.
\<close>

definition NANOS_PER_SEC :: nat where
  "NANOS_PER_SEC = 1000000000"

declare NANOS_PER_SEC_def [code del]

definition as_secs :: "nat \<Rightarrow> u64" where
  "as_secs d = d div NANOS_PER_SEC"

definition unix_seconds :: "int \<Rightarrow> u64" where
  "unix_seconds t = (if t < 0 then 0 else as_secs (nat t))"

definition saturating_add :: "u64 \<Rightarrow> u64 \<Rightarrow> u64" where
  "saturating_add a b = min (a + b) (2 ^ 64 - 1)"

declare saturating_add_def [code del]

record lease_info =
  li_name :: string
  li_holder :: string
  expires_at_unix :: u64
  li_revision :: u64

datatype lease_error =
    Held string string u64
  | LeaseMissing string
  | InvalidTtl

record lease_manager =
  lm_leases :: "(string \<times> lease_info) list"
  lm_next_revision :: u64

definition lease_manager_new :: lease_manager where
  "lease_manager_new = \<lparr>lm_leases = [], lm_next_revision = 0\<rparr>"

definition lease_acquire ::
  "string \<Rightarrow> string \<Rightarrow> nat \<Rightarrow> int \<Rightarrow> lease_manager \<Rightarrow> (lease_error + lease_info) \<times> lease_manager" where
  "lease_acquire name holder ttl now g =
     (if ttl = 0 then (Inl InvalidTtl, g)
      else
        let now_unix = unix_seconds now;
            granted =
              (let g = g\<lparr>lm_next_revision := lm_next_revision g + 1\<rparr>;
                   info = \<lparr>li_name = name, li_holder = holder,
                           expires_at_unix = saturating_add now_unix (as_secs ttl),
                           li_revision = lm_next_revision g\<rparr>
               in (Inr info, g\<lparr>lm_leases := AList.update name info (lm_leases g)\<rparr>))
        in case map_of (lm_leases g) name of
             Some existing \<Rightarrow>
               if expires_at_unix existing > now_unix \<and> li_holder existing \<noteq> holder
               then (Inl (Held name (li_holder existing) (expires_at_unix existing)), g)
               else granted
           | None \<Rightarrow> granted)"

definition lease_renew ::
  "string \<Rightarrow> string \<Rightarrow> nat \<Rightarrow> int \<Rightarrow> lease_manager \<Rightarrow> (lease_error + lease_info) \<times> lease_manager" where
  "lease_renew name holder ttl now g =
     (if ttl = 0 then (Inl InvalidTtl, g)
      else case map_of (lm_leases g) name of
             None \<Rightarrow> (Inl (LeaseMissing name), g)
           | Some info \<Rightarrow>
               if li_holder info \<noteq> holder
               then (Inl (Held name (li_holder info) (expires_at_unix info)), g)
               else let info = info\<lparr>expires_at_unix := saturating_add (unix_seconds now) (as_secs ttl)\<rparr>
                    in (Inr info, g\<lparr>lm_leases := AList.update name info (lm_leases g)\<rparr>))"

definition kernel_lease_revoke ::
  "string \<Rightarrow> string \<Rightarrow> lease_manager \<Rightarrow> (lease_error + unit) \<times> lease_manager" where
  "kernel_lease_revoke name holder g =
     (case map_of (lm_leases g) name of
        None \<Rightarrow> (Inl (LeaseMissing name), g)
      | Some info \<Rightarrow>
          if li_holder info \<noteq> holder
          then (Inl (Held name (li_holder info) (expires_at_unix info)), g)
          else (Inr (), g\<lparr>lm_leases := AList.delete name (lm_leases g)\<rparr>))"

definition lease_get :: "lease_manager \<Rightarrow> string \<Rightarrow> lease_info option" where
  "lease_get g name = map_of (lm_leases g) name"

definition lease_list :: "lease_manager \<Rightarrow> lease_info list" where
  "lease_list g = map snd (lm_leases g)"

definition sweep_expired :: "int \<Rightarrow> lease_manager \<Rightarrow> usize \<times> lease_manager" where
  "sweep_expired now g =
     (let now_unix = unix_seconds now;
          before = length (lm_leases g);
          g = g\<lparr>lm_leases := filter (\<lambda>(_, info). expires_at_unix info > now_unix) (lm_leases g)\<rparr>
      in (before - length (lm_leases g), g))"

subsection \<open>The contract of a lease table\<close>

text \<open>\<open>E\<close> is a time until which \<open>a\<close> holds the lease.\<close>

definition holds_until :: "lease_info option \<Rightarrow> string \<Rightarrow> u64 \<Rightarrow> bool" where
  "holds_until li a E \<longleftrightarrow> (\<exists>i. li = Some i \<and> li_holder i = a \<and> E \<le> expires_at_unix i)"

locale lease_service =
  fixes lookup :: "'m \<Rightarrow> string \<Rightarrow> lease_info option"
    and acquire :: "string \<Rightarrow> string \<Rightarrow> nat \<Rightarrow> int \<Rightarrow> 'm \<Rightarrow> (lease_error + lease_info) \<times> 'm"
    and renew :: "string \<Rightarrow> string \<Rightarrow> nat \<Rightarrow> int \<Rightarrow> 'm \<Rightarrow> (lease_error + lease_info) \<times> 'm"
    and revoke :: "string \<Rightarrow> string \<Rightarrow> 'm \<Rightarrow> (lease_error + unit) \<times> 'm"
    and sweep :: "int \<Rightarrow> 'm \<Rightarrow> usize \<times> 'm"
    and valid :: "'m \<Rightarrow> bool"
  assumes acquire_other: "\<lbrakk>lookup m n = Some i; unix_seconds now < expires_at_unix i; li_holder i \<noteq> h\<rbrakk> \<Longrightarrow>
      \<exists>e. acquire n h ttl now m = (Inl e, m)"
    and acquire_granted: "fst (acquire n h ttl now m) = Inr i \<Longrightarrow>
      lookup (snd (acquire n h ttl now m)) n = Some i \<and> li_holder i = h \<and>
      expires_at_unix i = saturating_add (unix_seconds now) (as_secs ttl)"
    and acquire_refused: "fst (acquire n h ttl now m) = Inl e \<Longrightarrow> snd (acquire n h ttl now m) = m"
    and renew_granted: "fst (renew n h ttl now m) = Inr i \<Longrightarrow>
      (\<exists>j. lookup m n = Some j \<and> li_holder j = h) \<and> lookup (snd (renew n h ttl now m)) n = Some i \<and>
      li_holder i = h \<and> expires_at_unix i = saturating_add (unix_seconds now) (as_secs ttl)"
    and renew_refused: "fst (renew n h ttl now m) = Inl e \<Longrightarrow> snd (renew n h ttl now m) = m"
    and revoke_other: "\<lbrakk>lookup m n = Some i; li_holder i \<noteq> h\<rbrakk> \<Longrightarrow> \<exists>e. revoke n h m = (Inl e, m)"
    and sweep_keeps: "\<lbrakk>valid m; lookup m n = Some i; unix_seconds now < expires_at_unix i\<rbrakk> \<Longrightarrow>
      lookup (snd (sweep now m)) n = Some i"
    and valid_ops: "valid m \<Longrightarrow> valid (snd (acquire n h ttl now m))" "valid m \<Longrightarrow> valid (snd (renew n h ttl now m))"
      "valid m \<Longrightarrow> valid (snd (revoke n h m))" "valid m \<Longrightarrow> valid (snd (sweep now m))"
begin

lemma holds_acquire:
  assumes "holds_until (lookup m n) a E" and "unix_seconds now < E"
    and "h = a \<Longrightarrow> E \<le> saturating_add (unix_seconds now) (as_secs ttl)"
  shows "holds_until (lookup (snd (acquire n h ttl now m)) n) a E"
    and "h \<noteq> a \<Longrightarrow> \<exists>e. fst (acquire n h ttl now m) = Inl e"
proof -
  obtain i where i: "lookup m n = Some i" "li_holder i = a" "unix_seconds now < expires_at_unix i"
    using assms(1,2) by (auto simp: holds_until_def)
  show "\<exists>e. fst (acquire n h ttl now m) = Inl e" if "h \<noteq> a"
    using acquire_other [OF i(1,3), of h ttl] that i(2) by auto
  then show "holds_until (lookup (snd (acquire n h ttl now m)) n) a E"
    using acquire_granted [of n h ttl now m] acquire_refused [of n h ttl now m] assms(1,3)
    by (cases "fst (acquire n h ttl now m)") (auto simp: holds_until_def)
qed

lemma holds_renew:
  assumes "holds_until (lookup m n) a E" and "h = a \<Longrightarrow> E \<le> saturating_add (unix_seconds now) (as_secs ttl)"
  shows "holds_until (lookup (snd (renew n h ttl now m)) n) a E"
    and "h \<noteq> a \<Longrightarrow> \<exists>e. fst (renew n h ttl now m) = Inl e"
proof -
  obtain i where i: "lookup m n = Some i" "li_holder i = a" using assms(1) by (auto simp: holds_until_def)
  show other: "\<exists>e. fst (renew n h ttl now m) = Inl e" if "h \<noteq> a"
  proof (cases "fst (renew n h ttl now m)")
    case (Inr j)
    with renew_granted [OF Inr] i that show ?thesis by simp
  qed simp
  show "holds_until (lookup (snd (renew n h ttl now m)) n) a E"
  proof (cases "fst (renew n h ttl now m)")
    case (Inl e)
    with assms(1) show ?thesis by (simp add: renew_refused)
  next
    case (Inr j)
    with other have "h = a" by auto
    with renew_granted [OF Inr] assms(2) show ?thesis by (simp add: holds_until_def)
  qed
qed

lemma holds_revoke:
  "holds_until (lookup m n) a E \<Longrightarrow> h \<noteq> a \<Longrightarrow> holds_until (lookup (snd (revoke n h m)) n) a E"
proof -
  assume held: "holds_until (lookup m n) a E" and "h \<noteq> a"
  then obtain i where "lookup m n = Some i" and "li_holder i \<noteq> h" by (auto simp: holds_until_def)
  then obtain e where "revoke n h m = (Inl e, m)" using revoke_other by blast
  with held show ?thesis by simp
qed

lemma holds_sweep:
  "\<lbrakk>valid m; holds_until (lookup m n) a E; unix_seconds now < E\<rbrakk> \<Longrightarrow>
   holds_until (lookup (snd (sweep now m)) n) a E"
proof -
  assume v: "valid m" and held: "holds_until (lookup m n) a E" and now: "unix_seconds now < E"
  then obtain i where i: "lookup m n = Some i" "li_holder i = a" "E \<le> expires_at_unix i"
    by (auto simp: holds_until_def)
  have "lookup (snd (sweep now m)) n = Some i"
    using now i(3) by (intro sweep_keeps [OF v i(1)]) simp
  with i show ?thesis by (simp add: holds_until_def)
qed

end

lemma map_of_filter_distinct:
  "alist_wf m \<Longrightarrow> map_of m k = Some v \<Longrightarrow> P v \<Longrightarrow> map_of (filter (\<lambda>(_, v). P v) m) k = Some v"
  by (induction m) (auto split: if_splits dest: map_of_SomeD_key)

lemma lease_acquire_cases:
  obtains (refused) e where "lease_acquire n h ttl now g = (Inl e, g)"
  | (granted) i where "fst (lease_acquire n h ttl now g) = Inr i" "li_holder i = h"
      "expires_at_unix i = saturating_add (unix_seconds now) (as_secs ttl)"
      "lm_leases (snd (lease_acquire n h ttl now g)) = AList.update n i (lm_leases g)"
proof -
  have "(\<exists>e. lease_acquire n h ttl now g = (Inl e, g)) \<or>
      (\<exists>i. fst (lease_acquire n h ttl now g) = Inr i \<and> li_holder i = h \<and>
         expires_at_unix i = saturating_add (unix_seconds now) (as_secs ttl) \<and>
         lm_leases (snd (lease_acquire n h ttl now g)) = AList.update n i (lm_leases g))"
    by (simp add: lease_acquire_def Let_def split: option.split)
  then show thesis using that by blast
qed

lemma lease_renew_cases:
  obtains (refused) e where "lease_renew n h ttl now g = (Inl e, g)"
  | (granted) i j where "fst (lease_renew n h ttl now g) = Inr i" "li_holder i = h"
      "expires_at_unix i = saturating_add (unix_seconds now) (as_secs ttl)"
      "lm_leases (snd (lease_renew n h ttl now g)) = AList.update n i (lm_leases g)"
      "map_of (lm_leases g) n = Some j" "li_holder j = h"
proof -
  have "(\<exists>e. lease_renew n h ttl now g = (Inl e, g)) \<or>
      (\<exists>i j. fst (lease_renew n h ttl now g) = Inr i \<and> li_holder i = h \<and>
         expires_at_unix i = saturating_add (unix_seconds now) (as_secs ttl) \<and>
         lm_leases (snd (lease_renew n h ttl now g)) = AList.update n i (lm_leases g) \<and>
         map_of (lm_leases g) n = Some j \<and> li_holder j = h)"
    by (simp add: lease_renew_def Let_def split: option.split)
  then show thesis using that by blast
qed

interpretation kl: lease_service lease_get lease_acquire lease_renew kernel_lease_revoke sweep_expired
  "\<lambda>g. alist_wf (lm_leases g)"
proof
  fix m n h now e and ttl :: nat
  show "\<exists>e. lease_acquire n h ttl now m = (Inl e, m)"
    if "lease_get m n = Some i" "unix_seconds now < expires_at_unix i" "li_holder i \<noteq> h" for i
    using that by (simp add: lease_acquire_def lease_get_def)
  show "lease_get (snd (lease_acquire n h ttl now m)) n = Some i \<and> li_holder i = h \<and>
      expires_at_unix i = saturating_add (unix_seconds now) (as_secs ttl)"
    if "fst (lease_acquire n h ttl now m) = Inr i" for i
    using that by (cases rule: lease_acquire_cases [of n h ttl now m]) (simp_all add: lease_get_def)
  show "snd (lease_acquire n h ttl now m) = m" if "fst (lease_acquire n h ttl now m) = Inl e"
    using that by (cases rule: lease_acquire_cases [of n h ttl now m]) simp_all
  show "(\<exists>j. lease_get m n = Some j \<and> li_holder j = h) \<and> lease_get (snd (lease_renew n h ttl now m)) n = Some i \<and>
      li_holder i = h \<and> expires_at_unix i = saturating_add (unix_seconds now) (as_secs ttl)"
    if "fst (lease_renew n h ttl now m) = Inr i" for i
    using that by (cases rule: lease_renew_cases [of n h ttl now m]) (simp_all add: lease_get_def)
  show "snd (lease_renew n h ttl now m) = m" if "fst (lease_renew n h ttl now m) = Inl e"
    using that by (cases rule: lease_renew_cases [of n h ttl now m]) simp_all
  show "\<exists>e. kernel_lease_revoke n h m = (Inl e, m)" if "lease_get m n = Some i" "li_holder i \<noteq> h" for i
    using that by (simp add: kernel_lease_revoke_def lease_get_def)
  assume wf: "alist_wf (lm_leases m)"
  show "lease_get (snd (sweep_expired now m)) n = Some i"
    if "lease_get m n = Some i" "unix_seconds now < expires_at_unix i" for i
    using that wf by (simp add: sweep_expired_def lease_get_def map_of_filter_distinct Let_def)
  show "alist_wf (lm_leases (snd (lease_acquire n h ttl now m)))"
    using wf by (cases rule: lease_acquire_cases [of n h ttl now m]) simp_all
  show "alist_wf (lm_leases (snd (lease_renew n h ttl now m)))"
    using wf by (cases rule: lease_renew_cases [of n h ttl now m]) simp_all
  show "alist_wf (lm_leases (snd (kernel_lease_revoke n h m)))"
    using wf by (simp add: kernel_lease_revoke_def split: option.split)
  show "alist_wf (lm_leases (snd (sweep_expired now m)))"
    unfolding sweep_expired_def Let_def using distinct_map_filter [OF wf] by simp
qed

end
