(* ===== verification/Controller_Election.thy ===== *)
theory Controller_Election
  imports Kernel_Lease
begin

section \<open>Leader election of the controller manager\<close>

text \<open>
  \<open>cave-controller-manager/src/leader_election.rs\<close>: replicas compete for one named lease of the
  kernel's table. An elector is a replica's handle; the table it shares with the others is passed
  to its operations.
\<close>

definition CONTROLLER_MANAGER_LEASE :: string where
  "CONTROLLER_MANAGER_LEASE = ''kube-controller-manager''"

definition DEFAULT_LEASE_TTL :: nat where
  "DEFAULT_LEASE_TTL = 15 * NANOS_PER_SEC"

datatype elector_role = LeaderRole | Standby

record election_status =
  es_role :: elector_role
  current_holder :: "string option"
  es_expires_at_unix :: "u64 option"
  es_revision :: "u64 option"

record leader_elector =
  lease_name :: string
  replica_id :: string
  lease_ttl :: nat

definition default_for_replica :: "string \<Rightarrow> leader_elector" where
  "default_for_replica r = \<lparr>lease_name = CONTROLLER_MANAGER_LEASE, replica_id = r, lease_ttl = DEFAULT_LEASE_TTL\<rparr>"

definition elector_acquire :: "leader_elector \<Rightarrow> int \<Rightarrow> lease_manager \<Rightarrow> elector_role \<times> lease_manager" where
  "elector_acquire self now g =
     (let (r, g) = lease_acquire (lease_name self) (replica_id self) (lease_ttl self) now g
      in (case r of
            Inr _ \<Rightarrow> LeaderRole
          | Inl (Held _ _ _) \<Rightarrow> Standby
          | Inl InvalidTtl \<Rightarrow> Standby
          | Inl (LeaseMissing _) \<Rightarrow> Standby, g))"

definition elector_renew :: "leader_elector \<Rightarrow> int \<Rightarrow> lease_manager \<Rightarrow> (lease_error + unit) \<times> lease_manager" where
  "elector_renew self now g =
     (let (r, g) = lease_renew (lease_name self) (replica_id self) (lease_ttl self) now g
      in (case r of Inl e \<Rightarrow> Inl e | Inr _ \<Rightarrow> Inr (), g))"

definition elector_release :: "leader_elector \<Rightarrow> lease_manager \<Rightarrow> (lease_error + unit) \<times> lease_manager" where
  "elector_release self g =
     (let (r, g) = kernel_lease_revoke (lease_name self) (replica_id self) g
      in (case r of Inr () \<Rightarrow> Inr () | Inl (LeaseMissing _) \<Rightarrow> Inr () | Inl e \<Rightarrow> Inl e, g))"

definition elector_status :: "leader_elector \<Rightarrow> int \<Rightarrow> lease_manager \<Rightarrow> election_status" where
  "elector_status self now g =
     (let now_unix = unix_seconds now;
          none = \<lparr>es_role = Standby, current_holder = None, es_expires_at_unix = None, es_revision = None\<rparr>
      in case lease_get g (lease_name self) of
           Some i \<Rightarrow>
             if expires_at_unix i > now_unix
             then \<lparr>es_role = (if li_holder i = replica_id self then LeaderRole else Standby),
                   current_holder = Some (li_holder i),
                   es_expires_at_unix = Some (expires_at_unix i),
                   es_revision = Some (li_revision i)\<rparr>
             else none
         | None \<Rightarrow> none)"

subsection \<open>A leader is alone while its lease lasts\<close>

text \<open>What replicas do with the shared table, each at a time of the common clock, and their answers.\<close>

datatype elector_cmd =
    ElAcquire leader_elector int
  | ElRenew leader_elector int
  | ElRelease leader_elector
  | ElSweep int

fun elector_exec :: "elector_cmd \<Rightarrow> lease_manager \<Rightarrow> elector_role option \<times> lease_manager" where
  "elector_exec (ElAcquire e now) g = (let (r, g) = elector_acquire e now g in (Some r, g))"
| "elector_exec (ElRenew e now) g =
     (let (r, g) = elector_renew e now g in (Some (case r of Inr _ \<Rightarrow> LeaderRole | Inl _ \<Rightarrow> Standby), g))"
| "elector_exec (ElRelease e) g = (None, snd (elector_release e g))"
| "elector_exec (ElSweep now) g = (None, snd (sweep_expired now g))"

fun elector_run :: "elector_cmd list \<Rightarrow> lease_manager \<Rightarrow> (elector_cmd \<times> elector_role option) list \<times> lease_manager" where
  "elector_run [] g = ([], g)"
| "elector_run (c # cs) g =
     (let (r, g) = elector_exec c g; (rs, g) = elector_run cs g in ((c, r) # rs, g))"

fun cmd_replica :: "elector_cmd \<Rightarrow> string option" where
  "cmd_replica (ElAcquire e now) = Some (replica_id e)"
| "cmd_replica (ElRenew e now) = Some (replica_id e)"
| "cmd_replica (ElRelease e) = Some (replica_id e)"
| "cmd_replica (ElSweep now) = None"

text \<open>
  A command inside the term of the lease: on the same lease with the same time to live, at a time from
  \<open>t\<close> on and before \<open>E\<close>, and no release by \<open>a\<close>.
\<close>

fun in_term :: "string \<Rightarrow> nat \<Rightarrow> string \<Rightarrow> int \<Rightarrow> u64 \<Rightarrow> elector_cmd \<Rightarrow> bool" where
  "in_term n ttl a t E (ElAcquire e now) \<longleftrightarrow> lease_name e = n \<and> lease_ttl e = ttl \<and> t \<le> now \<and> unix_seconds now < E"
| "in_term n ttl a t E (ElRenew e now) \<longleftrightarrow> lease_name e = n \<and> lease_ttl e = ttl \<and> t \<le> now \<and> unix_seconds now < E"
| "in_term n ttl a t E (ElRelease e) \<longleftrightarrow> lease_name e = n \<and> replica_id e \<noteq> a"
| "in_term n ttl a t E (ElSweep now) \<longleftrightarrow> unix_seconds now < E"

lemma unix_seconds_mono: "t \<le> t' \<Longrightarrow> unix_seconds t \<le> unix_seconds t'"
  by (simp add: unix_seconds_def as_secs_def div_le_mono nat_mono)

lemma elector_exec_term:
  assumes held: "holds_until (lease_get g n) a E" and wf: "alist_wf (lm_leases g)"
    and c: "in_term n ttl a t E c" and E: "E = saturating_add (unix_seconds t) (as_secs ttl)"
  shows "holds_until (lease_get (snd (elector_exec c g)) n) a E \<and> alist_wf (lm_leases (snd (elector_exec c g))) \<and>
         (cmd_replica c \<noteq> Some a \<longrightarrow> fst (elector_exec c g) \<noteq> Some LeaderRole)"
proof -
  have later: "E \<le> saturating_add (unix_seconds now) (as_secs ttl)" if "t \<le> now" for now
    using unix_seconds_mono [OF that] by (auto simp: E saturating_add_def)
  show ?thesis
  proof (cases c)
    case (ElAcquire e now)
    with c have e: "lease_name e = n" "lease_ttl e = ttl" "t \<le> now" "unix_seconds now < E" by simp_all
    note acq = kl.holds_acquire [OF held e(4), of "replica_id e" ttl, OF later [OF e(3)]]
    have "snd (elector_exec c g) = snd (lease_acquire n (replica_id e) ttl now g)"
      by (simp add: ElAcquire elector_acquire_def e case_prod_unfold Let_def)
    moreover have "fst (elector_exec c g) \<noteq> Some LeaderRole"
      if "fst (lease_acquire n (replica_id e) ttl now g) = Inl err" for err
      using that by (cases err) (simp_all add: ElAcquire elector_acquire_def e case_prod_unfold Let_def)
    ultimately show ?thesis
      using acq kl.valid_ops(1) [OF wf, of n "replica_id e" ttl now] ElAcquire by auto
  next
    case (ElRenew e now)
    with c have e: "lease_name e = n" "lease_ttl e = ttl" "t \<le> now" by simp_all
    note ren = kl.holds_renew [OF held, of "replica_id e" now ttl, OF later [OF e(3)]]
    have "snd (elector_exec c g) = snd (lease_renew n (replica_id e) ttl now g)"
      by (simp add: ElRenew elector_renew_def e case_prod_unfold Let_def)
    moreover have "fst (elector_exec c g) \<noteq> Some LeaderRole"
      if "fst (lease_renew n (replica_id e) ttl now g) = Inl err" for err
      using that by (simp add: ElRenew elector_renew_def e case_prod_unfold Let_def)
    ultimately show ?thesis
      using ren kl.valid_ops(2) [OF wf, of n "replica_id e" ttl now] ElRenew by auto
  next
    case (ElRelease e)
    with c have e: "lease_name e = n" "replica_id e \<noteq> a" by simp_all
    have "snd (elector_exec c g) = snd (kernel_lease_revoke n (replica_id e) g)"
      by (simp add: ElRelease elector_release_def e case_prod_unfold Let_def)
    then show ?thesis
      using kl.holds_revoke [OF held e(2)] kl.valid_ops(3) [OF wf, of n "replica_id e"] ElRelease by simp
  next
    case (ElSweep now)
    then show ?thesis using kl.holds_sweep [OF wf held, of now] kl.valid_ops(4) [OF wf, of now] c by simp
  qed
qed

lemma elector_exec_wf: "alist_wf (lm_leases g) \<Longrightarrow> alist_wf (lm_leases (snd (elector_exec c g)))"
  using kl.valid_ops
  by (cases c) (simp_all add: elector_acquire_def elector_renew_def elector_release_def case_prod_unfold Let_def)

lemma elector_run_wf: "alist_wf (lm_leases g) \<Longrightarrow> alist_wf (lm_leases (snd (elector_run cs g)))"
  by (induction cs arbitrary: g) (simp_all add: elector_exec_wf case_prod_unfold Let_def)

lemma elector_run_term:
  assumes "holds_until (lease_get g n) a E" and "alist_wf (lm_leases g)"
    and "\<forall>c \<in> set cs. in_term n ttl a t E c" and E: "E = saturating_add (unix_seconds t) (as_secs ttl)"
  shows "holds_until (lease_get (snd (elector_run cs g)) n) a E \<and>
         (\<forall>(c, r) \<in> set (fst (elector_run cs g)). r = Some LeaderRole \<longrightarrow> cmd_replica c = Some a)"
  using assms(1-3)
proof (induction cs arbitrary: g)
  case (Cons c cs)
  from Cons.prems(3) have "in_term n ttl a t E c" by simp
  note step = elector_exec_term [OF Cons.prems(1,2) this E]
  let ?g = "snd (elector_exec c g)"
  have "holds_until (lease_get (snd (elector_run cs ?g)) n) a E \<and>
      (\<forall>(c, r) \<in> set (fst (elector_run cs ?g)). r = Some LeaderRole \<longrightarrow> cmd_replica c = Some a)"
    using step Cons.prems(3) by (intro Cons.IH) simp_all
  with step show ?case by (auto simp: case_prod_unfold Let_def)
qed simp

text \<open>
  C16: at most one replica leads during the term of a lease. Let a replica be granted the lease at some
  time, after any history. Whatever the replicas and the sweeper do afterwards on the same lease
  with the same time to live, at times from then on and before the lease's expiry, as long as the
  leader does not release it: every acquire or renew that is answered with success comes from the
  leader, and the leader's status says that it leads.
\<close>

theorem single_leader:
  assumes "elector_acquire e t (snd (elector_run hist lease_manager_new)) = (LeaderRole, g)"
    and "E = saturating_add (unix_seconds t) (as_secs (lease_ttl e))"
    and "\<forall>c \<in> set cs. in_term (lease_name e) (lease_ttl e) (replica_id e) t E c"
    and "unix_seconds now < E"
  shows "(\<forall>(c, r) \<in> set (fst (elector_run cs g)). r = Some LeaderRole \<longrightarrow> cmd_replica c = Some (replica_id e)) \<and>
         es_role (elector_status e now (snd (elector_run cs g))) = LeaderRole"
proof -
  let ?h = "snd (elector_run hist lease_manager_new)"
  have wf: "alist_wf (lm_leases ?h)" by (rule elector_run_wf) (simp add: lease_manager_new_def)
  let ?r = "lease_acquire (lease_name e) (replica_id e) (lease_ttl e) t ?h"
  have g: "g = snd ?r" and "\<exists>i. fst ?r = Inr i"
    using assms(1) by (auto simp: elector_acquire_def case_prod_unfold Let_def
        split: sum.splits lease_error.splits)
  then have held: "holds_until (lease_get g (lease_name e)) (replica_id e) E"
    using kl.acquire_granted [of "lease_name e" "replica_id e" "lease_ttl e" t ?h]
    by (auto simp: holds_until_def assms(2))
  have "alist_wf (lm_leases g)" unfolding g by (rule kl.valid_ops(1) [OF wf])
  from elector_run_term [OF held this assms(3,2)] assms(4) show ?thesis
    by (auto simp: elector_status_def holds_until_def Let_def)
qed

definition demo_elector :: "string \<Rightarrow> leader_elector" where
  "demo_elector = default_for_replica"

theorem single_leader_witness:
  "let g = snd (elector_acquire (demo_elector ''a'') 0 lease_manager_new)
   in fst (elector_acquire (demo_elector ''b'') 1000000000 g) \<noteq> LeaderRole"
proof -
  let ?g = "snd (elector_acquire (demo_elector ''a'') 0 lease_manager_new)"
  have a: "elector_acquire (demo_elector ''a'') 0 (snd (elector_run [] lease_manager_new)) = (LeaderRole, ?g)"
    by (simp add: elector_acquire_def lease_acquire_def lease_manager_new_def demo_elector_def
        default_for_replica_def DEFAULT_LEASE_TTL_def NANOS_PER_SEC_def Let_def)
  have E: "15 = saturating_add (unix_seconds 0) (as_secs (lease_ttl (demo_elector ''a'')))"
    by (simp add: saturating_add_def unix_seconds_def as_secs_def demo_elector_def
        default_for_replica_def DEFAULT_LEASE_TTL_def NANOS_PER_SEC_def)
  have "in_term (lease_name (demo_elector ''a'')) (lease_ttl (demo_elector ''a'')) (replica_id (demo_elector ''a''))
      0 15 (ElAcquire (demo_elector ''b'') 1000000000)"
    by (simp add: unix_seconds_def as_secs_def demo_elector_def default_for_replica_def NANOS_PER_SEC_def)
  then have "\<forall>(c, r) \<in> set (fst (elector_run [ElAcquire (demo_elector ''b'') 1000000000] ?g)).
      r = Some LeaderRole \<longrightarrow> cmd_replica c = Some (replica_id (demo_elector ''a''))"
    using single_leader [OF a E, of "[ElAcquire (demo_elector ''b'') 1000000000]" 0]
    by (simp add: unix_seconds_def as_secs_def)
  then show ?thesis
    by (auto simp: demo_elector_def default_for_replica_def case_prod_unfold Let_def)
qed

end
