(* ===== verification/Kernel_Breaker.thy ===== *)
theory Kernel_Breaker
  imports Prelude
begin

section \<open>The circuit breaker of the kernel\<close>

text \<open>
  \<open>cave-kernel/src/circuitbreaker.rs\<close>: the state machine Closed, Open, HalfOpen with its window of
  recent outcomes, and the breakers per key. Instants and durations are natural numbers of
  nanoseconds; the difference of instants saturates at zero. The comparison of a failure rate with
  the threshold is one of 64-bit floating point numbers; it is a function of the number of
  failures and the number of calls, held in the trip condition. Where the code would panic
  because an open breaker has no opening time, the result is \<open>None\<close>.
\<close>

datatype breaker_state = Closed | Open | HalfOpen

datatype window_kind = Count usize | Time nat

datatype trip_condition =
    WindowedRate "usize \<Rightarrow> usize \<Rightarrow> bool" usize
  | Consecutive nat nat

record breaker_config =
  window :: window_kind
  trip :: trip_condition
  reset_timeout :: nat
  half_open_permitted :: usize

text \<open>
  The constructors assert that the counts are positive and that the threshold lies between 0 and 1;
  the latter is a comparison of floating point numbers too, given as \<open>in_range\<close>.
\<close>

definition breaker_config_new ::
  "window_kind \<Rightarrow> bool \<Rightarrow> (usize \<Rightarrow> usize \<Rightarrow> bool) \<Rightarrow> usize \<Rightarrow> nat \<Rightarrow> breaker_config option" where
  "breaker_config_new w in_range rate_reached minimum_calls reset =
     (if in_range \<and> minimum_calls > 0
      then Some \<lparr>window = w, trip = WindowedRate rate_reached minimum_calls, reset_timeout = reset,
                 half_open_permitted = 1\<rparr>
      else None)"

definition consecutive :: "nat \<Rightarrow> nat \<Rightarrow> nat \<Rightarrow> breaker_config option" where
  "consecutive failure_count success_count reset =
     (if failure_count > 0 \<and> success_count > 0
      then Some \<lparr>window = Count failure_count, trip = Consecutive failure_count success_count,
                 reset_timeout = reset, half_open_permitted = success_count\<rparr>
      else None)"

definition with_half_open_permitted :: "usize \<Rightarrow> breaker_config \<Rightarrow> breaker_config option" where
  "with_half_open_permitted n c = (if n > 0 then Some (c\<lparr>half_open_permitted := n\<rparr>) else None)"

definition minimum_calls :: "breaker_config \<Rightarrow> usize" where
  "minimum_calls c = (case trip c of WindowedRate _ m \<Rightarrow> m | Consecutive f _ \<Rightarrow> f)"

datatype outcome = Success | Failure

record breaker =
  br_cfg :: breaker_config
  br_state :: breaker_state
  samples :: "(nat \<times> outcome) list"
  opened_at :: "nat option"
  half_open_attempts :: usize
  half_open_successes :: usize

definition breaker_new :: "breaker_config \<Rightarrow> breaker" where
  "breaker_new c = \<lparr>br_cfg = c, br_state = Closed, samples = [], opened_at = None,
                    half_open_attempts = 0, half_open_successes = 0\<rparr>"

definition state_at :: "nat \<Rightarrow> breaker \<Rightarrow> breaker_state option" where
  "state_at now b =
     (case br_state b of
        Open \<Rightarrow> (case opened_at b of None \<Rightarrow> None | Some _ \<Rightarrow> Some Open)
      | other \<Rightarrow> Some other)"

definition can_proceed_at :: "nat \<Rightarrow> breaker \<Rightarrow> (bool \<times> breaker) option" where
  "can_proceed_at now b =
     (case br_state b of
        Closed \<Rightarrow> Some (True, b)
      | Open \<Rightarrow>
          (case opened_at b of
             None \<Rightarrow> None
           | Some o_at \<Rightarrow>
               if now - o_at \<ge> reset_timeout (br_cfg b)
               then Some (True, b\<lparr>br_state := HalfOpen, half_open_attempts := 1, half_open_successes := 0\<rparr>)
               else Some (False, b))
      | HalfOpen \<Rightarrow>
          if half_open_attempts b < half_open_permitted (br_cfg b)
          then Some (True, b\<lparr>half_open_attempts := half_open_attempts b + 1\<rparr>)
          else Some (False, b))"

text \<open>The loops that drop samples from the front of the window.\<close>

fun trim_count :: "usize \<Rightarrow> (nat \<times> outcome) list \<Rightarrow> (nat \<times> outcome) list" where
  "trim_count cap [] = []"
| "trim_count cap (s # ss) = (if length (s # ss) > cap then trim_count cap ss else s # ss)"

definition trim_time :: "nat \<Rightarrow> nat \<Rightarrow> (nat \<times> outcome) list \<Rightarrow> (nat \<times> outcome) list" where
  "trim_time now d ss = dropWhile (\<lambda>(t, _). now - t > d) ss"

definition trailing_failures :: "(nat \<times> outcome) list \<Rightarrow> nat" where
  "trailing_failures ss = length (takeWhile (\<lambda>(_, out). out = Failure) (rev ss))"

definition should_open :: "breaker \<Rightarrow> bool" where
  "should_open b =
     (let total = length (samples b)
      in case trip (br_cfg b) of
           WindowedRate rate_reached min_calls \<Rightarrow>
             if total < min_calls then False
             else rate_reached (length (filter (\<lambda>(_, out). out = Failure) (samples b))) total
         | Consecutive failure_count _ \<Rightarrow> trailing_failures (samples b) \<ge> failure_count)"

definition record_closed :: "nat \<Rightarrow> outcome \<Rightarrow> breaker \<Rightarrow> breaker" where
  "record_closed now out b =
     (let b = b\<lparr>samples := samples b @ [(now, out)]\<rparr>;
          b = (case window (br_cfg b) of Count cap \<Rightarrow> b\<lparr>samples := trim_count cap (samples b)\<rparr> | Time _ \<Rightarrow> b);
          b = (case window (br_cfg b) of Time d \<Rightarrow> b\<lparr>samples := trim_time now d (samples b)\<rparr> | Count _ \<Rightarrow> b)
      in if should_open b then b\<lparr>br_state := Open, opened_at := Some now\<rparr> else b)"

definition record_half_open :: "nat \<Rightarrow> outcome \<Rightarrow> breaker \<Rightarrow> breaker" where
  "record_half_open now out b =
     (if out = Failure
      then b\<lparr>br_state := Open, opened_at := Some now, half_open_attempts := 0, half_open_successes := 0\<rparr>
      else let b = b\<lparr>half_open_successes := half_open_successes b + 1\<rparr>
           in if half_open_successes b \<ge> half_open_permitted (br_cfg b)
              then b\<lparr>br_state := Closed, samples := [], opened_at := None, half_open_attempts := 0,
                     half_open_successes := 0\<rparr>
              else b)"

definition record_at :: "nat \<Rightarrow> outcome \<Rightarrow> breaker \<Rightarrow> breaker" where
  "record_at now out b =
     (case br_state b of
        HalfOpen \<Rightarrow> record_half_open now out b
      | Open \<Rightarrow> b
      | Closed \<Rightarrow> record_closed now out b)"

subsection \<open>Breakers per key\<close>

text \<open>
  \<open>for_key\<close> hands out a handle to the breaker in the map, so what is done with the handle is done to
  the entry of the key.
\<close>

record per_key_breakers =
  pk_cfg :: breaker_config
  pk_map :: "(string \<times> breaker) list"

definition per_key_new :: "breaker_config \<Rightarrow> per_key_breakers" where
  "per_key_new c = \<lparr>pk_cfg = c, pk_map = []\<rparr>"

definition for_key :: "string \<Rightarrow> per_key_breakers \<Rightarrow> breaker \<times> per_key_breakers" where
  "for_key key self =
     (case map_of (pk_map self) key of
        Some b \<Rightarrow> (b, self)
      | None \<Rightarrow> let b = breaker_new (pk_cfg self)
                in (b, self\<lparr>pk_map := AList.update key b (pk_map self)\<rparr>))"

definition known_keys :: "per_key_breakers \<Rightarrow> string list" where
  "known_keys self = sort (map fst (pk_map self))"

definition remove_key :: "string \<Rightarrow> per_key_breakers \<Rightarrow> bool \<times> per_key_breakers" where
  "remove_key key self =
     (map_of (pk_map self) key \<noteq> None, self\<lparr>pk_map := AList.delete key (pk_map self)\<rparr>)"

subsection \<open>The state of a breaker is sound\<close>

text \<open>
  The commands of callers. A run yields the answers to the permission requests, in order, and the
  breaker afterwards; a command that would panic has no result.
\<close>

datatype breaker_cmd = BProceed nat | BRecord nat outcome

fun breaker_exec :: "breaker_cmd \<Rightarrow> breaker \<Rightarrow> (bool list \<times> breaker) option" where
  "breaker_exec (BProceed now) b = map_option (\<lambda>(r, b). ([r], b)) (can_proceed_at now b)"
| "breaker_exec (BRecord now out) b = Some ([], record_at now out b)"

fun breaker_run :: "breaker_cmd list \<Rightarrow> breaker \<Rightarrow> (bool list \<times> breaker) option" where
  "breaker_run [] b = Some ([], b)"
| "breaker_run (c # cs) b =
     (case breaker_exec c b of
        None \<Rightarrow> None
      | Some (rs, b) \<Rightarrow> map_option (\<lambda>(rs', b). (rs @ rs', b)) (breaker_run cs b))"

definition breaker_wf :: "breaker \<Rightarrow> bool" where
  "breaker_wf b \<longleftrightarrow>
     half_open_permitted (br_cfg b) > 0 \<and>
     (br_state b = Open \<longrightarrow> opened_at b \<noteq> None) \<and>
     (br_state b = HalfOpen \<longrightarrow> 1 \<le> half_open_attempts b \<and> half_open_attempts b \<le> half_open_permitted (br_cfg b) \<and>
        half_open_successes b < half_open_permitted (br_cfg b)) \<and>
     (\<forall>n. window (br_cfg b) = Count n \<longrightarrow> length (samples b) \<le> n)"

lemma trim_count_eq: "trim_count n ss = drop (length ss - n) ss"
  by (induction ss) (auto simp: Suc_diff_le)

lemma record_closed_cfg [simp]: "br_cfg (record_closed now out b) = br_cfg b"
  by (simp add: record_closed_def Let_def split: window_kind.split)

lemma record_at_cfg [simp]: "br_cfg (record_at now out b) = br_cfg b"
  by (simp add: record_at_def record_half_open_def Let_def split: breaker_state.split)

lemma record_at_wf: "breaker_wf b \<Longrightarrow> breaker_wf (record_at now out b)"
  by (cases "br_state b")
    (auto simp: breaker_wf_def record_at_def record_closed_def record_half_open_def trim_count_eq Let_def
      split: window_kind.splits)

lemma can_proceed_wf:
  "breaker_wf b \<Longrightarrow> \<exists>r b'. can_proceed_at now b = Some (r, b') \<and> breaker_wf b' \<and> br_cfg b' = br_cfg b"
  by (cases "br_state b") (auto simp: breaker_wf_def can_proceed_at_def)

lemma breaker_run_wf:
  "breaker_wf b \<Longrightarrow> \<exists>rs b'. breaker_run cs b = Some (rs, b') \<and> breaker_wf b'"
proof (induction cs arbitrary: b)
  case (Cons c cs)
  have "\<exists>rs b'. breaker_exec c b = Some (rs, b') \<and> breaker_wf b'"
  proof (cases c)
    case (BProceed now)
    with can_proceed_wf [OF Cons.prems, of now] show ?thesis by auto
  next
    case (BRecord now out)
    with record_at_wf [OF Cons.prems] show ?thesis by simp
  qed
  then show ?case using Cons.IH by fastforce
qed simp

text \<open>
  The state of a breaker stays sound. After any calls on a new breaker no call panics, an open
  breaker knows when it was opened, a half open one has granted between one and the permitted
  number of trials and counted fewer successes than close it, and a window of the last \<open>n\<close> calls holds
  at most \<open>n\<close> samples.
\<close>

lemma breaker_sound:
  assumes "half_open_permitted c > 0"
  shows "\<exists>rs b. breaker_run cs (breaker_new c) = Some (rs, b) \<and> breaker_wf b"
  by (rule breaker_run_wf) (simp add: breaker_wf_def breaker_new_def assms)

lemma breaker_sound_witness:
  "\<exists>rs b. breaker_run [BRecord 1 Failure, BProceed 2, BProceed 9, BRecord 9 Success]
     (breaker_new (the (consecutive 1 2 5))) = Some (rs, b) \<and> breaker_wf b"
  by (rule breaker_sound) (simp add: consecutive_def)

subsection \<open>When a breaker opens\<close>

definition failure_run :: "nat \<Rightarrow> (nat \<times> outcome) list \<Rightarrow> bool" where
  "failure_run f os \<longleftrightarrow>
     (\<exists>us vs ws. os = us @ vs @ ws \<and> length vs = f \<and> (\<forall>(_, out) \<in> set vs. out = Failure))"

definition last_fail :: "nat \<Rightarrow> (nat \<times> outcome) list \<Rightarrow> bool" where
  "last_fail f os \<longleftrightarrow> f \<le> length os \<and> (\<forall>(_, out) \<in> set (drop (length os - f) os). out = Failure)"

lemma last_fail_run:
  assumes "last_fail f os"
  shows "failure_run f os"
proof -
  let ?n = "length os - f"
  have "os = take ?n os @ drop ?n os @ []" by simp
  moreover have "length (drop ?n os) = f" and "\<forall>(_, out) \<in> set (drop ?n os). out = Failure"
    using assms by (simp_all add: last_fail_def)
  ultimately show ?thesis unfolding failure_run_def by blast
qed

lemma failure_run_snoc: "0 < f \<Longrightarrow> failure_run f (os @ [x]) \<longleftrightarrow> failure_run f os \<or> last_fail f (os @ [x])"
proof
  assume "failure_run f (os @ [x])"
  then obtain us vs ws where os: "os @ [x] = us @ vs @ ws" "length vs = f" "\<forall>(_, out) \<in> set vs. out = Failure"
    by (auto simp: failure_run_def)
  show "failure_run f os \<or> last_fail f (os @ [x])"
  proof (cases ws rule: rev_cases)
    case Nil
    with os have "drop (length (os @ [x]) - f) (os @ [x]) = vs" and "f \<le> length (os @ [x])" by auto
    with os(3) show ?thesis by (simp add: last_fail_def)
  next
    case (snoc zs z)
    with os(1) have "os = us @ vs @ zs" by simp
    with os(2,3) show ?thesis by (auto simp: failure_run_def)
  qed
next
  assume "failure_run f os \<or> last_fail f (os @ [x])"
  then show "failure_run f (os @ [x])"
  proof
    assume "failure_run f os"
    then obtain us vs ws where "os = us @ vs @ ws" "length vs = f" "\<forall>(_, out) \<in> set vs. out = Failure"
      by (auto simp: failure_run_def)
    then show ?thesis unfolding failure_run_def by (intro exI [of _ us] exI [of _ vs] exI [of _ "ws @ [x]"]) simp
  next
    assume "last_fail f (os @ [x])"
    then show ?thesis by (rule last_fail_run)
  qed
qed

lemma trailing_failures_last:
  "f \<le> trailing_failures (drop (length os - f) os) \<longleftrightarrow> last_fail f os"
proof -
  let ?ss = "drop (length os - f) os"
  have "f \<le> trailing_failures ?ss \<longleftrightarrow> f \<le> length ?ss \<and> takeWhile (\<lambda>(_, out). out = Failure) (rev ?ss) = rev ?ss"
  proof
    assume f: "f \<le> trailing_failures ?ss"
    have "trailing_failures ?ss \<le> length ?ss"
      unfolding trailing_failures_def using length_takeWhile_le [of _ "rev ?ss"] by (metis length_rev)
    moreover have "length ?ss \<le> f" by simp
    ultimately have "length (takeWhile (\<lambda>(_, out). out = Failure) (rev ?ss)) = length (rev ?ss)"
      using f unfolding trailing_failures_def by simp
    then have "takeWhile (\<lambda>(_, out). out = Failure) (rev ?ss) = rev ?ss"
      using takeWhile_eq_take by (metis order_refl take_all)
    with f \<open>trailing_failures ?ss \<le> length ?ss\<close>
    show "f \<le> length ?ss \<and> takeWhile (\<lambda>(_, out). out = Failure) (rev ?ss) = rev ?ss" by linarith
  qed (simp only: trailing_failures_def length_rev)
  also have "\<dots> \<longleftrightarrow> f \<le> length ?ss \<and> (\<forall>x \<in> set ?ss. (case x of (_, out) \<Rightarrow> out = Failure))"
    by (simp add: takeWhile_eq_all_conv)
  also have "\<dots> \<longleftrightarrow> last_fail f os" by (auto simp: last_fail_def)
  finally show ?thesis .
qed

definition record_all :: "(nat \<times> outcome) list \<Rightarrow> breaker \<Rightarrow> breaker" where
  "record_all os b = fold (\<lambda>(now, out). record_at now out) os b"

lemma record_all_consecutive:
  assumes "0 < f" and "window c = Count f" and "trip c = Consecutive f s"
  defines "b \<equiv> \<lambda>os. record_all os (breaker_new c)"
  shows "br_cfg (b os) = c \<and>
         (if failure_run f os then br_state (b os) = Open
          else br_state (b os) = Closed \<and> samples (b os) = drop (length os - f) os)"
proof (induction os rule: rev_induct)
  case Nil
  then show ?case using assms(1) by (simp add: b_def record_all_def breaker_new_def failure_run_def)
next
  case (snoc x os)
  obtain now out where x: "x = (now, out)" by (cases x)
  have step: "b (os @ [x]) = record_at now out (b os)" by (simp add: b_def record_all_def x)
  show ?case
  proof (cases "failure_run f os")
    case True
    with snoc show ?thesis by (simp add: step failure_run_snoc [OF assms(1)] record_at_def)
  next
    case False
    with snoc have c: "br_cfg (b os) = c" "br_state (b os) = Closed" "samples (b os) = drop (length os - f) os" by simp_all
    define ss where "ss = drop (length (os @ [x]) - f) (os @ [x])"
    have trim: "trim_count f (drop (length os - f) os @ [(now, out)]) = ss"
      using assms(1) by (simp add: trim_count_eq ss_def x) (cases "f \<le> length os", simp_all add: Suc_diff_le)
    have opens: "f \<le> trailing_failures ss \<longleftrightarrow> last_fail f (os @ [x])"
      unfolding ss_def by (rule trailing_failures_last)
    have "record_at now out (b os) =
        (if last_fail f (os @ [x]) then (b os)\<lparr>samples := ss, br_state := Open, opened_at := Some now\<rparr>
         else (b os)\<lparr>samples := ss\<rparr>)"
      by (simp add: record_at_def record_closed_def should_open_def c assms(2,3) trim opens Let_def)
    then show ?thesis
      unfolding step failure_run_snoc [OF assms(1)] using False c by (simp add: ss_def)
  qed
qed

text \<open>
  C22: when a breaker that counts consecutive failures opens. A new breaker built for \<open>f\<close> consecutive
  failures is open after a sequence of recorded outcomes exactly when somewhere in the sequence
  \<open>f\<close> failures follow each other directly, and closed otherwise.
\<close>

theorem breaker_opens_iff:
  assumes "consecutive f s reset = Some c"
  shows "br_state (record_all os (breaker_new c)) = (if failure_run f os then Open else Closed)"
proof -
  have "0 < f" "window c = Count f" "trip c = Consecutive f s"
    using assms by (auto simp: consecutive_def split: if_splits)
  from record_all_consecutive [OF this, of os] show ?thesis by simp
qed

theorem breaker_opens_iff_witness:
  "br_state (record_all [(1, Failure), (2, Success), (3, Failure), (4, Failure)]
     (breaker_new (the (consecutive 2 1 5)))) = Open"
proof -
  have "failure_run 2 [(1, Failure), (2, Success), (3, Failure), (4, Failure)]"
    by (rule last_fail_run) (simp add: last_fail_def)
  moreover have "consecutive 2 1 5 = Some (the (consecutive 2 1 5))" by (simp add: consecutive_def)
  ultimately show ?thesis
    using breaker_opens_iff [of 2 1 5 "the (consecutive 2 1 5)" "[(1, Failure), (2, Success), (3, Failure), (4, Failure)]"]
    by simp
qed

subsection \<open>Recovery\<close>

definition rounds :: "nat list \<Rightarrow> breaker_cmd list" where
  "rounds ts = concat (map (\<lambda>t. [BProceed t, BRecord t Success]) ts)"

lemma breaker_run_append:
  "breaker_run (cs @ ds) b =
     (case breaker_run cs b of
        None \<Rightarrow> None
      | Some (rs, b) \<Rightarrow> map_option (\<lambda>(rs', b). (rs @ rs', b)) (breaker_run ds b))"
  by (induction cs arbitrary: b) (auto simp: option.map_comp comp_def case_prod_unfold option.map_ident split: option.split)

text \<open>The first request after the timeout, and the state of a breaker that is half open.\<close>

definition half_open :: "breaker \<Rightarrow> nat \<Rightarrow> nat \<Rightarrow> breaker" where
  "half_open b tried succeeded =
     b\<lparr>br_state := HalfOpen, half_open_attempts := tried, half_open_successes := succeeded\<rparr>"

lemma proceed_open:
  "br_state b = Open \<Longrightarrow> opened_at b = Some t \<Longrightarrow> reset_timeout (br_cfg b) \<le> now - t \<Longrightarrow>
   can_proceed_at now b = Some (True, half_open b 1 0)"
  by (simp add: can_proceed_at_def half_open_def)

lemma proceed_half_open:
  "can_proceed_at now (half_open b n k) =
     (if n < half_open_permitted (br_cfg b) then Some (True, half_open b (n + 1) k)
      else Some (False, half_open b n k))"
  by (simp add: can_proceed_at_def half_open_def)

lemma success_half_open:
  "record_at now Success (half_open b n k) =
     (if half_open_permitted (br_cfg b) \<le> k + 1
      then b\<lparr>br_state := Closed, samples := [], opened_at := None, half_open_attempts := 0,
             half_open_successes := 0\<rparr>
      else half_open b n (k + 1))"
  by (simp add: record_at_def record_half_open_def half_open_def Let_def)

lemma rounds_half_open:
  assumes "br_state b = Open" and "opened_at b = Some t" and "reset_timeout (br_cfg b) \<le> now - t"
    and "length ts < half_open_permitted (br_cfg b)"
  shows "breaker_run (rounds (now # ts)) b =
           Some (replicate (length ts + 1) True,
                 if length ts + 1 = half_open_permitted (br_cfg b)
                 then b\<lparr>br_state := Closed, samples := [], opened_at := None, half_open_attempts := 0,
                        half_open_successes := 0\<rparr>
                 else half_open b (length ts + 1) (length ts + 1))"
  using assms(4)
proof (induction ts rule: rev_induct)
  case Nil
  then show ?case by (simp add: rounds_def proceed_open [OF assms(1-3)] success_half_open)
next
  case (snoc u ts)
  then have "breaker_run (rounds (now # ts)) b =
      Some (replicate (length ts + 1) True, half_open b (length ts + 1) (length ts + 1))" by simp
  moreover have "rounds (now # ts @ [u]) = rounds (now # ts) @ [BProceed u, BRecord u Success]"
    by (simp add: rounds_def)
  ultimately show ?case
    using snoc.prems
    by (simp only: breaker_run_append)
      (auto simp: proceed_half_open success_half_open replicate_append_same)
qed

lemma requests_half_open:
  assumes "br_state b = Open" and "opened_at b = Some t" and "reset_timeout (br_cfg b) \<le> now - t"
    and "length ts < half_open_permitted (br_cfg b)"
  shows "breaker_run (map BProceed (now # ts)) b =
           Some (replicate (length ts + 1) True, half_open b (length ts + 1) 0)"
  using assms(4)
proof (induction ts rule: rev_induct)
  case Nil
  then show ?case by (simp add: proceed_open [OF assms(1-3)])
next
  case (snoc u ts)
  then have "breaker_run (map BProceed (now # ts)) b =
      Some (replicate (length ts + 1) True, half_open b (length ts + 1) 0)" by simp
  moreover have "map BProceed (now # ts @ [u]) = map BProceed (now # ts) @ [BProceed u]" by simp
  ultimately show ?case
    using snoc.prems
    by (simp only: breaker_run_append) (simp add: proceed_half_open replicate_append_same)
qed

text \<open>
  C28: an open breaker recovers. Before the reset timeout is over a call is refused and nothing
  changes. From then on, as many trial calls as are permitted, whenever they come, are each let
  through, and when each succeeds before the next one asks, the breaker is closed with an empty
  window. When trials ask without reporting, the permitted number is let through and the next one
  is refused.
\<close>

theorem breaker_recovers:
  assumes "br_state b = Open" and "opened_at b = Some t"
    and "length ts + 1 = half_open_permitted (br_cfg b)"
  shows "if reset_timeout (br_cfg b) \<le> now - t
         then (\<exists>b'. breaker_run (rounds (now # ts)) b = Some (replicate (length ts + 1) True, b') \<and>
                    br_state b' = Closed \<and> samples b' = [] \<and> br_cfg b' = br_cfg b) \<and>
              (\<exists>b'. breaker_run (map BProceed (now # ts) @ [BProceed u]) b =
                      Some (replicate (length ts + 1) True @ [False], b'))
         else can_proceed_at now b = Some (False, b)"
proof (cases "reset_timeout (br_cfg b) \<le> now - t")
  case True
  have "length ts < half_open_permitted (br_cfg b)" using assms(3) by simp
  note rounds_half_open [OF assms(1,2) True this] requests_half_open [OF assms(1,2) True this]
  with True assms(3) show ?thesis
    by (simp only: breaker_run_append) (simp add: proceed_half_open)
next
  case False
  with assms(1,2) show ?thesis by (simp add: can_proceed_at_def)
qed

theorem breaker_recovers_witness:
  "\<exists>b'. breaker_run (rounds [9, 12]) ((breaker_new (the (consecutive 1 2 5)))\<lparr>br_state := Open, opened_at := Some 1\<rparr>) =
          Some ([True, True], b') \<and> br_state b' = Closed"
  using breaker_recovers [of "(breaker_new (the (consecutive 1 2 5)))\<lparr>br_state := Open, opened_at := Some 1\<rparr>" 1 "[12]" 9]
  by (auto simp: breaker_new_def consecutive_def numeral_2_eq_2)

end
