(* ===== verification/Kernel_Backoff.thy ===== *)
theory Kernel_Backoff
  imports Kernel_Lease
begin

section \<open>Backoff schedules of the kernel\<close>

text \<open>
  \<open>cave-kernel/src/backoff.rs\<close>: delays before the \<open>n\<close>-th retry. A \<open>Duration\<close> is a natural number of
  nanoseconds, at most \<open>DURATION_MAX\<close>; \<open>checked_mul\<close> fails above it. A \<open>u32\<close> is a natural number, and
  the increment of \<open>n\<close> wraps at its width, as in the release build.
\<close>

definition DURATION_MAX :: nat where
  "DURATION_MAX = 2 ^ 64 * NANOS_PER_SEC - 1"

definition U32_MAX :: nat where
  "U32_MAX = 2 ^ 32 - 1"

declare DURATION_MAX_def [code del]
declare U32_MAX_def [code del]

datatype backoff =
    Constant nat
  | Linear nat nat
  | Exponential nat nat
  | Fibonacci nat nat

definition checked_mul :: "nat \<Rightarrow> nat \<Rightarrow> nat option" where
  "checked_mul d k = (if d * k \<le> DURATION_MAX then Some (d * k) else None)"

text \<open>\<open>try_into().unwrap_or(u32::MAX)\<close>, and a product cut at the cap.\<close>

definition to_u32 :: "nat \<Rightarrow> nat" where
  "to_u32 k = (if k \<le> U32_MAX then k else U32_MAX)"

definition capped :: "nat \<Rightarrow> nat \<Rightarrow> nat \<Rightarrow> nat" where
  "capped b cap k = min (case checked_mul b k of Some d \<Rightarrow> d | None \<Rightarrow> cap) cap"

definition fib :: "nat \<Rightarrow> nat" where
  "fib n = fst (((\<lambda>(a, b). (b, saturating_add a b)) ^^ n) (0, 1))"

definition delay_for :: "backoff \<Rightarrow> nat \<Rightarrow> nat" where
  "delay_for b n =
     (case b of
        Constant d \<Rightarrow> d
      | Linear base cap \<Rightarrow> capped base cap (to_u32 (saturating_add n 1))
      | Exponential base cap \<Rightarrow> capped base cap (to_u32 (2 ^ min n 63))
      | Fibonacci base cap \<Rightarrow> capped base cap (to_u32 (fib ((n + 1) mod 2 ^ 32))))"

definition backoff_schedule :: "backoff \<Rightarrow> nat \<Rightarrow> nat list" where
  "backoff_schedule b n = map (delay_for b) [0 ..< n]"

subsection \<open>Delays grow up to the cap\<close>

fun cap_of :: "backoff \<Rightarrow> nat" where
  "cap_of (Constant d) = d"
| "cap_of (Linear base cap) = cap"
| "cap_of (Exponential base cap) = cap"
| "cap_of (Fibonacci base cap) = cap"

lemma capped_eq: "cap \<le> DURATION_MAX \<Longrightarrow> capped b cap k = min (b * k) cap"
  by (simp add: capped_def checked_mul_def)

lemma to_u32_mono: "k \<le> l \<Longrightarrow> to_u32 k \<le> to_u32 l"
  by (simp add: to_u32_def)

lemma fib_pair_mono:
  "let (a, b) = ((\<lambda>(a, b). (b, saturating_add a b)) ^^ n) (0, 1) in a \<le> b \<and> b \<le> 2 ^ 64 - 1"
proof (induction n)
  case (Suc n)
  then show ?case by (auto simp: saturating_add_def case_prod_unfold Let_def)
qed simp

lemma fib_mono: "n \<le> m \<Longrightarrow> fib n \<le> fib m"
proof (induction rule: inc_induct)
  case (step k)
  have "fib k \<le> fib (Suc k)"
    using fib_pair_mono [of k] by (simp add: fib_def case_prod_unfold Let_def)
  with step show ?case by simp
qed simp

text \<open>Where the increment of the retry number wraps around to zero.\<close>

fun wraps :: "backoff \<Rightarrow> nat \<Rightarrow> bool" where
  "wraps (Fibonacci base cap) n \<longleftrightarrow> n = U32_MAX"
| "wraps _ n \<longleftrightarrow> False"

text \<open>
  C39: the delays of a schedule never exceed the cap and never shrink, with one exception. For 32-bit
  retry numbers \<open>n\<close> before \<open>m\<close> the delay before the \<open>n\<close>-th retry is at most the one before the \<open>m\<close>-th, which
  is at most the cap; only the Fibonacci schedule has no delay at all at the largest retry
  number, where its increment wraps to zero in the release build.
\<close>

theorem backoff_monotone:
  assumes "n \<le> m" and "m \<le> U32_MAX" and "cap_of b \<le> DURATION_MAX"
  shows "delay_for b m \<le> cap_of b \<and>
         (if wraps b m then delay_for b m = 0 else delay_for b n \<le> delay_for b m)"
proof -
  have grows: "capped base cap (to_u32 k) \<le> capped base cap (to_u32 l)" if "k \<le> l" "cap \<le> DURATION_MAX" for base cap k l
    using to_u32_mono [OF that(1)] that(2) by (simp add: capped_eq) (meson min.coboundedI1 mult_le_mono2)
  have cap: "capped base cap k \<le> cap" for base cap k by (simp add: capped_def)
  show ?thesis
  proof (cases b)
    case (Linear base cap)
    have "saturating_add n 1 \<le> saturating_add m 1" using assms(1) by (simp add: saturating_add_def min_def)
    with Linear grows cap assms(3) show ?thesis by (simp add: delay_for_def)
  next
    case (Exponential base cap)
    have "(2 :: nat) ^ min n 63 \<le> 2 ^ min m 63" using assms(1) by (intro power_increasing) auto
    with Exponential grows cap assms(3) show ?thesis by (simp add: delay_for_def)
  next
    case (Fibonacci base cap)
    have "delay_for b m = 0" if "m = U32_MAX"
      using that Fibonacci by (simp add: delay_for_def U32_MAX_def fib_def to_u32_def capped_def checked_mul_def)
    moreover have "fib ((n + 1) mod 2 ^ 32) \<le> fib ((m + 1) mod 2 ^ 32)" if "m \<noteq> U32_MAX"
      using assms(1,2) that by (simp add: fib_mono U32_MAX_def)
    ultimately show ?thesis using Fibonacci grows cap assms(3) by (auto simp: delay_for_def)
  qed (simp add: delay_for_def)
qed

theorem backoff_monotone_witness:
  "delay_for (Exponential 100 1000) 2 \<le> delay_for (Exponential 100 1000) 7 \<and>
   delay_for (Exponential 100 1000) 7 \<le> 1000 \<and> delay_for (Fibonacci 100 1000) U32_MAX = 0"
  using backoff_monotone [of 2 7 "Exponential 100 1000"] backoff_monotone [of 2 U32_MAX "Fibonacci 100 1000"]
  by (simp add: U32_MAX_def DURATION_MAX_def NANOS_PER_SEC_def)

end
