(* ===== verification/Kernel_Codec.thy ===== *)
theory Kernel_Codec
  imports Prelude
begin

section \<open>Length-prefix framing\<close>

text \<open>
  \<open>cave-kernel/src/codec\<close>: one frame is split off a buffer of received bytes when it is complete.
  A decoder is a function from the buffer to a result and the buffer afterwards. The locale
  \<open>frame_codec\<close> is the contract of the trait \<open>FrameCodec\<close>: no byte is consumed without a frame, and
  bytes that arrive later change no answer that was given. From it follows for the loop of a
  connection that the frames do not depend on how the network cuts the stream.
\<close>

datatype frame_error =
    Incomplete usize
  | FrameInvalid string
  | FrameLimit usize usize
  | FrameIo string

datatype endian = BigEndian | LittleEndian

datatype length_includes = SelfAndPayload | TotalLength

record length_spec =
  header_offset :: usize
  length_size :: usize
  ls_endian :: endian
  ls_includes :: length_includes
  ls_max_frame_size :: usize

definition postgres_v3 :: "usize \<Rightarrow> length_spec" where
  "postgres_v3 m = \<lparr>header_offset = 1, length_size = 4, ls_endian = BigEndian,
                    ls_includes = SelfAndPayload, ls_max_frame_size = m\<rparr>"

definition postgres_startup :: "usize \<Rightarrow> length_spec" where
  "postgres_startup m = \<lparr>header_offset = 0, length_size = 4, ls_endian = BigEndian,
                         ls_includes = SelfAndPayload, ls_max_frame_size = m\<rparr>"

definition mongo_op_msg :: "usize \<Rightarrow> length_spec" where
  "mongo_op_msg m = \<lparr>header_offset = 0, length_size = 4, ls_endian = LittleEndian,
                     ls_includes = TotalLength, ls_max_frame_size = m\<rparr>"

definition total_frame_len :: "length_spec \<Rightarrow> usize \<Rightarrow> usize" where
  "total_frame_len spec length_value =
     (case ls_includes spec of
        SelfAndPayload \<Rightarrow> header_offset spec + length_value
      | TotalLength \<Rightarrow> length_value)"

text \<open>\<open>u32::from_be_bytes\<close>, \<open>u32::from_le_bytes\<close> and \<open>u32::to_be_bytes\<close> on four bytes, as \<open>usize\<close>.\<close>

definition from_be_bytes :: "bytes \<Rightarrow> usize" where
  "from_be_bytes bs = foldl (\<lambda>n b. n * 256 + of_char b) 0 bs"

definition from_le_bytes :: "bytes \<Rightarrow> usize" where
  "from_le_bytes bs = foldr (\<lambda>b n. n * 256 + of_char b) bs 0"

definition to_be_bytes :: "usize \<Rightarrow> bytes" where
  "to_be_bytes n = [char_of (n div 16777216), char_of (n div 65536), char_of (n div 256), char_of n]"

definition read_length :: "bytes \<Rightarrow> length_spec \<Rightarrow> frame_error + usize" where
  "read_length bs spec =
     (if length bs < length_size spec then Inl (Incomplete (length_size spec - length bs))
      else if length_size spec = 4
      then (case ls_endian spec of
              BigEndian \<Rightarrow> Inr (from_be_bytes (take 4 bs))
            | LittleEndian \<Rightarrow> Inr (from_le_bytes (take 4 bs)))
      else Inl (FrameInvalid (''unsupported length_size '' @ show_nat (length_size spec) @
                              ''; only 4 is implemented'')))"

definition try_read_length_prefixed ::
  "length_spec \<Rightarrow> bytes \<Rightarrow> (frame_error + bytes option) \<times> bytes" where
  "try_read_length_prefixed spec src =
     (let header_total = header_offset spec + length_size spec
      in if length src < header_total then (Inr None, src)
         else case read_length (drop (header_offset spec) src) spec of
                Inl e \<Rightarrow> (Inl e, src)
              | Inr length_value \<Rightarrow>
                  let frame_len = total_frame_len spec length_value
                  in if frame_len < header_total
                     then (Inl (FrameInvalid (''announced frame length '' @ show_nat length_value @
                                '' is shorter than header ('' @ show_nat header_total @ '')'')), src)
                     else if frame_len > ls_max_frame_size spec
                     then (Inl (FrameLimit frame_len (ls_max_frame_size spec)), src)
                     else if length src < frame_len then (Inr None, src)
                     else (Inr (Some (take frame_len src)), drop frame_len src))"

subsection \<open>The loop of a connection\<close>

text \<open>
  The loop of \<open>handle_connection\<close> in \<open>cave-docdb/src/server.rs\<close> as far as framing is concerned: take
  every complete frame out of the buffer, then read more. \<open>reads\<close> are the pieces that the socket
  delivers; an empty piece or the end of the list is the end of the stream. The result are the
  frames handed on, the error that ended the connection, and the buffer. The test in \<open>drain\<close> that the
  buffer became shorter is there for termination; decoders that keep the contract always pass it.
\<close>

function drain ::
  "(bytes \<Rightarrow> (frame_error + 'f option) \<times> bytes) \<Rightarrow> bytes \<Rightarrow> 'f list \<times> frame_error option \<times> bytes" where
  "drain dec buf =
     (case dec buf of
        (Inl e, b) \<Rightarrow> ([], Some e, b)
      | (Inr None, b) \<Rightarrow> ([], None, b)
      | (Inr (Some f), b) \<Rightarrow>
          if length b < length buf
          then let (fs, err, b) = drain dec b in (f # fs, err, b)
          else ([f], None, b))"
  by pat_completeness auto
termination
  by (relation "measure (\<lambda>(_, buf). length buf)") auto

declare drain.simps [simp del]

fun connection ::
  "(bytes \<Rightarrow> (frame_error + 'f option) \<times> bytes) \<Rightarrow> bytes \<Rightarrow> bytes list \<Rightarrow> 'f list \<times> frame_error option \<times> bytes" where
  "connection dec buf [] = drain dec buf"
| "connection dec buf (r # rs) =
     (case drain dec buf of
        (fs, Some e, b) \<Rightarrow> (fs, Some e, b)
      | (fs, None, b) \<Rightarrow>
          if r = [] then (fs, None, b)
          else let (gs, err, b) = connection dec (b @ r) rs in (fs @ gs, err, b))"

text \<open>
  \<open>read_frame\<close> of \<open>cave-rdbms/src/server.rs\<close> returns one frame and reads on only when the buffer holds
  none; the pieces not yet read come back with the buffer.
\<close>

fun read_frame ::
  "(bytes \<Rightarrow> (frame_error + 'f option) \<times> bytes) \<Rightarrow> bytes \<Rightarrow> bytes list \<Rightarrow>
   (frame_error + 'f option) \<times> bytes \<times> bytes list" where
  "read_frame dec buf [] = (case dec buf of (res, b) \<Rightarrow> (res, b, []))"
| "read_frame dec buf (r # rs) =
     (case dec buf of
        (Inl e, b) \<Rightarrow> (Inl e, b, r # rs)
      | (Inr (Some f), b) \<Rightarrow> (Inr (Some f), b, r # rs)
      | (Inr None, b) \<Rightarrow> if r = [] then (Inr None, b, rs) else read_frame dec (b @ r) rs)"

locale frame_codec =
  fixes dec :: "bytes \<Rightarrow> (frame_error + 'f option) \<times> bytes"
  assumes waits: "dec b = (Inr None, b') \<Longrightarrow> b' = b"
    and consumes: "dec b = (Inr (Some f), b') \<Longrightarrow> length b' < length b"
    and later_frame: "dec b = (Inr (Some f), b') \<Longrightarrow> dec (b @ x) = (Inr (Some f), b' @ x)"
    and later_error: "dec b = (Inl e, b') \<Longrightarrow> dec (b @ x) = (Inl e, b' @ x)"
begin

lemma drain_frame:
  "dec b = (Inr (Some f), b') \<Longrightarrow> drain dec b = (f # fst (drain dec b'), snd (drain dec b'))"
  using consumes [of b f b'] by (simp add: drain.simps [of dec b] case_prod_unfold Let_def)

lemma drain_error: "dec b = (Inl e, b') \<Longrightarrow> drain dec b = ([], Some e, b')"
  by (simp add: drain.simps [of dec b])

lemma drain_wait: "dec b = (Inr None, b') \<Longrightarrow> drain dec b = ([], None, b)"
  using waits [of b b'] by (simp add: drain.simps [of dec b])

lemma drain_append:
  "case drain dec b of
     (fs, Some e, r) \<Rightarrow> drain dec (b @ x) = (fs, Some e, r @ x)
   | (fs, None, r) \<Rightarrow> drain dec (b @ x) = (fs @ fst (drain dec (r @ x)), snd (drain dec (r @ x)))"
proof (induction "length b" arbitrary: b rule: less_induct)
  case less
  obtain res b' where res: "dec b = (res, b')" by (cases "dec b")
  consider (err) e where "res = Inl e" | (wait) "res = Inr None" | (frame) f where "res = Inr (Some f)"
    by (cases res) (auto split: option.splits elim: option.exhaust)
  then show ?case
  proof cases
    case err
    with res show ?thesis by (simp add: drain_error later_error)
  next
    case wait
    with res show ?thesis by (simp add: drain_wait)
  next
    case frame
    with res have d: "dec b = (Inr (Some f), b')" by simp
    obtain fs err r where r: "drain dec b' = (fs, err, r)" by (cases "drain dec b'")
    from less [OF consumes [OF d]] r show ?thesis
      by (simp add: drain_frame [OF d] drain_frame [OF later_frame [OF d]] split: option.splits)
  qed
qed

lemma drain_parts:
  assumes "\<And>b f b'. dec b = (Inr (Some f), b') \<Longrightarrow> P f \<and> raw f @ b' = b"
  shows "(\<forall>f \<in> set (fst (drain dec b)). P f) \<and>
         (fst (snd (drain dec b)) = None \<longrightarrow>
            concat (map raw (fst (drain dec b))) @ snd (snd (drain dec b)) = b)"
proof (induction "length b" arbitrary: b rule: less_induct)
  case less
  obtain res b' where res: "dec b = (res, b')" by (cases "dec b")
  consider (err) e where "res = Inl e" | (wait) "res = Inr None" | (frame) f where "res = Inr (Some f)"
    by (cases res) (auto split: option.splits elim: option.exhaust)
  then show ?case
  proof cases
    case frame
    with res have d: "dec b = (Inr (Some f), b')" by simp
    with less [OF consumes [OF d]] assms [OF d] show ?thesis by (auto simp: drain_frame)
  qed (use res in \<open>simp_all add: drain_error drain_wait\<close>)
qed

text \<open>The next frame of the stream is read whatever the pieces are.\<close>

lemma read_frame_next:
  assumes "[] \<notin> set rs" and "dec (b @ concat rs) = (Inr (Some f), rest)"
  shows "\<exists>b' rs'. read_frame dec b rs = (Inr (Some f), b', rs') \<and> b' @ concat rs' = rest \<and> [] \<notin> set rs'"
  using assms
proof (induction rs arbitrary: b)
  case (Cons r rs)
  obtain res b' where res: "dec b = (res, b')" by (cases "dec b")
  consider (err) e where "res = Inl e" | (wait) "res = Inr None" | (frame) g where "res = Inr (Some g)"
    by (cases res) (auto split: option.splits elim: option.exhaust)
  then show ?case
  proof cases
    case err
    with res later_error [of b e b' "concat (r # rs)"] Cons.prems(2) show ?thesis by simp
  next
    case wait
    with res Cons.IH [of "b @ r"] Cons.prems waits [of b b'] show ?thesis by auto
  next
    case frame
    with res later_frame [of b g b' "concat (r # rs)"] Cons.prems show ?thesis by auto
  qed
qed simp

text \<open>How the stream is cut into pieces does not matter.\<close>

lemma connection_drain:
  assumes "[] \<notin> set rs"
  shows "fst (connection dec b rs) = fst (drain dec (b @ concat rs)) \<and>
         fst (snd (connection dec b rs)) = fst (snd (drain dec (b @ concat rs))) \<and>
         (fst (snd (connection dec b rs)) = None \<longrightarrow> connection dec b rs = drain dec (b @ concat rs))"
  using assms
proof (induction rs arbitrary: b)
  case (Cons r rs)
  obtain fs err c where c: "drain dec b = (fs, err, c)" by (cases "drain dec b")
  note app = drain_append [of b "r @ concat rs"]
  show ?case
  proof (cases err)
    case None
    with Cons.IH [of "c @ r"] Cons.prems app c show ?thesis
      by (auto simp: case_prod_unfold Let_def prod_eq_iff)
  next
    case (Some e)
    with app c show ?thesis by simp
  qed
qed simp

end

lemma read_length_later:
  "length_size spec \<le> length bs \<Longrightarrow> read_length (bs @ x) spec = read_length bs spec"
  by (auto simp: read_length_def split: endian.splits)

interpretation lp: frame_codec "try_read_length_prefixed spec" for spec
proof
  fix b b' f x e
  show "b' = b" if "try_read_length_prefixed spec b = (Inr None, b')"
    using that by (auto simp: try_read_length_prefixed_def Let_def split: sum.splits if_splits)
  show "length b' < length b" if "try_read_length_prefixed spec b = (Inr (Some f), b')"
    using that by (auto simp: try_read_length_prefixed_def read_length_def Let_def split: sum.splits if_splits)
  have later: "read_length (drop (header_offset spec) (b @ x)) spec = read_length (drop (header_offset spec) b) spec"
    if "header_offset spec + length_size spec \<le> length b"
    using that read_length_later [of spec "drop (header_offset spec) b" x] by simp
  show "try_read_length_prefixed spec (b @ x) = (Inr (Some f), b' @ x)"
    if "try_read_length_prefixed spec b = (Inr (Some f), b')"
    using that later unfolding try_read_length_prefixed_def Let_def
    by (auto simp del: drop_append split: sum.splits if_splits) (simp_all add: drop_append)
  show "try_read_length_prefixed spec (b @ x) = (Inl e, b' @ x)"
    if "try_read_length_prefixed spec b = (Inl e, b')"
    using that later unfolding try_read_length_prefixed_def Let_def
    by (auto simp del: drop_append split: sum.splits if_splits)
qed

text \<open>What a frame that was read looks like.\<close>

lemma try_read_frame:
  assumes "try_read_length_prefixed spec b = (Inr (Some f), b')"
  shows "f @ b' = b \<and> length f \<le> ls_max_frame_size spec \<and> header_offset spec + length_size spec \<le> length f \<and>
         read_length (drop (header_offset spec) f) spec \<noteq> Inl e \<and>
         (\<forall>v. read_length (drop (header_offset spec) f) spec = Inr v \<longrightarrow> length f = total_frame_len spec v)"
proof -
  obtain v where v: "read_length (drop (header_offset spec) b) spec = Inr v"
    and len: "header_offset spec + length_size spec \<le> total_frame_len spec v"
      "total_frame_len spec v \<le> ls_max_frame_size spec" "total_frame_len spec v \<le> length b"
    and f: "f = take (total_frame_len spec v) b" "b' = drop (total_frame_len spec v) b"
    using assms by (auto simp: try_read_length_prefixed_def Let_def split: sum.splits if_splits)
  have b: "b = f @ b'" by (simp add: f)
  have "length f = total_frame_len spec v" using len(3) by (simp add: f)
  moreover have "read_length (drop (header_offset spec) f) spec = Inr v"
    using v read_length_later [of spec "drop (header_offset spec) f" b'] calculation len(1)
    by (simp add: b)
  ultimately show ?thesis using len b by simp
qed

end
