(* ===== verification/Wire_Codecs.thy ===== *)
theory Wire_Codecs
  imports Kernel_Codec
begin

section \<open>The codecs of the PostgreSQL and the MongoDB protocol\<close>

text \<open>
  \<open>cave-rdbms/src/protocol/codec.rs\<close> and \<open>cave-docdb/src/codec.rs\<close>, the two clients of the length-prefix
  framing of the kernel. Both keep the contract \<open>frame_codec\<close>.
\<close>

definition U32_LIMIT :: usize where
  "U32_LIMIT = 4294967295"

declare U32_LIMIT_def [code del]

subsection \<open>PostgreSQL\<close>

record pg_frame =
  type_byte :: "byte option"
  pg_body :: bytes

datatype pg_phase = Startup | Regular

definition PG_DEFAULT_MAX_FRAME_SIZE :: usize where
  "PG_DEFAULT_MAX_FRAME_SIZE = 16 * 1024 * 1024"

declare PG_DEFAULT_MAX_FRAME_SIZE_def [code del]

record pg_wire_codec =
  pg_phase :: pg_phase
  pg_max_frame_size :: usize

definition pg_with_limit :: "usize \<Rightarrow> pg_wire_codec" where
  "pg_with_limit m = \<lparr>pg_phase = Startup, pg_max_frame_size = m\<rparr>"

definition pg_new :: pg_wire_codec where
  "pg_new = pg_with_limit PG_DEFAULT_MAX_FRAME_SIZE"

definition advance_to_regular :: "pg_wire_codec \<Rightarrow> pg_wire_codec" where
  "advance_to_regular c = c\<lparr>pg_phase := Regular\<rparr>"

definition pg_encode :: "pg_frame \<Rightarrow> bytes \<Rightarrow> (frame_error + unit) \<times> bytes" where
  "pg_encode fr buf =
     (let buf = (case type_byte fr of Some t \<Rightarrow> buf @ [t] | None \<Rightarrow> buf);
          length_value = 4 + length (pg_body fr)
      in if length_value > U32_LIMIT then (Inl (FrameLimit length_value U32_LIMIT), buf)
         else (Inr (), (buf @ to_be_bytes length_value) @ pg_body fr))"

definition pg_decode :: "pg_wire_codec \<Rightarrow> bytes \<Rightarrow> (frame_error + pg_frame option) \<times> bytes" where
  "pg_decode self buf =
     (let spec = (case pg_phase self of
                    Startup \<Rightarrow> postgres_startup (pg_max_frame_size self)
                  | Regular \<Rightarrow> postgres_v3 (pg_max_frame_size self))
      in case try_read_length_prefixed spec buf of
           (Inl e, buf) \<Rightarrow> (Inl e, buf)
         | (Inr None, buf) \<Rightarrow> (Inr None, buf)
         | (Inr (Some raw), buf) \<Rightarrow>
             (Inr (Some (case pg_phase self of
                           Startup \<Rightarrow> \<lparr>type_byte = None, pg_body = drop 4 raw\<rparr>
                         | Regular \<Rightarrow> \<lparr>type_byte = Some (raw ! 0), pg_body = drop 5 raw\<rparr>)), buf))"

datatype startup_kind = StartupKind | SslRequest | CancelRequest

definition SSL_REQUEST_CODE :: nat where
  "SSL_REQUEST_CODE = 80877103"

definition CANCEL_REQUEST_CODE :: nat where
  "CANCEL_REQUEST_CODE = 80877102"

declare SSL_REQUEST_CODE_def [code del] CANCEL_REQUEST_CODE_def [code del]

definition classify_startup :: "bytes \<Rightarrow> startup_kind option" where
  "classify_startup body =
     (if length body < 4 then None
      else let code = from_be_bytes (take 4 body)
           in Some (if code = SSL_REQUEST_CODE then SslRequest
                    else if code = CANCEL_REQUEST_CODE then CancelRequest
                    else StartupKind))"

subsection \<open>MongoDB\<close>

record raw_wire_frame =
  rw_bytes :: bytes

definition MONGO_DEFAULT_MAX_FRAME_SIZE :: usize where
  "MONGO_DEFAULT_MAX_FRAME_SIZE = 48 * 1024 * 1024"

declare MONGO_DEFAULT_MAX_FRAME_SIZE_def [code del]

record op_msg_codec =
  om_max_frame_size :: usize

definition op_msg_with_limit :: "usize \<Rightarrow> op_msg_codec" where
  "op_msg_with_limit m = \<lparr>om_max_frame_size = m\<rparr>"

definition op_msg_new :: op_msg_codec where
  "op_msg_new = op_msg_with_limit MONGO_DEFAULT_MAX_FRAME_SIZE"

definition op_msg_encode :: "op_msg_codec \<Rightarrow> raw_wire_frame \<Rightarrow> bytes \<Rightarrow> (frame_error + unit) \<times> bytes" where
  "op_msg_encode self fr buf =
     (let n = length (rw_bytes fr)
      in if n > om_max_frame_size self then (Inl (FrameLimit n (om_max_frame_size self)), buf)
         else if n < 16
         then (Inl (FrameInvalid (''encoded OP_MSG frame is '' @ show_nat n @
                                  '' bytes; minimum is 16 (header)'')), buf)
         else (Inr (), buf @ rw_bytes fr))"

definition op_msg_decode :: "op_msg_codec \<Rightarrow> bytes \<Rightarrow> (frame_error + raw_wire_frame option) \<times> bytes" where
  "op_msg_decode self buf =
     (case try_read_length_prefixed (mongo_op_msg (om_max_frame_size self)) buf of
        (Inl e, buf) \<Rightarrow> (Inl e, buf)
      | (Inr (Some bs), buf) \<Rightarrow>
          if length bs < 16
          then (Inl (FrameInvalid (''OP_MSG frame '' @ show_nat (length bs) @
                                   '' bytes is shorter than header (16)'')), buf)
          else (Inr (Some \<lparr>rw_bytes = bs\<rparr>), buf)
      | (Inr None, buf) \<Rightarrow> (Inr None, buf))"

subsection \<open>Both keep the contract\<close>

interpretation pg: frame_codec "pg_decode c" for c
proof
  fix b b' f x e
  let ?s = "case pg_phase c of Startup \<Rightarrow> postgres_startup (pg_max_frame_size c)
                             | Regular \<Rightarrow> postgres_v3 (pg_max_frame_size c)"
  show "b' = b" if "pg_decode c b = (Inr None, b')"
    using that lp.waits [of ?s b] by (auto simp: pg_decode_def Let_def split: prod.splits sum.splits option.splits)
  show "length b' < length b" if "pg_decode c b = (Inr (Some f), b')"
    using that lp.consumes [of ?s b] by (auto simp: pg_decode_def Let_def split: prod.splits sum.splits option.splits)
  show "pg_decode c (b @ x) = (Inr (Some f), b' @ x)" if "pg_decode c b = (Inr (Some f), b')"
    using that lp.later_frame [of ?s b _ _ x]
    unfolding pg_decode_def Let_def
    by (cases "try_read_length_prefixed ?s b") (auto split: sum.splits option.splits)
  show "pg_decode c (b @ x) = (Inl e, b' @ x)" if "pg_decode c b = (Inl e, b')"
    using that lp.later_error [of ?s b _ _ x]
    unfolding pg_decode_def Let_def
    by (cases "try_read_length_prefixed ?s b") (auto split: sum.splits option.splits)
qed

interpretation om: frame_codec "op_msg_decode c" for c
proof
  fix b b' f x e
  let ?s = "mongo_op_msg (om_max_frame_size c)"
  show "b' = b" if "op_msg_decode c b = (Inr None, b')"
    using that lp.waits [of ?s b] by (auto simp: op_msg_decode_def split: prod.splits sum.splits option.splits if_splits)
  show "length b' < length b" if "op_msg_decode c b = (Inr (Some f), b')"
    using that lp.consumes [of ?s b]
    by (auto simp: op_msg_decode_def split: prod.splits sum.splits option.splits if_splits)
  show "op_msg_decode c (b @ x) = (Inr (Some f), b' @ x)" if "op_msg_decode c b = (Inr (Some f), b')"
    using that lp.later_frame [of ?s b _ _ x]
    unfolding op_msg_decode_def
    by (cases "try_read_length_prefixed ?s b") (auto split: sum.splits option.splits if_splits)
  show "op_msg_decode c (b @ x) = (Inl e, b' @ x)" if "op_msg_decode c b = (Inl e, b')"
    using that lp.later_error [of ?s b _ _ x] lp.later_frame [of ?s b _ _ x]
    unfolding op_msg_decode_def
    by (cases "try_read_length_prefixed ?s b") (auto split: sum.splits option.splits if_splits)
qed

subsection \<open>Frames survive the network\<close>

lemma be_bytes_length [simp]: "length (to_be_bytes n) = 4"
  by (simp add: to_be_bytes_def)

lemma be_bytes_roundtrip: "n \<le> U32_LIMIT \<Longrightarrow> from_be_bytes (to_be_bytes n) = n"
proof -
  assume "n \<le> U32_LIMIT"
  then have "n div 256 div 256 div 256 mod 256 = n div 256 div 256 div 256"
    by (simp add: U32_LIMIT_def div_mult2_eq [symmetric])
  moreover have "n div 65536 = n div 256 div 256" "n div 16777216 = n div 256 div 256 div 256"
    by (simp_all add: div_mult2_eq [symmetric])
  ultimately show ?thesis
    by (simp add: from_be_bytes_def to_be_bytes_def)
qed

text \<open>Writing frames one after another, as long as no error occurs.\<close>

fun pg_encode_all :: "pg_frame list \<Rightarrow> bytes \<Rightarrow> (frame_error + unit) \<times> bytes" where
  "pg_encode_all [] buf = (Inr (), buf)"
| "pg_encode_all (f # fs) buf =
     (case pg_encode f buf of (Inl e, b) \<Rightarrow> (Inl e, b) | (Inr _, b) \<Rightarrow> pg_encode_all fs b)"

text \<open>Reading \<open>n\<close> frames one after another; it ends early at the end of the stream or an error.\<close>

fun read_frames ::
  "(bytes \<Rightarrow> (frame_error + 'f option) \<times> bytes) \<Rightarrow> nat \<Rightarrow> bytes \<Rightarrow> bytes list \<Rightarrow> 'f list \<times> bytes \<times> bytes list" where
  "read_frames dec 0 buf rs = ([], buf, rs)"
| "read_frames dec (Suc n) buf rs =
     (case read_frame dec buf rs of
        (Inr (Some f), b, rs) \<Rightarrow> (case read_frames dec n b rs of (fs, b, rs) \<Rightarrow> (f # fs, b, rs))
      | (_, b, rs) \<Rightarrow> ([], b, rs))"

lemma pg_encode_append: "pg_encode f buf = (fst (pg_encode f []), buf @ snd (pg_encode f []))"
  by (simp add: pg_encode_def Let_def split: option.splits)

lemma pg_encode_all_Cons:
  assumes "pg_encode_all (f # fs) [] = (Inr (), s)"
  obtains u v where "pg_encode f [] = (Inr (), u)" and "pg_encode_all fs [] = (Inr (), v)" and "s = u @ v"
proof -
  have app: "pg_encode_all fs buf = (fst (pg_encode_all fs []), buf @ snd (pg_encode_all fs []))" for fs buf
  proof (induction fs arbitrary: buf)
    case (Cons f fs)
    obtain r u where u: "pg_encode f [] = (r, u)" by (cases "pg_encode f []")
    then have b: "pg_encode f buf = (r, buf @ u)" using pg_encode_append [of f buf] by simp
    show ?case
    proof (cases r)
      case (Inr _)
      with u b Cons.IH [of "buf @ u"] Cons.IH [of u] show ?thesis by simp
    qed (simp add: u b)
  qed simp
  obtain r u where u: "pg_encode f [] = (r, u)" by (cases "pg_encode f []")
  show ?thesis
  proof (cases r)
    case (Inr _)
    with assms u app [of fs u] that [of u "snd (pg_encode_all fs [])"] show ?thesis
      by (cases "pg_encode_all fs []") simp
  qed (use assms u in simp)
qed

lemma pg_decode_encoded:
  assumes "pg_encode f [] = (Inr (), u)" and "type_byte f \<noteq> None" and "5 + length (pg_body f) \<le> pg_max_frame_size c"
    and "pg_phase c = Regular"
  shows "pg_decode c (u @ x) = (Inr (Some f), x)"
proof -
  obtain t where t: "type_byte f = Some t" using assms(2) by auto
  let ?n = "4 + length (pg_body f)"
  have n: "?n \<le> U32_LIMIT" and u: "u = t # to_be_bytes ?n @ pg_body f"
    using assms(1) t by (auto simp: pg_encode_def Let_def split: if_splits)
  have len: "length u = 5 + length (pg_body f)" and h: "take 4 (drop (Suc 0) u) = to_be_bytes ?n"
    by (simp_all add: u)
  have "try_read_length_prefixed (postgres_v3 (pg_max_frame_size c)) (u @ x) = (Inr (Some u), x)"
    using assms(3) be_bytes_roundtrip [OF n]
    by (simp add: try_read_length_prefixed_def postgres_v3_def read_length_def total_frame_len_def len h)
  moreover have "drop 5 u = pg_body f" by (simp add: u)
  ultimately show ?thesis using assms(4) t by (simp add: pg_decode_def u)
qed

text \<open>
  C19: PostgreSQL frames survive the network. When a list of frames with type bytes, each within the
  size limit of the receiver, is encoded without error and the bytes arrive in any pieces, a
  receiver in the regular phase reads exactly these frames one after another, and then finds the
  end of the stream with an empty buffer.
\<close>

theorem pg_stream_roundtrip:
  assumes "pg_encode_all fs [] = (Inr (), concat pieces)" and "[] \<notin> set pieces"
    and "\<forall>f \<in> set fs. type_byte f \<noteq> None \<and> 5 + length (pg_body f) \<le> pg_max_frame_size c"
    and "pg_phase c = Regular"
  shows "read_frames (pg_decode c) (length fs) [] pieces = (fs, [], []) \<and>
         read_frame (pg_decode c) [] [] = (Inr None, [], [])"
proof -
  have "read_frames (pg_decode c) (length fs) b rs = (fs, [], [])"
    if "pg_encode_all fs [] = (Inr (), b @ concat rs)" and "[] \<notin> set rs"
      and "\<forall>f \<in> set fs. type_byte f \<noteq> None \<and> 5 + length (pg_body f) \<le> pg_max_frame_size c" for b rs
    using that
  proof (induction fs arbitrary: b rs)
    case Nil
    then show ?case by (cases rs) auto
  next
    case (Cons f fs)
    obtain u v where u: "pg_encode f [] = (Inr (), u)" and v: "pg_encode_all fs [] = (Inr (), v)"
      and s: "b @ concat rs = u @ v" by (rule pg_encode_all_Cons [OF Cons.prems(1)])
    have "pg_decode c (b @ concat rs) = (Inr (Some f), v)"
      unfolding s using pg_decode_encoded [OF u _ _ assms(4)] Cons.prems(3) by simp
    from pg.read_frame_next [OF Cons.prems(2) this] obtain b' rs' where
      r: "read_frame (pg_decode c) b rs = (Inr (Some f), b', rs')" "b' @ concat rs' = v" "[] \<notin> set rs'"
      by blast
    with Cons.IH [of b' rs'] Cons.prems(3) v show ?case by simp
  qed
  from this [of "[]" pieces] assms(1-3)
  have "read_frames (pg_decode c) (length fs) [] pieces = (fs, [], [])" by simp
  moreover have "pg_decode c [] = (Inr None, [])"
    using assms(4) by (simp add: pg_decode_def try_read_length_prefixed_def postgres_v3_def)
  ultimately show ?thesis by simp
qed

definition demo_pg :: "pg_frame list" where
  "demo_pg = [\<lparr>type_byte = Some CHR ''Q'', pg_body = ''ab''\<rparr>, \<lparr>type_byte = Some CHR ''S'', pg_body = []\<rparr>]"

definition demo_pieces :: "bytes list" where
  "demo_pieces = [CHR ''Q'' # take 2 (to_be_bytes 6), drop 2 (to_be_bytes 6) @ ''a'', ''bS'', to_be_bytes 4]"

theorem pg_stream_roundtrip_witness:
  "read_frames (pg_decode (advance_to_regular (pg_with_limit 9))) (length demo_pg) [] demo_pieces =
     (demo_pg, [], [])"
proof -
  have "pg_encode_all demo_pg [] = (Inr (), concat demo_pieces)"
    by (simp add: demo_pg_def demo_pieces_def pg_encode_def U32_LIMIT_def)
  moreover have "[] \<notin> set demo_pieces" by (simp add: demo_pieces_def to_be_bytes_def)
  moreover have "\<forall>f \<in> set demo_pg. type_byte f \<noteq> None \<and>
      5 + length (pg_body f) \<le> pg_max_frame_size (advance_to_regular (pg_with_limit 9))"
    by (simp add: demo_pg_def advance_to_regular_def pg_with_limit_def)
  moreover have "pg_phase (advance_to_regular (pg_with_limit 9)) = Regular"
    by (simp add: advance_to_regular_def)
  ultimately show ?thesis by (rule conjunct1 [OF pg_stream_roundtrip])
qed

text \<open>
  C20: MongoDB frames partition the stream. Whatever pieces the bytes arrive in, every frame handed
  on is between 16 bytes and the limit long and its first four bytes announce exactly its
  length; without an error the frames and the bytes left in the buffer are together the bytes
  received, in order; and any other way to cut the same bytes gives the same frames and the same
  error.
\<close>

theorem op_msg_stream:
  assumes "connection (op_msg_decode c) [] pieces = (fs, err, rest)" and "[] \<notin> set pieces"
  shows "(\<forall>f \<in> set fs. 16 \<le> length (rw_bytes f) \<and> length (rw_bytes f) \<le> om_max_frame_size c \<and>
                     from_le_bytes (take 4 (rw_bytes f)) = length (rw_bytes f)) \<and>
         (err = None \<longrightarrow> concat (map rw_bytes fs) @ rest = concat pieces) \<and>
         (\<forall>pieces'. concat pieces' = concat pieces \<and> [] \<notin> set pieces' \<longrightarrow>
            (\<exists>rest'. connection (op_msg_decode c) [] pieces' = (fs, err, rest')))"
proof -
  let ?d = "drain (op_msg_decode c) (concat pieces)"
  let ?P = "\<lambda>f. 16 \<le> length (rw_bytes f) \<and> length (rw_bytes f) \<le> om_max_frame_size c \<and>
                from_le_bytes (take 4 (rw_bytes f)) = length (rw_bytes f)"
  have one: "?P f \<and> rw_bytes f @ b' = b" if d: "op_msg_decode c b = (Inr (Some f), b')" for b f b'
  proof -
    have "try_read_length_prefixed (mongo_op_msg (om_max_frame_size c)) b = (Inr (Some (rw_bytes f)), b')"
      and "16 \<le> length (rw_bytes f)"
      using d by (auto simp: op_msg_decode_def split: prod.splits sum.splits option.splits if_splits)
    with try_read_frame [OF this(1)] show ?thesis
      by (simp add: mongo_op_msg_def read_length_def total_frame_len_def)
  qed
  have d: "fst ?d = fs" "fst (snd ?d) = err" "err = None \<Longrightarrow> snd (snd ?d) = rest"
    using om.connection_drain [OF assms(2), of c "[]"] assms(1) by (auto simp: prod_eq_iff)
  have "\<exists>rest'. connection (op_msg_decode c) [] pieces' = (fs, err, rest')"
    if "concat pieces' = concat pieces" "[] \<notin> set pieces'" for pieces'
    using om.connection_drain [OF that(2), of c "[]"] that(1) d(1,2)
    by (cases "connection (op_msg_decode c) [] pieces'") auto
  with om.drain_parts [of c ?P rw_bytes "concat pieces", OF one] d show ?thesis by auto
qed

definition demo_op_msg :: bytes where
  "demo_op_msg = char_of (18 :: nat) # replicate 17 (char_of (0 :: nat))"

theorem op_msg_stream_witness:
  "connection (op_msg_decode (op_msg_with_limit 20)) [] [demo_op_msg @ take 3 demo_op_msg] =
     ([\<lparr>rw_bytes = demo_op_msg\<rparr>], None, take 3 demo_op_msg) \<and>
   (\<exists>rest. connection (op_msg_decode (op_msg_with_limit 20)) []
      [take 2 demo_op_msg, drop 2 demo_op_msg @ take 1 demo_op_msg, drop 1 (take 3 demo_op_msg)] =
      ([\<lparr>rw_bytes = demo_op_msg\<rparr>], None, rest))"
proof -
  have c: "connection (op_msg_decode (op_msg_with_limit 20)) [] [demo_op_msg @ take 3 demo_op_msg] =
     ([\<lparr>rw_bytes = demo_op_msg\<rparr>], None, take 3 demo_op_msg)" by code_simp
  let ?p = "[take 2 demo_op_msg, drop 2 demo_op_msg @ take 1 demo_op_msg, drop 1 (take 3 demo_op_msg)]"
  have "[] \<notin> set [demo_op_msg @ take 3 demo_op_msg]" by (simp add: demo_op_msg_def)
  note pieces = conjunct2 [OF conjunct2 [OF op_msg_stream [OF c this]], rule_format, of ?p]
  have "concat ?p = concat [demo_op_msg @ take 3 demo_op_msg] \<and> [] \<notin> set ?p"
    by (simp add: demo_op_msg_def numeral_eq_Suc)
  from pieces [OF this] c show ?thesis by blast
qed

end
