(* ===== verification/Spec2Isabelle.thy ===== *)
theory Spec2Isabelle
  imports Raft_Replication Etcd_Watch Etcd_Auth Etcd_Snapshot Etcd_Wal Etcd_Joint_Quorum Etcd_Concurrency
    Etcd_Lease_Ids Etcd_Quota Controller_Election Kernel_Breaker Kernel_Backoff Wire_Codecs
begin

text \<open>
  A verification library for the replication and storage core of the Cave runtime.

  \<^bold>\<open>The program.\<close> The runtime is a Cargo workspace. Parts of six of its crates are covered here.
  \<^item> \<open>cave-ha\<close> (\<open>src/crates/compute/cave-ha\<close>): a Raft node. It keeps a log, elects leaders, replicates
    entries, commits them, applies them to a state machine, transfers snapshots, changes the
    membership through joint configurations and serves linearizable reads.
  \<^item> \<open>cave-etcd\<close> (\<open>src/crates/compute/cave-etcd\<close>): a key-value store with the interface of etcd.
    \<open>store.rs\<close> holds keys with revisions, leases, watches, users, members and snapshots; beside it
    stand a write-ahead log that is replayed into the store, locks and elections over leases, a
    generator of lease ids and quotas.
  \<^item> \<open>cave-kernel\<close> (\<open>src/crates/core/cave-kernel\<close>): primitives for all crates. Covered are the contract of
    a log store and a state machine (\<open>consensus.rs\<close>), which \<open>cave-ha\<close> implements, named leases, the
    circuit breaker, backoff schedules and length-prefix framing.
  \<^item> \<open>cave-controller-manager\<close>: its \<open>leader_election.rs\<close>, a client of the named leases.
  \<^item> \<open>cave-rdbms\<close> and \<open>cave-docdb\<close>: the codecs of the PostgreSQL and MongoDB protocols, clients of the
    framing.

  \<^bold>\<open>Conventions.\<close> A struct is a record, an enum a datatype, a method a function that takes the state and
  returns it updated. A byte is a \<open>char\<close>. Unsigned counters that no code path brings near their
  width are natural numbers, \<open>i64\<close> is \<open>int\<close>; where wrap-around matters (SHA-256, lengths and checksums
  of the write-ahead log, lease ids, quotas) the numbers are words. A \<open>HashMap\<close> or \<open>DashMap\<close> is an
  association list, a \<open>BTreeMap\<close> a sorted one. \<open>Result\<close> is a sum type with the error on the left. The clock,
  random numbers and fresh tokens are arguments. Third-party code (serde, bcrypt, CRC-32) is a
  record of functions that the definitions take as an argument.

  \<^bold>\<open>Prelude.\<close> Types, association lists and sorted ones, slices of lists, and the collections
  \<open>model_defs\<close> and \<open>frame\<close>.

  \<^bold>\<open>Raft (\<open>cave-ha/src/raft\<close>).\<close>
  \<^item> \<open>Raft_Types\<close> (\<open>types.rs\<close>, \<open>membership.rs\<close>, \<open>error.rs\<close>): roles, errors, joint membership. The locale
    \<open>quorum_system\<close> states that quorums overlap; membership configurations are an instance. A
    joint quorum meets every quorum of the old and of the new configuration.
  \<^item> \<open>Raft_Log\<close> (\<open>log.rs\<close>): the log with its compacted prefix; what append and compaction leave.
  \<^item> \<open>Raft_Snapshot\<close> (\<open>snapshot.rs\<close>): chunking and reassembly. The chunking loop may run forever, so it
    is a partial function into \<open>option\<close>; it returns exactly for a positive chunk size or an empty
    snapshot, and the chunks fed to a receiver give the snapshot back.
  \<^item> \<open>Raft_Read_Only\<close> (\<open>read_only.rs\<close>): the queue of reads and the leader lease.
  \<^item> \<open>Kernel_Bridge\<close> (\<open>state_machine.rs\<close>, \<open>kernel_bridge.rs\<close>, and \<open>consensus.rs\<close> of the kernel): locales
    \<open>log_store\<close> and \<open>state_machine\<close> for the two contracts, with the adapters as instances.
  \<^item> \<open>Raft_Messages\<close> (\<open>messages.rs\<close>) and \<open>Raft_Node\<close> (\<open>node.rs\<close>, \<open>config.rs\<close>): the state of a node, the
    clock tick, every message handler and every command. \<open>node_step\<close> is one turn of the task loop.
    Messages sent and answers to clients are collected in \<open>outbox\<close> and \<open>replies\<close>.
  \<^item> \<open>Raft_Election\<close>: a voting specification that knows only terms, votes and leaders.
    \<open>Raft_Cluster\<close>: nodes over a network that loses, duplicates and reorders messages; it refines
    the voting specification, hence at most one leader per term as long as no membership change
    has been applied.
  \<^item> \<open>Raft_Replication\<close>: a leader that counts replicas commits exactly up to the last entry of
    its term on a quorum; a run of the apply loop applies committed entries in order; a leader that steps down answers all its
    clients; the flush of linearizable reads never answers one with two or more voters.

  \<^bold>\<open>The store (\<open>cave-etcd/src\<close>).\<close>
  \<^item> \<open>Etcd_Types\<close> (\<open>models.rs\<close>, \<open>error.rs\<close>) and \<open>Etcd_Store\<close> (\<open>store.rs\<close>: \<open>range\<close>, \<open>put\<close>, \<open>delete_range\<close>, \<open>txn\<close>,
    \<open>compact\<close>, lease calls): the state of the store and the operations on keys.
  \<^item> \<open>Etcd_Mvcc\<close>, \<open>Etcd_Reads\<close>, \<open>Etcd_Keys\<close>: the consistency of live keys, key index, history and
    revision under every sequence of operations; a read at a past revision gives what a plain read
    gave then, and keeps giving it; what each put, delete, guarded transaction and compaction does.
  \<^item> \<open>Etcd_Leases\<close>: leased keys are live, expiry removes exactly what has expired. \<open>Etcd_Watch\<close>: a
    watch receives exactly the matching events, in order. \<open>Etcd_Auth\<close>: access needs a password.
  \<^item> \<open>Etcd_Cluster\<close>: member table, joint configurations, commit and read index.
  \<^item> \<open>Sha256\<close> and \<open>Etcd_Snapshot\<close>: the streaming hash equals its reference definition, snapshots
    survive streaming and restoring, wrong checksums are refused.
  \<^item> \<open>Etcd_Wal\<close> (\<open>wal.rs\<close>): a file cut behind any byte replays exactly its complete records; when the
    cut is inside the last append, the store rebuilt from it holds every earlier operation. An
    append that fails half way is another matter: the next one, though acknowledged, is lost.
  \<^item> \<open>Etcd_Joint_Quorum\<close> (\<open>raft_joint_quorum.rs\<close>): the joint commit index.
  \<^item> \<open>Etcd_Concurrency\<close> (\<open>concurrency.rs\<close>): locale \<open>lease_queue\<close> for a queue ordered by revision, with the
    mutex and the election as instances, for calls that run one after another; interleaved lock
    calls as steps of their own, when an owner keeps the mutex among them, and the interleavings in
    which two callers are granted the lock.
  \<^item> \<open>Etcd_Lease_Ids\<close> (\<open>lease_id_gen.rs\<close>) and \<open>Etcd_Quota\<close> (\<open>quota.rs\<close>): allocation returns the first free
    of five positive draws; guarded writes stay within the quota.

  \<^bold>\<open>Kernel and its clients.\<close>
  \<^item> \<open>Kernel_Lease\<close> (\<open>lease.rs\<close>): the lease table; locale \<open>lease_service\<close> is what a client relies on.
    \<open>Controller_Election\<close> (\<open>leader_election.rs\<close>): at most one replica leads during a lease term.
  \<^item> \<open>Kernel_Breaker\<close> (\<open>circuitbreaker.rs\<close>): sound states, when the breaker opens, that it recovers.
  \<^item> \<open>Kernel_Backoff\<close> (\<open>backoff.rs\<close>): delays grow up to the cap, but for the Fibonacci schedule at
    the largest retry number.
  \<^item> \<open>Kernel_Codec\<close> (\<open>codec/length_prefix.rs\<close>, \<open>codec/frame.rs\<close>) and \<open>Wire_Codecs\<close> (\<open>protocol/codec.rs\<close> of
    \<open>cave-rdbms\<close>, \<open>codec.rs\<close> of \<open>cave-docdb\<close>, and the read loops of both servers): locale \<open>frame_codec\<close> is the
    contract of a decoder, with both codecs as instances; frames do not depend on how the network
    cuts the stream, and encoded frames are read back.

  This theory adds what spans components: the joint quorum of \<open>cave-etcd\<close> agrees with the one of
  \<open>cave-ha\<close>.

  \<^bold>\<open>Bounds and fuel.\<close> No definition takes fuel in place of a loop. Loops are structural recursion or
  have a termination proof, except the chunking loop above. The five draws of a
  lease id are the bound of the source; the waiting loop of a linearizable read ends because each
  turn applies what it waits for.

  \<^bold>\<open>Not modelled.\<close> The asynchronous handles around the Raft node and the task loops (they send a command
  through a channel and wait); HTTP routes, clients and sockets (input and output only); the
  background timers of the store; plain getters. Operations of the
  store and of the quota tracker run one after another in the model: a method call is one step.
  The code does not always enforce that (\<open>put\<close> and \<open>delete_range\<close> do not take the lock of \<open>txn\<close>, and the
  check of a quota and the record of the write lock separately), so the theorems speak of
  sequential callers. Interleaved calls are modelled for the mutex of \<open>Etcd_Concurrency\<close>, and for
  the nodes of a Raft cluster, whose events are single steps of the task loop. Signed times wrap
  around at 64 bits. Floating point comparisons of the circuit breaker are arguments. The file-based storage of
  \<open>cave-ha\<close> is not used by its node. The other modules of these crates and all other crates are
  separate features that the modelled parts do not call.
\<close>

section \<open>Properties that span components\<close>

subsection \<open>Two implementations of the joint quorum\<close>

lemma fcard_fset_of_list: "distinct xs \<Longrightarrow> fcard (fset_of_list xs) = length xs"
  by (simp add: fcard.rep_eq fset_of_list.rep_eq distinct_card)

lemma majority_of_list:
  assumes "distinct vs" and "vs \<noteq> []" and "set vs \<subseteq> set all"
  shows "majority_of (fset_of_list vs) (ffilter (\<lambda>v. i \<le> acked m v) (fset_of_list all)) \<longleftrightarrow>
         majority_has vs m i"
proof -
  let ?P = "\<lambda>v. i \<le> acked m v"
  have "votes_in (ffilter ?P (fset_of_list all)) (fset_of_list vs) = fset_of_list (filter ?P vs)"
    using assms(3) by (auto simp: fset_of_list_elem)
  then have "fcard (votes_in (ffilter ?P (fset_of_list all)) (fset_of_list vs)) = length (filter ?P vs)"
    using assms(1) by (simp only: fcard_fset_of_list distinct_filter)
  then show ?thesis
    using assms(1,2) by (simp add: majority_of_def majority_has_def fcard_fset_of_list)
qed

text \<open>
  C12: the two implementations of the joint quorum agree. The commit index that cave-etcd computes
  from the acknowledged indices of two voter lists reaches an index exactly when the membership
  of cave-ha with the same incoming and outgoing voters has a quorum in the set of voters that
  acknowledged the index. Both configurations must have a voter: for an empty one cave-etcd
  agrees to everything and cave-ha to nothing.
\<close>

theorem joint_quorum_agrees:
  assumes "distinct c_old" and "distinct c_new" and "c_old \<noteq> []" and "c_new \<noteq> []" and "i \<le> U64_MAX"
    and "voters cfg = fset_of_list c_new" and "voters_outgoing cfg = Some (fset_of_list c_old)"
  shows "i \<le> joint_committed_index c_old c_new m \<longleftrightarrow>
         has_quorum cfg (ffilter (\<lambda>v. i \<le> acked m v) (fset_of_list (c_old @ c_new)))"
proof -
  have "majority_of (fset_of_list c_old) (ffilter (\<lambda>v. i \<le> acked m v) (fset_of_list (c_old @ c_new))) \<longleftrightarrow>
      majority_has c_old m i"
    by (rule majority_of_list [OF assms(1,3)]) simp
  moreover have "majority_of (fset_of_list c_new)
      (ffilter (\<lambda>v. i \<le> acked m v) (fset_of_list (c_old @ c_new))) \<longleftrightarrow> majority_has c_new m i"
    by (rule majority_of_list [OF assms(2,4)]) simp
  ultimately show ?thesis
    unfolding has_quorum_iff assms(6,7) joint_committed_index_def Let_def min.bounded_iff
      majority_committed_iff [OF assms(5)] by auto
qed

theorem joint_quorum_agrees_witness:
  "has_quorum \<lparr>voters = fset_of_list [3, 4], learners = {||},
     voters_outgoing = Some (fset_of_list [1, 2, 3]), auto_leave = False\<rparr>
     (ffilter (\<lambda>v. 3 \<le> acked [(1, 5), (3, 3), (4, 7)] v) (fset_of_list ([1, 2, 3] @ [3, 4])))"
proof -
  have "(3 :: nat) \<le> U64_MAX" by (simp add: U64_MAX_def)
  moreover have "3 \<le> joint_committed_index [1, 2, 3] [3, 4] [(1, 5), (3, 3), (4, 7)]" by code_simp
  ultimately show ?thesis
    using joint_quorum_agrees [of "[1, 2, 3]" "[3, 4]" 3
        "\<lparr>voters = fset_of_list [3, 4], learners = {||},
          voters_outgoing = Some (fset_of_list [1, 2, 3]), auto_leave = False\<rparr>"
        "[(1, 5), (3, 3), (4, 7)]"]
    by simp
qed

end
